(* ===== verification/Wire_Prelude.thy ===== *)
theory Wire_Prelude
  imports Main "HOL-Library.Word" "HOL-Library.Monad_Syntax"
begin

text \<open>
  Shared vocabulary of the development: machine words at the width the code declares them,
  bounds-checked memory access, byte order, and first-match search in arrays.

  The firmware is built for \<^verbatim>\<open>mipsel\<close>, so multi-byte loads and stores are little endian and
  \<^verbatim>\<open>ntohl\<close>/\<^verbatim>\<open>ntohs\<close> swap bytes.

  A C object is a list of bytes.  An access outside the object has no defined result in C; the
  model returns \<^term>\<open>None\<close> for it, and \<^term>\<open>None\<close> propagates through the option monad.  So
  \<open>f x = Some y\<close> says that the run of \<open>f\<close> performs no out-of-bounds access and yields \<open>y\<close>.
  A \<^verbatim>\<open>NULL\<close> result of the C function is a second, inner option.
\<close>

unbundle bit_operations_syntax

type_synonym u8 = "8 word"
type_synonym u16 = "16 word"
type_synonym u32 = "32 word"
type_synonym bytes = "u8 list"

named_theorems mem_simps \<open>bounds-checked memory access\<close>
named_theorems byte_order \<open>byte-order conversions and their round trips\<close>

section \<open>Memory\<close>

definition rd :: "'a list \<Rightarrow> nat \<Rightarrow> 'a option" where
  "rd m i = (if i < length m then Some (m ! i) else None)"

definition wr :: "'a list \<Rightarrow> nat \<Rightarrow> 'a \<Rightarrow> 'a list option" where
  "wr m i v = (if i < length m then Some (m[i := v]) else None)"

definition rd_n :: "'a list \<Rightarrow> nat \<Rightarrow> nat \<Rightarrow> 'a list option" where
  "rd_n m i n = (if i + n \<le> length m then Some (take n (drop i m)) else None)"

definition wr_n :: "'a list \<Rightarrow> nat \<Rightarrow> 'a list \<Rightarrow> 'a list option" where
  "wr_n m i v =
     (if i + length v \<le> length m then Some (take i m @ v @ drop (i + length v) m) else None)"

text \<open>The bytes of a NUL-terminated string that starts at offset \<open>i\<close>.\<close>

definition c_string_at :: "bytes \<Rightarrow> nat \<Rightarrow> bytes option" where
  "c_string_at m i = (if 0 \<in> set (drop i m) then Some (takeWhile (\<lambda>c. c \<noteq> 0) (drop i m)) else None)"

definition cstr :: "string \<Rightarrow> bytes" where
  "cstr s = map of_char s"

lemma rd_Some_iff [mem_simps]: "rd m i = Some v \<longleftrightarrow> i < length m \<and> m ! i = v"
  by (auto simp: rd_def)

lemma rd_None_iff [mem_simps]: "rd m i = None \<longleftrightarrow> length m \<le> i"
  by (auto simp: rd_def)

lemma rd_append_hit [simp]: "rd (xs @ y # ys) (length xs) = Some y"
  by (simp add: rd_def)

lemma rd_append_hit_Suc [simp]: "rd (xs @ y # z # ys) (Suc (length xs)) = Some z"
  by (simp add: rd_def nth_append)

lemma rd_n_Some_iff [mem_simps]:
  "rd_n m i n = Some v \<longleftrightarrow> i + n \<le> length m \<and> v = take n (drop i m)"
  by (auto simp: rd_n_def)

lemma rd_n_length: "rd_n m i n = Some v \<Longrightarrow> length v = n"
  by (auto simp: rd_n_def split: if_splits)

lemma wr_Some_iff [mem_simps]: "wr m i v = Some m' \<longleftrightarrow> i < length m \<and> m' = m[i := v]"
  by (auto simp: wr_def)

lemma wr_n_Some_iff [mem_simps]:
  "wr_n m i v = Some m' \<longleftrightarrow>
     i + length v \<le> length m \<and> m' = take i m @ v @ drop (i + length v) m"
  by (auto simp: wr_n_def)

lemma wr_length: "wr m i v = Some m' \<Longrightarrow> length m' = length m"
  by (auto simp: wr_def split: if_splits)

lemma wr_n_length: "wr_n m i v = Some m' \<Longrightarrow> length m' = length m"
  by (auto simp: wr_n_def split: if_splits)

lemma wr_n_append:
  assumes "length v \<le> length ys"
  shows "wr_n (xs @ ys) (length xs) v = Some (xs @ v @ drop (length v) ys)"
  using assms by (simp add: wr_n_def)

lemma bind_Some_iff: "Option.bind x f = Some y \<longleftrightarrow> (\<exists>a. x = Some a \<and> f a = Some y)"
  by (cases x) auto

section \<open>First match in an array\<close>

text \<open>
  The array scans of the code (\<^verbatim>\<open>for (i = 0; i < n; i++) if (P a[i]) return &a[i];\<close>) return the
  index of the first element that satisfies the test.
\<close>

primrec first_idx :: "('a \<Rightarrow> bool) \<Rightarrow> 'a list \<Rightarrow> nat option" where
  "first_idx P [] = None"
| "first_idx P (x # xs) = (if P x then Some 0 else map_option Suc (first_idx P xs))"

lemma first_idx_SomeD:
  "first_idx P xs = Some i \<Longrightarrow> i < length xs \<and> P (xs ! i) \<and> (\<forall>j<i. \<not> P (xs ! j))"
proof (induction xs arbitrary: i)
  case Nil
  then show ?case by simp
next
  case (Cons x xs)
  show ?case
  proof (cases "P x")
    case True
    with Cons.prems show ?thesis by simp
  next
    case False
    with Cons.prems obtain k where k: "first_idx P xs = Some k" "i = Suc k" by auto
    from Cons.IH [OF k(1)] k(2) False show ?thesis
      by (auto simp: less_Suc_eq_0_disj)
  qed
qed

lemma first_idx_None_iff: "first_idx P xs = None \<longleftrightarrow> (\<forall>x\<in>set xs. \<not> P x)"
  by (induction xs) auto

lemma first_idx_in_range: "first_idx P xs = Some i \<Longrightarrow> i < length xs"
  by (simp add: first_idx_SomeD)

lemma first_idx_append:
  "first_idx P (xs @ ys) =
     (case first_idx P xs of Some i \<Rightarrow> Some i | None \<Rightarrow> map_option (\<lambda>i. length xs + i) (first_idx P ys))"
  by (induction xs) (auto simp: option.map_comp comp_def option.map_ident_strong
      intro!: option.map_cong split: option.splits)

section \<open>Words\<close>

lemma unat_u8_le: "unat (b :: u8) \<le> 255"
  using unsigned_less [of b, where ?'a = nat] by simp

lemma unat_u16_less: "unat (b :: u16) < 65536"
  using unsigned_less [of b, where ?'a = nat] by simp

lemma unat_u32_less: "unat (b :: u32) < 4294967296"
  using unsigned_less [of b, where ?'a = nat] by simp

lemma unat_of_nat_byte [simp]: "n \<le> 255 \<Longrightarrow> unat (of_nat n :: u8) = n"
  by (simp add: unat_of_nat take_bit_eq_mod)

section \<open>Byte order\<close>

definition le16 :: "u16 \<Rightarrow> bytes" where
  "le16 w = [ucast w, ucast (drop_bit 8 w)]"

definition of_le16 :: "u8 \<Rightarrow> u8 \<Rightarrow> u16" where
  "of_le16 a b = ucast a OR push_bit 8 (ucast b)"

definition le32 :: "u32 \<Rightarrow> bytes" where
  "le32 w = [ucast w, ucast (drop_bit 8 w), ucast (drop_bit 16 w), ucast (drop_bit 24 w)]"

definition of_le32 :: "u8 \<Rightarrow> u8 \<Rightarrow> u8 \<Rightarrow> u8 \<Rightarrow> u32" where
  "of_le32 a b c d =
     ucast a OR push_bit 8 (ucast b) OR push_bit 16 (ucast c) OR push_bit 24 (ucast d)"

text \<open>Loads of two and four bytes from memory; \<^verbatim>\<open>memcpy(&x, p, 4)\<close> is \<open>rd32\<close>.\<close>

definition rd16 :: "bytes \<Rightarrow> nat \<Rightarrow> u16 option" where
  "rd16 m i = do { a \<leftarrow> rd m i; b \<leftarrow> rd m (i + 1); Some (of_le16 a b) }"

definition rd32 :: "bytes \<Rightarrow> nat \<Rightarrow> u32 option" where
  "rd32 m i = do {
     a \<leftarrow> rd m i; b \<leftarrow> rd m (i + 1); c \<leftarrow> rd m (i + 2); d \<leftarrow> rd m (i + 3);
     Some (of_le32 a b c d) }"

definition ntohs :: "u16 \<Rightarrow> u16" where
  "ntohs w = of_le16 (ucast (drop_bit 8 w)) (ucast w)"

definition ntohl :: "u32 \<Rightarrow> u32" where
  "ntohl w = of_le32 (ucast (drop_bit 24 w)) (ucast (drop_bit 16 w)) (ucast (drop_bit 8 w)) (ucast w)"

abbreviation (input) htons :: "u16 \<Rightarrow> u16" where "htons \<equiv> ntohs"
abbreviation (input) htonl :: "u32 \<Rightarrow> u32" where "htonl \<equiv> ntohl"

lemma length_le16 [simp]: "length (le16 w) = 2"
  by (simp add: le16_def)

lemma length_le32 [simp]: "length (le32 w) = 4"
  by (simp add: le32_def)

lemma of_le32_le32 [byte_order]:
  "of_le32 (ucast w) (ucast (drop_bit 8 w)) (ucast (drop_bit 16 w)) (ucast (drop_bit 24 w)) = w"
proof (rule bit_word_eqI)
  fix n
  assume "n < LENGTH(32)"
  then show "bit (of_le32 (ucast w) (ucast (drop_bit 8 w)) (ucast (drop_bit 16 w))
      (ucast (drop_bit 24 w))) n \<longleftrightarrow> bit w n"
    unfolding of_le32_def by (cases "n < 16"; cases "n < 24") (auto simp: bit_simps)
qed

lemma of_le16_le16 [byte_order]: "of_le16 (ucast w) (ucast (drop_bit 8 w)) = w"
  by (rule bit_word_eqI) (auto simp: of_le16_def bit_simps)

lemma byte0_of_le32 [simp]: "ucast (of_le32 a b c d) = a"
  by (rule bit_word_eqI) (auto simp: of_le32_def bit_simps)

lemma byte1_of_le32 [simp]: "ucast (drop_bit 8 (of_le32 a b c d)) = b"
  by (rule bit_word_eqI) (auto simp: of_le32_def bit_simps dest: bit_imp_le_length)

lemma byte2_of_le32 [simp]: "ucast (drop_bit 16 (of_le32 a b c d)) = c"
  by (rule bit_word_eqI) (auto simp: of_le32_def bit_simps dest: bit_imp_le_length)

lemma byte3_of_le32 [simp]: "ucast (drop_bit 24 (of_le32 a b c d)) = d"
  by (rule bit_word_eqI) (auto simp: of_le32_def bit_simps dest: bit_imp_le_length)

lemma byte0_of_le16 [simp]: "ucast (of_le16 a b) = a"
  by (rule bit_word_eqI) (auto simp: of_le16_def bit_simps)

lemma byte1_of_le16 [simp]: "ucast (drop_bit 8 (of_le16 a b)) = b"
  by (rule bit_word_eqI) (auto simp: of_le16_def bit_simps dest: bit_imp_le_length)

lemma le32_of_le32 [simp]: "le32 (of_le32 a b c d) = [a, b, c, d]"
  by (simp add: le32_def)

lemma le16_of_le16 [simp]: "le16 (of_le16 a b) = [a, b]"
  by (simp add: le16_def)

lemma ntohl_ntohl [simp]: "ntohl (ntohl w) = w"
  by (simp add: ntohl_def of_le32_le32)

lemma ntohs_ntohs [simp]: "ntohs (ntohs w) = w"
  by (simp add: ntohs_def of_le16_le16)

lemma le32_ntohl: "le32 (ntohl w) = rev (le32 w)"
  by (simp add: ntohl_def) (simp add: le32_def)

lemma ntohl_eq_iff [simp]: "ntohl a = ntohl b \<longleftrightarrow> a = b"
  by (metis ntohl_ntohl)

lemma ntohl_zero [simp]: "ntohl 0 = 0"
  by (simp add: ntohl_def of_le32_def)

lemma ntohl_eq_zero_iff [simp]: "ntohl a = 0 \<longleftrightarrow> a = 0"
  by (metis ntohl_ntohl ntohl_zero)

lemma le32_inject: "le32 a = le32 b \<longleftrightarrow> a = b"
proof
  assume "le32 a = le32 b"
  then have "of_le32 (ucast a) (ucast (drop_bit 8 a)) (ucast (drop_bit 16 a)) (ucast (drop_bit 24 a)) =
      of_le32 (ucast b) (ucast (drop_bit 8 b)) (ucast (drop_bit 16 b)) (ucast (drop_bit 24 b))"
    by (simp add: le32_def)
  then show "a = b" by (simp add: of_le32_le32)
qed simp

lemma rd32_le32 [byte_order]: "rd32 (xs @ le32 w @ ys) (length xs) = Some w"
proof -
  have "rd (xs @ le32 w @ ys) (length xs + k) = Some (le32 w ! k)" if "k < 4" for k
    using that by (simp add: rd_def nth_append)
  from this [of 0] this [of 1] this [of 2] this [of 3] show ?thesis
    by (simp add: rd32_def) (simp add: le32_def numeral_2_eq_2 numeral_3_eq_3 of_le32_le32)
qed

lemma rd16_le16 [byte_order]: "rd16 (xs @ le16 w @ ys) (length xs) = Some w"
proof -
  have "rd (xs @ le16 w @ ys) (length xs + k) = Some (le16 w ! k)" if "k < 2" for k
    using that by (simp add: rd_def nth_append)
  from this [of 0] this [of 1] show ?thesis
    by (simp add: rd16_def) (simp add: le16_def of_le16_le16)
qed

lemma rd32_Some_iff [mem_simps]: "(\<exists>v. rd32 m i = Some v) \<longleftrightarrow> i + 3 < length m"
  by (auto simp: rd32_def rd_def bind_Some_iff)

end
