(* ===== verification/Dhcp_Message.thy ===== *)
theory Dhcp_Message
  imports Wire_Prelude
begin

text \<open>
  The DHCP message of \<^verbatim>\<open>src/udhcp/packet.h\<close> and the protocol constants of
  \<^verbatim>\<open>src/udhcp/dhcpd.h\<close>.  A message is the C struct, field by field; \<open>msg_bytes\<close> is its
  548-byte image in memory, which is what \<^verbatim>\<open>read\<close>, \<^verbatim>\<open>write\<close>, the checksum and every pointer
  into the struct work on.  Fields of 16 and 32 bits hold the value a little-endian load yields,
  so a field in network byte order is read through \<^const>\<open>ntohl\<close> or \<^const>\<open>ntohs\<close>.
\<close>

section \<open>Constants\<close>

abbreviation (input) SERVER_PORT :: u16 where "SERVER_PORT \<equiv> 67"
abbreviation (input) CLIENT_PORT :: u16 where "CLIENT_PORT \<equiv> 68"
abbreviation (input) DHCP_MAGIC :: u32 where "DHCP_MAGIC \<equiv> 0x63825363"

abbreviation (input) DHCP_PADDING :: u8 where "DHCP_PADDING \<equiv> 0x00"
abbreviation (input) DHCP_SUBNET :: u8 where "DHCP_SUBNET \<equiv> 0x01"
abbreviation (input) DHCP_ROUTER :: u8 where "DHCP_ROUTER \<equiv> 0x03"
abbreviation (input) DHCP_HOST_NAME :: u8 where "DHCP_HOST_NAME \<equiv> 0x0c"
abbreviation (input) DHCP_REQUESTED_IP :: u8 where "DHCP_REQUESTED_IP \<equiv> 0x32"
abbreviation (input) DHCP_LEASE_TIME :: u8 where "DHCP_LEASE_TIME \<equiv> 0x33"
abbreviation (input) DHCP_OPTION_OVER :: u8 where "DHCP_OPTION_OVER \<equiv> 0x34"
abbreviation (input) DHCP_MESSAGE_TYPE :: u8 where "DHCP_MESSAGE_TYPE \<equiv> 0x35"
abbreviation (input) DHCP_SERVER_ID :: u8 where "DHCP_SERVER_ID \<equiv> 0x36"
abbreviation (input) DHCP_PARAM_REQ :: u8 where "DHCP_PARAM_REQ \<equiv> 0x37"
abbreviation (input) DHCP_VENDOR :: u8 where "DHCP_VENDOR \<equiv> 0x3c"
abbreviation (input) DHCP_CLIENT_ID :: u8 where "DHCP_CLIENT_ID \<equiv> 0x3d"
abbreviation (input) DHCP_END :: u8 where "DHCP_END \<equiv> 0xFF"

abbreviation (input) BOOTREQUEST :: u8 where "BOOTREQUEST \<equiv> 1"
abbreviation (input) BOOTREPLY :: u8 where "BOOTREPLY \<equiv> 2"
abbreviation (input) ETH_10MB :: u8 where "ETH_10MB \<equiv> 1"
abbreviation (input) ETH_10MB_LEN :: u8 where "ETH_10MB_LEN \<equiv> 6"

abbreviation (input) DHCPDISCOVER :: u8 where "DHCPDISCOVER \<equiv> 1"
abbreviation (input) DHCPOFFER :: u8 where "DHCPOFFER \<equiv> 2"
abbreviation (input) DHCPREQUEST :: u8 where "DHCPREQUEST \<equiv> 3"
abbreviation (input) DHCPDECLINE :: u8 where "DHCPDECLINE \<equiv> 4"
abbreviation (input) DHCPACK :: u8 where "DHCPACK \<equiv> 5"
abbreviation (input) DHCPNAK :: u8 where "DHCPNAK \<equiv> 6"
abbreviation (input) DHCPRELEASE :: u8 where "DHCPRELEASE \<equiv> 7"
abbreviation (input) DHCPINFORM :: u8 where "DHCPINFORM \<equiv> 8"

abbreviation (input) BROADCAST_FLAG :: u16 where "BROADCAST_FLAG \<equiv> 0x8000"
abbreviation (input) INADDR_BROADCAST :: u32 where "INADDR_BROADCAST \<equiv> 0xFFFFFFFF"
abbreviation (input) INADDR_ANY :: u32 where "INADDR_ANY \<equiv> 0"

definition MAC_BCAST_ADDR :: bytes where
  "MAC_BCAST_ADDR = replicate 6 0xFF"

section \<open>The message\<close>

record dhcpMessage =
  m_op :: u8
  m_htype :: u8
  m_hlen :: u8
  m_hops :: u8
  m_xid :: u32
  m_secs :: u16
  m_flags :: u16
  m_ciaddr :: u32
  m_yiaddr :: u32
  m_siaddr :: u32
  m_giaddr :: u32
  m_chaddr :: bytes
  m_sname :: bytes
  m_file :: bytes
  m_cookie :: u32
  m_options :: bytes

text \<open>The array bounds of the struct.\<close>

definition wf_msg :: "dhcpMessage \<Rightarrow> bool" where
  "wf_msg p \<longleftrightarrow> length (m_chaddr p) = 16 \<and> length (m_sname p) = 64 \<and>
     length (m_file p) = 128 \<and> length (m_options p) = 308"

definition msg_bytes :: "dhcpMessage \<Rightarrow> bytes" where
  "msg_bytes p =
     [m_op p, m_htype p, m_hlen p, m_hops p] @ le32 (m_xid p) @ le16 (m_secs p) @
     le16 (m_flags p) @ le32 (m_ciaddr p) @ le32 (m_yiaddr p) @ le32 (m_siaddr p) @
     le32 (m_giaddr p) @ m_chaddr p @ m_sname p @ m_file p @ le32 (m_cookie p) @ m_options p"

definition bytes_msg :: "bytes \<Rightarrow> dhcpMessage" where
  "bytes_msg b = \<lparr>
     m_op = b ! 0, m_htype = b ! 1, m_hlen = b ! 2, m_hops = b ! 3,
     m_xid = of_le32 (b ! 4) (b ! 5) (b ! 6) (b ! 7),
     m_secs = of_le16 (b ! 8) (b ! 9), m_flags = of_le16 (b ! 10) (b ! 11),
     m_ciaddr = of_le32 (b ! 12) (b ! 13) (b ! 14) (b ! 15),
     m_yiaddr = of_le32 (b ! 16) (b ! 17) (b ! 18) (b ! 19),
     m_siaddr = of_le32 (b ! 20) (b ! 21) (b ! 22) (b ! 23),
     m_giaddr = of_le32 (b ! 24) (b ! 25) (b ! 26) (b ! 27),
     m_chaddr = take 16 (drop 28 b), m_sname = take 64 (drop 44 b),
     m_file = take 128 (drop 108 b),
     m_cookie = of_le32 (b ! 236) (b ! 237) (b ! 238) (b ! 239),
     m_options = take 308 (drop 240 b) \<rparr>"

abbreviation (input) msg_size :: nat where "msg_size \<equiv> 548"

lemma length_msg_bytes [simp]: "wf_msg p \<Longrightarrow> length (msg_bytes p) = 548"
  by (simp add: wf_msg_def msg_bytes_def)

lemma drop_msg_bytes:
  assumes "wf_msg p"
  shows "drop 240 (msg_bytes p) = m_options p"
    and "drop 236 (msg_bytes p) = le32 (m_cookie p) @ m_options p"
    and "drop 108 (msg_bytes p) = m_file p @ le32 (m_cookie p) @ m_options p"
    and "drop 44 (msg_bytes p) = m_sname p @ m_file p @ le32 (m_cookie p) @ m_options p"
    and "drop 28 (msg_bytes p) = m_chaddr p @ m_sname p @ m_file p @ le32 (m_cookie p) @ m_options p"
  using assms by (auto simp: wf_msg_def msg_bytes_def le32_def le16_def)

lemma nth_msg_options:
  assumes "wf_msg p" "i < 308"
  shows "msg_bytes p ! (240 + i) = m_options p ! i"
proof -
  have "drop 240 (msg_bytes p) ! i = msg_bytes p ! (240 + i)"
    using assms by (intro nth_drop) simp
  then show ?thesis by (simp add: drop_msg_bytes [OF assms(1)])
qed

lemma rd_msg_options: "wf_msg p \<Longrightarrow> rd (msg_bytes p) (240 + i) = rd (m_options p) i"
  using nth_msg_options [of p i] by (auto simp: rd_def wf_msg_def [of p])

lemma msg_cookie_bytes:
  assumes "wf_msg p"
  shows "of_le32 (msg_bytes p ! 236) (msg_bytes p ! 237) (msg_bytes p ! 238) (msg_bytes p ! 239) = m_cookie p"
proof -
  have "msg_bytes p ! (236 + k) = (le32 (m_cookie p) @ m_options p) ! k" for k
    using nth_drop [of 236 "msg_bytes p" k] assms by (simp add: drop_msg_bytes [OF assms])
  from this [of 0] this [of 1] this [of 2] this [of 3] show ?thesis
    by (simp add: le32_def of_le32_le32)
qed

text \<open>The struct and its memory image determine each other.\<close>

lemma bytes_msg_bytes: "wf_msg p \<Longrightarrow> bytes_msg (msg_bytes p) = p"
proof -
  assume wf: "wf_msg p"
  have head: "msg_bytes p = [m_op p, m_htype p, m_hlen p, m_hops p] @ le32 (m_xid p) @ le16 (m_secs p) @
     le16 (m_flags p) @ le32 (m_ciaddr p) @ le32 (m_yiaddr p) @ le32 (m_siaddr p) @
     le32 (m_giaddr p) @ drop 28 (msg_bytes p)"
    by (simp add: drop_msg_bytes [OF wf]) (simp add: msg_bytes_def)
  have fields: "msg_bytes p ! 0 = m_op p" "msg_bytes p ! Suc 0 = m_htype p" "msg_bytes p ! 2 = m_hlen p"
    "msg_bytes p ! 3 = m_hops p"
    "of_le32 (msg_bytes p ! 4) (msg_bytes p ! 5) (msg_bytes p ! 6) (msg_bytes p ! 7) = m_xid p"
    "of_le16 (msg_bytes p ! 8) (msg_bytes p ! 9) = m_secs p"
    "of_le16 (msg_bytes p ! 10) (msg_bytes p ! 11) = m_flags p"
    "of_le32 (msg_bytes p ! 12) (msg_bytes p ! 13) (msg_bytes p ! 14) (msg_bytes p ! 15) = m_ciaddr p"
    "of_le32 (msg_bytes p ! 16) (msg_bytes p ! 17) (msg_bytes p ! 18) (msg_bytes p ! 19) = m_yiaddr p"
    "of_le32 (msg_bytes p ! 20) (msg_bytes p ! 21) (msg_bytes p ! 22) (msg_bytes p ! 23) = m_siaddr p"
    "of_le32 (msg_bytes p ! 24) (msg_bytes p ! 25) (msg_bytes p ! 26) (msg_bytes p ! 27) = m_giaddr p"
    by (subst head, simp add: le32_def le16_def of_le32_le32 of_le16_le16)+
  show ?thesis
    using wf by (simp add: bytes_msg_def fields msg_cookie_bytes [OF wf] drop_msg_bytes [OF wf] wf_msg_def)
qed

lemma wf_bytes_msg: "length b = 548 \<Longrightarrow> wf_msg (bytes_msg b)"
  by (simp add: wf_msg_def bytes_msg_def)

definition zero_msg :: dhcpMessage where
  "zero_msg = \<lparr> m_op = 0, m_htype = 0, m_hlen = 0, m_hops = 0, m_xid = 0, m_secs = 0, m_flags = 0,
     m_ciaddr = 0, m_yiaddr = 0, m_siaddr = 0, m_giaddr = 0, m_chaddr = replicate 16 0,
     m_sname = replicate 64 0, m_file = replicate 128 0, m_cookie = 0, m_options = replicate 308 0 \<rparr>"

lemma wf_zero_msg [simp]: "wf_msg zero_msg"
  by (simp add: wf_msg_def zero_msg_def)

lemma wf_msg_update [simp]:
  "wf_msg (p\<lparr>m_op := a\<rparr>) = wf_msg p" "wf_msg (p\<lparr>m_htype := a\<rparr>) = wf_msg p"
  "wf_msg (p\<lparr>m_hlen := a\<rparr>) = wf_msg p" "wf_msg (p\<lparr>m_xid := w\<rparr>) = wf_msg p"
  "wf_msg (p\<lparr>m_flags := h\<rparr>) = wf_msg p" "wf_msg (p\<lparr>m_ciaddr := w\<rparr>) = wf_msg p"
  "wf_msg (p\<lparr>m_yiaddr := w\<rparr>) = wf_msg p" "wf_msg (p\<lparr>m_siaddr := w\<rparr>) = wf_msg p"
  "wf_msg (p\<lparr>m_giaddr := w\<rparr>) = wf_msg p" "wf_msg (p\<lparr>m_cookie := w\<rparr>) = wf_msg p"
  by (simp_all add: wf_msg_def)

end
