(* ===== verification/Dhcp_Options.thy ===== *)
theory Dhcp_Options
  imports Dhcp_Message
begin

text \<open>
  \<^verbatim>\<open>src/udhcp/options.c\<close>: scanning and building the options area of a DHCP message, the table of
  supported options, and the sorted list of configured options.

  The scanner walks raw memory, so it works on the struct image \<^const>\<open>msg_bytes\<close>; a returned
  pointer is an offset into it.  The abstract view of an options area is a list of
  \<open>opt_item\<close>s; \<open>opts_are\<close> relates the 308 bytes to it, and the lemmas show that
  \<^verbatim>\<open>get_option\<close>, \<^verbatim>\<open>end_option\<close> and \<^verbatim>\<open>add_option_string\<close> refine list lookup and append.
\<close>

section \<open>The option table\<close>

record dhcp_option =
  o_name :: string
  o_flags :: u8
  o_code :: u8

abbreviation (input) TYPE_MASK :: u8 where "TYPE_MASK \<equiv> 0x0F"
abbreviation (input) OPTION_IP :: u8 where "OPTION_IP \<equiv> 1"
abbreviation (input) OPTION_IP_PAIR :: u8 where "OPTION_IP_PAIR \<equiv> 2"
abbreviation (input) OPTION_STRING :: u8 where "OPTION_STRING \<equiv> 3"
abbreviation (input) OPTION_BOOLEAN :: u8 where "OPTION_BOOLEAN \<equiv> 4"
abbreviation (input) OPTION_U8 :: u8 where "OPTION_U8 \<equiv> 5"
abbreviation (input) OPTION_U16 :: u8 where "OPTION_U16 \<equiv> 6"
abbreviation (input) OPTION_S16 :: u8 where "OPTION_S16 \<equiv> 7"
abbreviation (input) OPTION_U32 :: u8 where "OPTION_U32 \<equiv> 8"
abbreviation (input) OPTION_S32 :: u8 where "OPTION_S32 \<equiv> 9"
abbreviation (input) OPTION_REQ :: u8 where "OPTION_REQ \<equiv> 0x10"
abbreviation (input) OPTION_LIST :: u8 where "OPTION_LIST \<equiv> 0x20"

definition mk_option :: "string \<Rightarrow> u8 \<Rightarrow> u8 \<Rightarrow> dhcp_option" where
  "mk_option n f c = \<lparr> o_name = n, o_flags = f, o_code = c \<rparr>"

text \<open>The table, with the entry of code 0 that ends it.\<close>

definition options_table :: "dhcp_option list" where
  "options_table = [
     mk_option ''subnet'' (OPTION_IP OR OPTION_REQ) 0x01,
     mk_option ''timezone'' OPTION_S32 0x02,
     mk_option ''router'' (OPTION_IP OR OPTION_LIST OR OPTION_REQ) 0x03,
     mk_option ''timesvr'' (OPTION_IP OR OPTION_LIST) 0x04,
     mk_option ''namesvr'' (OPTION_IP OR OPTION_LIST) 0x05,
     mk_option ''dns'' (OPTION_IP OR OPTION_LIST OR OPTION_REQ) 0x06,
     mk_option ''logsvr'' (OPTION_IP OR OPTION_LIST) 0x07,
     mk_option ''cookiesvr'' (OPTION_IP OR OPTION_LIST) 0x08,
     mk_option ''lprsvr'' (OPTION_IP OR OPTION_LIST) 0x09,
     mk_option ''hostname'' (OPTION_STRING OR OPTION_REQ) 0x0c,
     mk_option ''bootsize'' OPTION_U16 0x0d,
     mk_option ''domain'' (OPTION_STRING OR OPTION_REQ) 0x0f,
     mk_option ''swapsvr'' OPTION_IP 0x10,
     mk_option ''rootpath'' OPTION_STRING 0x11,
     mk_option ''ipttl'' OPTION_U8 0x17,
     mk_option ''mtu'' OPTION_U16 0x1a,
     mk_option ''broadcast'' (OPTION_IP OR OPTION_REQ) 0x1c,
     mk_option ''ntpsrv'' (OPTION_IP OR OPTION_LIST) 0x2a,
     mk_option ''wins'' (OPTION_IP OR OPTION_LIST) 0x2c,
     mk_option ''requestip'' OPTION_IP 0x32,
     mk_option ''lease'' OPTION_U32 0x33,
     mk_option ''dhcptype'' OPTION_U8 0x35,
     mk_option ''serverid'' OPTION_IP 0x36,
     mk_option ''message'' OPTION_STRING 0x38,
     mk_option ''tftp'' OPTION_STRING 0x42,
     mk_option ''bootfile'' OPTION_STRING 0x43,
     mk_option '''' 0x00 0x00]"

text \<open>The loops over the table stop at the entry whose code is 0.\<close>

definition supported_options :: "dhcp_option list" where
  "supported_options = takeWhile (\<lambda>q. o_code q \<noteq> 0) options_table"

definition option_lengths :: "nat list" where
  "option_lengths = [0, 4, 8, 1, 1, 1, 2, 2, 4, 4]"

definition option_length :: "dhcp_option \<Rightarrow> nat option" where
  "option_length q = rd option_lengths (unat (o_flags q AND TYPE_MASK))"

section \<open>Scanning a received message\<close>

datatype opt_field = OPTION_FIELD | FILE_FIELD | SNAME_FIELD

primrec field_base :: "opt_field \<Rightarrow> nat" where
  "field_base OPTION_FIELD = 240"
| "field_base FILE_FIELD = 108"
| "field_base SNAME_FIELD = 44"

primrec field_len :: "opt_field \<Rightarrow> nat" where
  "field_len OPTION_FIELD = 308"
| "field_len FILE_FIELD = 128"
| "field_len SNAME_FIELD = 64"

primrec field_rank :: "opt_field \<Rightarrow> nat" where
  "field_rank OPTION_FIELD = 2"
| "field_rank FILE_FIELD = 1"
| "field_rank SNAME_FIELD = 0"

text \<open>
  The loop variables are the field \<open>fld\<close>, the overload flags \<open>over\<close> and the index \<open>i\<close>.  The
  step over an overload option reads \<^verbatim>\<open>optionptr[OPT_LEN]\<close>, the second byte of the field, as the
  source does.
\<close>

function get_option_loop :: "bytes \<Rightarrow> u8 \<Rightarrow> opt_field \<Rightarrow> u8 \<Rightarrow> nat \<Rightarrow> nat option option" where
  "get_option_loop m code fld over i =
     (let b = field_base fld; n = field_len fld in
      if n \<le> i then Some None
      else do {
        c \<leftarrow> rd m (b + i);
        if c = code then do {
          l \<leftarrow> rd m (b + i + 1);
          if n \<le> i + 1 + unat l then Some None else Some (Some (b + i + 2)) }
        else if c = DHCP_PADDING then get_option_loop m code fld over (i + 1)
        else if c = DHCP_OPTION_OVER then do {
          l \<leftarrow> rd m (b + i + 1);
          if n \<le> i + 1 + unat l then Some None
          else do {
            ov \<leftarrow> rd m (b + i + 3);
            l1 \<leftarrow> rd m (b + 1);
            get_option_loop m code fld ov (i + (unat l1 + 2)) } }
        else if c = DHCP_END then
          (if fld = OPTION_FIELD \<and> over AND 1 \<noteq> 0 then get_option_loop m code FILE_FIELD over 0
           else if fld = FILE_FIELD \<and> over AND 2 \<noteq> 0 then get_option_loop m code SNAME_FIELD over 0
           else Some None)
        else do {
          l \<leftarrow> rd m (b + i + 1);
          get_option_loop m code fld over (i + (unat l + 2)) } })"
  by pat_completeness auto
termination
  by (relation "measures [\<lambda>(m, code, fld, over, i). field_rank fld,
        \<lambda>(m, code, fld, over, i). field_len fld - i]") auto

declare get_option_loop.simps [simp del]

definition get_option :: "dhcpMessage \<Rightarrow> u8 \<Rightarrow> nat option option" where
  "get_option p code = get_option_loop (msg_bytes p) code OPTION_FIELD 0 0"

function get_option_length_loop :: "bytes \<Rightarrow> u8 \<Rightarrow> opt_field \<Rightarrow> u8 \<Rightarrow> nat \<Rightarrow> nat option" where
  "get_option_length_loop m code fld over i =
     (let b = field_base fld; n = field_len fld in
      if n \<le> i then Some 0
      else do {
        c \<leftarrow> rd m (b + i);
        if c = code then do {
          l \<leftarrow> rd m (b + i + 1);
          if n \<le> i + 1 + unat l then Some 0 else Some (unat l) }
        else if c = DHCP_PADDING then get_option_length_loop m code fld over (i + 1)
        else if c = DHCP_OPTION_OVER then do {
          l \<leftarrow> rd m (b + i + 1);
          if n \<le> i + 1 + unat l then Some 0
          else do {
            ov \<leftarrow> rd m (b + i + 3);
            l1 \<leftarrow> rd m (b + 1);
            get_option_length_loop m code fld ov (i + (unat l1 + 2)) } }
        else if c = DHCP_END then
          (if fld = OPTION_FIELD \<and> over AND 1 \<noteq> 0 then get_option_length_loop m code FILE_FIELD over 0
           else if fld = FILE_FIELD \<and> over AND 2 \<noteq> 0 then get_option_length_loop m code SNAME_FIELD over 0
           else Some 0)
        else do {
          l \<leftarrow> rd m (b + i + 1);
          get_option_length_loop m code fld over (i + (unat l + 2)) } })"
  by pat_completeness auto
termination
  by (relation "measures [\<lambda>(m, code, fld, over, i). field_rank fld,
        \<lambda>(m, code, fld, over, i). field_len fld - i]") auto

declare get_option_length_loop.simps [simp del]

definition get_option_length :: "dhcpMessage \<Rightarrow> u8 \<Rightarrow> nat option" where
  "get_option_length p code = get_option_length_loop (msg_bytes p) code OPTION_FIELD 0 0"

section \<open>Building the options of a message\<close>

text \<open>\<^verbatim>\<open>end_option\<close> has no bounds check: running off the 308 bytes is \<^term>\<open>None\<close>.\<close>

function end_option_loop :: "bytes \<Rightarrow> nat \<Rightarrow> nat option" where
  "end_option_loop opts i = do {
     c \<leftarrow> rd opts i;
     if c = DHCP_END then Some i
     else if c = DHCP_PADDING then end_option_loop opts (i + 1)
     else do { l \<leftarrow> rd opts (i + 1); end_option_loop opts (i + (unat l + 2)) } }"
  by pat_completeness auto
termination
  by (relation "measure (\<lambda>(opts, i). length opts - i)") (auto simp: mem_simps)

declare end_option_loop.simps [simp del]

definition end_option :: "bytes \<Rightarrow> nat option" where
  "end_option opts = end_option_loop opts 0"

text \<open>The result is the new options area and the return value.\<close>

definition add_option_string :: "bytes \<Rightarrow> bytes \<Rightarrow> (bytes \<times> nat) option" where
  "add_option_string opts s = do {
     e \<leftarrow> end_option opts;
     l \<leftarrow> rd s 1;
     if 308 \<le> e + unat l + 2 + 1 then Some (opts, 0)
     else do {
       d \<leftarrow> rd_n s 0 (unat l + 2);
       opts1 \<leftarrow> wr_n opts e d;
       opts2 \<leftarrow> wr opts1 (e + unat l + 2) DHCP_END;
       Some (opts2, unat l + 2) } }"

text \<open>The loop keeps the length of the last table entry with the given code.\<close>

definition simple_option_length :: "u8 \<Rightarrow> nat option" where
  "simple_option_length code =
     foldl (\<lambda>len q. if o_code q = code then option_length q else len) (Some 0) supported_options"

definition add_simple_option :: "bytes \<Rightarrow> u8 \<Rightarrow> u32 \<Rightarrow> (bytes \<times> nat) option" where
  "add_simple_option opts code data = do {
     len \<leftarrow> simple_option_length code;
     if len = 0 then Some (opts, 0)
     else if len = 1 \<or> len = 2 \<or> len = 4
     then add_option_string opts (code # of_nat len # take len (le32 data))
     else None }"

section \<open>The configured options\<close>

text \<open>
  \<^verbatim>\<open>struct option_set\<close> is a linked list of heap blocks, each holding code, length and data; the model
  is the list of blocks.  \<^verbatim>\<open>find_option\<close> takes the code as a signed \<^verbatim>\<open>char\<close>.
\<close>

fun find_option :: "bytes list \<Rightarrow> u8 \<Rightarrow> nat option" where
  "find_option [] code = None"
| "find_option (d # ds) code =
     (if uint (d ! 0) < sint code then map_option Suc (find_option ds code)
      else if uint (d ! 0) = sint code then Some 0 else None)"

fun insert_option :: "bytes list \<Rightarrow> bytes \<Rightarrow> bytes list" where
  "insert_option [] new = [new]"
| "insert_option (d # ds) new =
     (if d ! 0 < new ! 0 then d # insert_option ds new else new # d # ds)"

definition attach_option :: "bytes list \<Rightarrow> dhcp_option \<Rightarrow> bytes \<Rightarrow> nat \<Rightarrow> bytes list option" where
  "attach_option opt_list q buffer len =
     (case find_option opt_list (o_code q) of
        Some k \<Rightarrow>
          let d = opt_list ! k; l = d ! 1 in
          if o_flags q AND OPTION_LIST \<noteq> 0 \<and> unat l + len \<le> 255
          then do {
            b \<leftarrow> rd_n buffer 0 len;
            Some (opt_list[k := (take (unat l + 2) d @ b)[1 := l + of_nat len]]) }
          else Some opt_list
      | None \<Rightarrow> do {
          b \<leftarrow> rd_n buffer 0 len;
          Some (insert_option opt_list (o_code q # of_nat len # b)) })"

section \<open>The abstract view of an options area\<close>

datatype opt_item = Pad | Opt u8 bytes

fun enc_item :: "opt_item \<Rightarrow> bytes" where
  "enc_item Pad = [DHCP_PADDING]"
| "enc_item (Opt c d) = c # of_nat (length d) # d"

fun wf_item :: "opt_item \<Rightarrow> bool" where
  "wf_item Pad = True"
| "wf_item (Opt c d) = (c \<noteq> DHCP_PADDING \<and> c \<noteq> DHCP_END \<and> length d \<le> 255)"

definition enc_items :: "opt_item list \<Rightarrow> bytes" where
  "enc_items ts = concat (map enc_item ts)"

definition opts_are :: "bytes \<Rightarrow> opt_item list \<Rightarrow> bool" where
  "opts_are opts ts \<longleftrightarrow> length opts = 308 \<and> list_all wf_item ts \<and>
     (\<exists>rest. opts = enc_items ts @ DHCP_END # rest)"

text \<open>Lookup: the offset of the data of the first item with the code, and that data.\<close>

fun find_item :: "opt_item list \<Rightarrow> u8 \<Rightarrow> (nat \<times> bytes) option" where
  "find_item [] code = None"
| "find_item (Pad # ts) code = map_option (apfst Suc) (find_item ts code)"
| "find_item (Opt c d # ts) code =
     (if c = code then Some (2, d) else map_option (apfst (\<lambda>k. length d + 2 + k)) (find_item ts code))"

text \<open>Append an item when it still leaves room for the end marker, as the fit test does.\<close>

definition push_item :: "opt_item list \<Rightarrow> opt_item \<Rightarrow> opt_item list" where
  "push_item ts t = (if 308 \<le> length (enc_items ts) + length (enc_item t) + 1 then ts else ts @ [t])"

definition no_overload :: "opt_item list \<Rightarrow> bool" where
  "no_overload ts \<longleftrightarrow> (\<forall>d. Opt DHCP_OPTION_OVER d \<notin> set ts)"

lemma enc_items_simps [simp]:
  "enc_items [] = []" "enc_items (t # ts) = enc_item t @ enc_items ts"
  "enc_items (xs @ ys) = enc_items xs @ enc_items ys"
  by (simp_all add: enc_items_def)

lemma find_item_append:
  "find_item (xs @ ys) code =
     (case find_item xs code of
        Some r \<Rightarrow> Some r
      | None \<Rightarrow> map_option (apfst (\<lambda>k. length (enc_items xs) + k)) (find_item ys code))"
  by (induction xs code rule: find_item.induct)
    (auto simp: option.map_comp comp_def apfst_def map_prod_def split_beta option.map_ident_strong
      intro!: option.map_cong split: option.splits)

subsection \<open>Finding the end and appending\<close>

lemma end_option_loop_items:
  assumes "list_all wf_item ts"
  shows "end_option_loop (pre @ enc_items ts @ DHCP_END # rest) (length pre) =
    Some (length pre + length (enc_items ts))"
  using assms
proof (induction ts arbitrary: pre)
  case Nil
  show ?case by (subst end_option_loop.simps) simp
next
  case (Cons t ts)
  show ?case
  proof (cases t)
    case Pad
    with Cons.IH [of "pre @ [DHCP_PADDING]"] Cons.prems show ?thesis
      by (subst end_option_loop.simps) simp
  next
    case (Opt c d)
    with Cons.IH [of "pre @ enc_item t"] Cons.prems show ?thesis
      by (subst end_option_loop.simps) (simp add: add.assoc)
  qed
qed

lemma end_option_items: "opts_are opts ts \<Longrightarrow> end_option opts = Some (length (enc_items ts))"
  using end_option_loop_items [of ts "[]"] by (auto simp: opts_are_def end_option_def)

lemma add_option_string_items:
  assumes opts: "opts_are opts ts" and wf: "wf_item (Opt c d)"
  shows "\<exists>opts'. add_option_string opts (c # of_nat (length d) # d @ junk) =
      Some (opts', if push_item ts (Opt c d) = ts then 0 else length d + 2) \<and>
    opts_are opts' (push_item ts (Opt c d))"
proof (cases "308 \<le> length (enc_items ts) + length d + 2 + 1")
  case True
  with opts wf show ?thesis
    by (auto simp: add_option_string_def end_option_items rd_def push_item_def)
next
  case False
  obtain rest where rest: "opts = enc_items ts @ DHCP_END # rest" "length opts = 308"
    using opts by (auto simp: opts_are_def)
  define s where "s = c # of_nat (length d) # d"
  have len: "length (s @ [DHCP_END]) \<le> length (DHCP_END # rest)"
    using rest False by (simp add: s_def)
  have "wr_n opts (length (enc_items ts)) s = Some (enc_items ts @ s @ drop (length s) (DHCP_END # rest))"
    unfolding rest using len by (intro wr_n_append) simp
  moreover obtain x where "drop (length s) (DHCP_END # rest) = x # drop (Suc (length s)) (DHCP_END # rest)"
    using len by (metis Cons_nth_drop_Suc length_append_singleton Suc_le_lessD)
  moreover have "rd_n (c # of_nat (length d) # d @ junk) 0 (length d + 2) = Some s"
    by (simp add: rd_n_def s_def)
  ultimately have "add_option_string opts (c # of_nat (length d) # d @ junk) =
      Some (enc_items ts @ s @ DHCP_END # drop (Suc (length s)) (DHCP_END # rest), length d + 2)"
    using opts wf False rest
    by (simp add: add_option_string_def end_option_items rd_def wr_def s_def list_update_append)
  with opts wf False rest show ?thesis
    by (auto simp: push_item_def opts_are_def s_def)
qed

subsection \<open>Looking an option up\<close>

lemma get_option_loop_items:
  assumes "list_all wf_item ts" "no_overload ts" "code \<noteq> DHCP_PADDING" "code \<noteq> DHCP_END"
    and "length pre = 240 + i" "length (pre @ enc_items ts @ DHCP_END # rest) = 548"
  shows "get_option_loop (pre @ enc_items ts @ DHCP_END # rest) code OPTION_FIELD 0 i =
    Some (map_option (\<lambda>x. 240 + i + fst x) (find_item ts code))"
  using assms
proof (induction ts arbitrary: pre i)
  case Nil
  then have "rd (pre @ DHCP_END # rest) (240 + i) = Some DHCP_END"
    by (metis rd_append_hit)
  with Nil show ?case
    by (subst get_option_loop.simps) (simp add: Let_def)
next
  case (Cons t ts)
  show ?case
  proof (cases t)
    case Pad
    let ?m = "pre @ enc_items (t # ts) @ DHCP_END # rest"
    have "rd ?m (240 + i) = Some DHCP_PADDING"
      unfolding Cons.prems(5) [symmetric] Pad by simp
    with Cons.IH [of "pre @ [DHCP_PADDING]" "Suc i"] Cons.prems Pad show ?thesis
      by (subst get_option_loop.simps)
        (auto simp: Let_def no_overload_def option.map_comp comp_def apfst_def map_prod_def split_beta
          add.assoc)
  next
    case (Opt c d)
    let ?m = "pre @ enc_items (t # ts) @ DHCP_END # rest"
    have code: "rd ?m (240 + i) = Some c"
      unfolding Cons.prems(5) [symmetric] Opt by simp
    have "rd ?m (Suc (length pre)) = Some (of_nat (length d))"
      unfolding Opt by simp
    then have len: "rd ?m (Suc (240 + i)) = Some (of_nat (length d))"
      by (simp only: Cons.prems(5))
    have over: "c \<noteq> DHCP_OPTION_OVER" and room: "i + 1 + length d < 308" "length d \<le> 255"
      using Cons.prems by (auto simp: Opt no_overload_def)
    show ?thesis
    proof (cases "c = code")
      case True
      with code len room Cons.prems show ?thesis
        by (subst get_option_loop.simps) (simp add: Let_def Opt)
    next
      case False
      have IH: "get_option_loop ?m code OPTION_FIELD 0 (i + (length d + 2)) =
          Some (map_option (\<lambda>x. 240 + (i + (length d + 2)) + fst x) (find_item ts code))"
        using Cons.IH [of "pre @ enc_item t" "i + (length d + 2)"] Cons.prems
        by (simp add: Opt no_overload_def)
      have "get_option_loop ?m code OPTION_FIELD 0 i =
          get_option_loop ?m code OPTION_FIELD 0 (i + (length d + 2))"
        using code len over room False Cons.prems
        by (subst get_option_loop.simps) (simp add: Let_def Opt)
      with IH False show ?thesis
        by (simp add: Opt option.map_comp comp_def apfst_def map_prod_def split_beta add.assoc)
    qed
  qed
qed

lemma find_item_data:
  "find_item ts code = Some (k, d) \<Longrightarrow>
     \<exists>xs ys. ts = xs @ Opt code d # ys \<and> k = length (enc_items xs) + 2"
proof (induction ts code arbitrary: k rule: find_item.induct)
  case (2 ts code)
  then obtain j where j: "find_item ts code = Some (j, d)" "k = Suc j" by auto
  from "2.IH" [OF j(1)] obtain xs ys where "ts = xs @ Opt code d # ys" "j = length (enc_items xs) + 2"
    by blast
  with j show ?case by (intro exI [of _ "Pad # xs"] exI [of _ ys]) auto
next
  case (3 c e ts code)
  show ?case
  proof (cases "c = code")
    case True
    with "3.prems" show ?thesis by (intro exI [of _ "[]"] exI [of _ ts]) auto
  next
    case False
    with "3.prems" obtain j where j: "find_item ts code = Some (j, d)" "k = length e + 2 + j" by auto
    from "3.IH" [OF False j(1)] obtain xs ys where
      "ts = xs @ Opt code d # ys" "j = length (enc_items xs) + 2" by blast
    with j show ?thesis by (intro exI [of _ "Opt c e # xs"] exI [of _ ys]) auto
  qed
qed simp

lemma get_option_items:
  assumes "wf_msg p" "opts_are (m_options p) ts" "no_overload ts"
    and "code \<noteq> DHCP_PADDING" "code \<noteq> DHCP_END"
  shows "get_option p code = Some (map_option (\<lambda>x. 240 + fst x) (find_item ts code))"
proof -
  obtain rest where rest: "m_options p = enc_items ts @ DHCP_END # rest" "list_all wf_item ts"
    using assms(2) by (auto simp: opts_are_def)
  have m: "msg_bytes p = take 240 (msg_bytes p) @ enc_items ts @ DHCP_END # rest"
    using drop_msg_bytes(1) [OF assms(1)] rest by (metis append_take_drop_id)
  have "length (take 240 (msg_bytes p)) = 240 + 0" using assms(1) by simp
  from get_option_loop_items [OF rest(2) assms(3-5) this] m length_msg_bytes [OF assms(1)]
  show ?thesis unfolding get_option_def by (metis (no_types, lifting) add.right_neutral option.map_cong)
qed

lemma rd_n_found_item:
  assumes "wf_msg p" "opts_are (m_options p) ts" "find_item ts code = Some (k, d)"
  shows "rd_n (msg_bytes p) (240 + k) (length d) = Some d"
    and "rd_n (msg_bytes p) (240 + k - 2) (length d + 2) = Some (code # of_nat (length d) # d)"
proof -
  obtain xs ys where ts: "ts = xs @ Opt code d # ys" "k = length (enc_items xs) + 2"
    using find_item_data [OF assms(3)] by blast
  obtain rest where rest: "m_options p = enc_items ts @ DHCP_END # rest"
    using assms(2) by (auto simp: opts_are_def)
  have "drop (240 + length (enc_items xs)) (msg_bytes p) = drop (length (enc_items xs)) (m_options p)"
    using drop_msg_bytes(1) [OF assms(1)] by (metis add.commute drop_drop)
  then have dr: "drop (240 + length (enc_items xs)) (msg_bytes p) =
      code # of_nat (length d) # d @ enc_items ys @ DHCP_END # rest"
    by (simp add: rest ts)
  have "drop (240 + k) (msg_bytes p) = drop 2 (drop (240 + length (enc_items xs)) (msg_bytes p))"
    by (simp add: ts add.commute)
  then have dr2: "drop (240 + k) (msg_bytes p) = d @ enc_items ys @ DHCP_END # rest"
    unfolding dr by simp
  have "length (drop (240 + k) (msg_bytes p)) = 548 - (240 + k)"
    using assms(1) by simp
  then have "240 + k + length d \<le> 548" unfolding dr2 by simp
  with assms(1) dr dr2 ts(2) show
    "rd_n (msg_bytes p) (240 + k) (length d) = Some d"
    "rd_n (msg_bytes p) (240 + k - 2) (length d + 2) = Some (code # of_nat (length d) # d)"
    by (simp_all add: rd_n_def)
qed

text \<open>An induction for the scan: later positions of the field, or an earlier-ranked field.\<close>

lemma scan_induct:
  assumes step: "\<And>fld over i.
      (\<And>over' i'. i < i' \<Longrightarrow> i < field_len fld \<Longrightarrow> P fld over' i') \<Longrightarrow>
      (\<And>f'. field_rank f' < field_rank fld \<Longrightarrow> P f' over 0) \<Longrightarrow> P fld over i"
  shows "P fld (over :: u8) i"
proof -
  have "\<forall>over. P (fst x) over (snd x)" for x
  proof (induction x rule: wf_induct_rule
      [OF wf_measures [of "[\<lambda>(f, i). field_rank f, \<lambda>(f, i). field_len f - i]"]])
    case (1 x)
    obtain f i where x: "x = (f, i)" by fastforce
    have "P f ov i" for ov
    proof (rule step)
      fix over' i'
      assume "i < i'" "i < field_len f"
      then show "P f over' i'" using "1.IH" [of "(f, i')"] x by auto
    next
      fix f'
      assume "field_rank f' < field_rank f"
      then show "P f' ov 0" using "1.IH" [of "(f', 0)"] x by auto
    qed
    with x show ?case by simp
  qed
  from this [of "(fld, i)"] show ?thesis by simp
qed

text \<open>Every pointer \<^verbatim>\<open>get_option\<close> returns has its whole value inside the field it lies in.\<close>

lemma get_option_loop_in_field:
  "get_option_loop m code fld over i = Some (Some off) \<Longrightarrow>
     \<exists>f l. field_base f + 2 \<le> off \<and> rd m (off - 2) = Some code \<and> rd m (off - 1) = Some l \<and>
       off + unat l \<le> field_base f + field_len f"
proof (induction fld over i rule: scan_induct)
  case (1 fld over i)
  show ?case
  proof (cases "rd m (field_base fld + i) = Some code \<and> i < field_len fld")
    case True
    then have c: "rd m (field_base fld + i) = Some code" and i: "i < field_len fld" by auto
    from "1.prems" c i obtain l where l: "rd m (field_base fld + i + 1) = Some l"
      "\<not> field_len fld \<le> i + 1 + unat l" "off = field_base fld + i + 2"
      by (subst (asm) get_option_loop.simps)
        (auto simp: Let_def bind_Some_iff split: if_splits)
    then show ?thesis
      using c by (intro exI [of _ fld] exI [of _ l]) (auto simp: numeral_2_eq_2)
  next
    case False
    with "1.prems" consider
        i' over' where "i < field_len fld" "i < i'" "get_option_loop m code fld over' i' = Some (Some off)"
      | f' where "field_rank f' < field_rank fld" "get_option_loop m code f' over 0 = Some (Some off)"
      by (subst (asm) get_option_loop.simps)
        (fastforce simp: Let_def bind_Some_iff split: if_splits)
    then show ?thesis using "1.IH" by cases blast+
  qed
qed

lemma get_option_length_loop_eq:
  "get_option_length_loop m code fld over i =
     Option.bind (get_option_loop m code fld over i)
       (\<lambda>r. case r of None \<Rightarrow> Some 0 | Some off \<Rightarrow> map_option unat (rd m (off - 1)))"
proof (induction fld over i rule: scan_induct)
  case (1 fld over i)
  then show ?case
    by (subst get_option_length_loop.simps, subst get_option_loop.simps)
      (auto simp: Let_def intro!: Option.bind_cong split: if_splits)
qed

section \<open>Messages as option containers\<close>

text \<open>
  The senders call \<^verbatim>\<open>add_option_string(packet.options, s)\<close> and
  \<^verbatim>\<open>add_simple_option(packet.options, code, data)\<close> on a message they own; \<open>option_value\<close> reads the
  bytes a pointer returned by \<^verbatim>\<open>get_option\<close> designates.
\<close>

definition msg_add :: "dhcpMessage \<Rightarrow> bytes \<Rightarrow> dhcpMessage option" where
  "msg_add p s = do { (opts, r) \<leftarrow> add_option_string (m_options p) s; Some (p\<lparr>m_options := opts\<rparr>) }"

definition msg_add_simple :: "dhcpMessage \<Rightarrow> u8 \<Rightarrow> u32 \<Rightarrow> dhcpMessage option" where
  "msg_add_simple p code v =
     do { (opts, r) \<leftarrow> add_simple_option (m_options p) code v; Some (p\<lparr>m_options := opts\<rparr>) }"

definition option_value :: "dhcpMessage \<Rightarrow> u8 \<Rightarrow> bytes option option" where
  "option_value p code = do {
     r \<leftarrow> get_option p code;
     case r of
       None \<Rightarrow> Some None
     | Some off \<Rightarrow> do {
         l \<leftarrow> rd (msg_bytes p) (off - 1);
         d \<leftarrow> rd_n (msg_bytes p) off (unat l);
         Some (Some d) } }"

definition msg_items :: "dhcpMessage \<Rightarrow> opt_item list \<Rightarrow> bool" where
  "msg_items p ts \<longleftrightarrow> wf_msg p \<and> opts_are (m_options p) ts"

text \<open>Appending a run of blobs, as the loop over the configured options does.\<close>

fun add_all :: "('p \<Rightarrow> bytes \<Rightarrow> 'p option) \<Rightarrow> 'p \<Rightarrow> bytes list \<Rightarrow> 'p option" where
  "add_all add p [] = Some p"
| "add_all add p (s # ss) = do { p' \<leftarrow> add p s; add_all add p' ss }"

definition blob_ok :: "bytes \<Rightarrow> bool" where
  "blob_ok s \<longleftrightarrow> 2 \<le> length s \<and> unat (s ! 1) + 2 \<le> length s \<and> s ! 0 \<noteq> DHCP_PADDING \<and> s ! 0 \<noteq> DHCP_END"

definition blob_item :: "bytes \<Rightarrow> opt_item" where
  "blob_item s = Opt (s ! 0) (take (unat (s ! 1)) (drop 2 s))"

lemma wf_blob_item: "blob_ok s \<Longrightarrow> wf_item (blob_item s)"
proof -
  assume "blob_ok s"
  moreover have "unat (s ! 1) \<le> 255" by (rule unat_u8_le)
  ultimately show ?thesis by (auto simp: blob_ok_def blob_item_def)
qed

lemma blob_split:
  assumes "blob_ok s"
  shows "s = s ! 0 # of_nat (length (take (unat (s ! 1)) (drop 2 s))) #
    take (unat (s ! 1)) (drop 2 s) @ drop (unat (s ! 1)) (drop 2 s)"
proof -
  from assms obtain a b r where s: "s = a # b # r"
    unfolding blob_ok_def by (metis (no_types) Suc_le_length_iff numeral_2_eq_2)
  with assms show ?thesis by (simp add: blob_ok_def min_absorb2)
qed

locale option_packet =
  fixes repr :: "'p \<Rightarrow> opt_item list \<Rightarrow> bool"
    and add :: "'p \<Rightarrow> bytes \<Rightarrow> 'p option"
    and lookup :: "'p \<Rightarrow> u8 \<Rightarrow> bytes option option"
  assumes add_law: "repr p ts \<Longrightarrow> blob_ok s \<Longrightarrow>
      \<exists>p'. add p s = Some p' \<and> repr p' (push_item ts (blob_item s))"
    and lookup_law: "repr p ts \<Longrightarrow> no_overload ts \<Longrightarrow> code \<noteq> DHCP_PADDING \<Longrightarrow> code \<noteq> DHCP_END \<Longrightarrow>
      lookup p code = Some (map_option snd (find_item ts code))"
begin

lemma add_all_law:
  "repr p ts \<Longrightarrow> list_all blob_ok ss \<Longrightarrow>
     \<exists>p'. add_all add p ss = Some p' \<and> repr p' (foldl push_item ts (map blob_item ss))"
proof (induction ss arbitrary: p ts)
  case Nil
  then show ?case by simp
next
  case (Cons s ss)
  then obtain p' where "add p s = Some p'" "repr p' (push_item ts (blob_item s))"
    using add_law by fastforce
  with Cons.IH [of p' "push_item ts (blob_item s)"] Cons.prems show ?case by simp
qed

text \<open>Adding options never changes the value of an option that is already there.\<close>

lemma find_item_push:
  "find_item ts code = Some r \<Longrightarrow> find_item (push_item ts t) code = Some r"
  by (simp add: push_item_def find_item_append)

lemma find_item_pushes:
  "find_item ts code = Some r \<Longrightarrow> find_item (foldl push_item ts us) code = Some r"
  by (induction us arbitrary: ts) (auto simp: find_item_push)

lemma no_overload_push:
  "no_overload ts \<Longrightarrow> no_overload [t] \<Longrightarrow> no_overload (push_item ts t)"
  by (auto simp: push_item_def no_overload_def)

lemma no_overload_pushes:
  "no_overload ts \<Longrightarrow> no_overload us \<Longrightarrow> no_overload (foldl push_item ts us)"
  by (induction us arbitrary: ts) (auto simp: no_overload_push no_overload_def push_item_def)

lemma lookup_add_all:
  assumes "repr p ts" "no_overload ts" "list_all blob_ok ss" "no_overload (map blob_item ss)"
    and "find_item ts code = Some (k, d)" "code \<noteq> DHCP_PADDING" "code \<noteq> DHCP_END"
    and "add_all add p ss = Some p'"
  shows "lookup p' code = Some (Some d)"
proof -
  from add_all_law [OF assms(1,3)] assms(8)
  have "repr p' (foldl push_item ts (map blob_item ss))" by simp
  from lookup_law [OF this no_overload_pushes [OF assms(2,4)] assms(6,7)]
  show ?thesis by (simp add: find_item_pushes [OF assms(5)])
qed

end

interpretation dhcp_msg: option_packet msg_items msg_add option_value
proof
  fix p ts s
  assume p: "msg_items p ts" and s: "blob_ok s"
  define d junk where "d = take (unat (s ! 1)) (drop 2 s)" and "junk = drop (unat (s ! 1)) (drop 2 s)"
  have wf: "wf_item (Opt (s ! 0) d)" using wf_blob_item [OF s] by (simp add: blob_item_def d_def)
  have eq: "s = s ! 0 # of_nat (length d) # d @ junk"
    unfolding d_def junk_def by (rule blob_split [OF s])
  obtain opts' where "add_option_string (m_options p) s =
      Some (opts', if push_item ts (Opt (s ! 0) d) = ts then 0 else length d + 2)"
    "opts_are opts' (push_item ts (Opt (s ! 0) d))"
    using add_option_string_items [of "m_options p" ts "s ! 0" d junk] p wf
    unfolding eq [symmetric] by (auto simp: msg_items_def)
  then show "\<exists>p'. msg_add p s = Some p' \<and> msg_items p' (push_item ts (blob_item s))"
    using p by (auto simp: msg_add_def msg_items_def wf_msg_def opts_are_def blob_item_def d_def)
next
  fix p ts code
  assume p: "msg_items p ts" and c: "no_overload ts" "code \<noteq> DHCP_PADDING" "code \<noteq> DHCP_END"
  from p have wf: "wf_msg p" "opts_are (m_options p) ts" by (auto simp: msg_items_def)
  show "option_value p code = Some (map_option snd (find_item ts code))"
  proof (cases "find_item ts code")
    case None
    with get_option_items [OF wf c] show ?thesis by (simp add: option_value_def)
  next
    case (Some x)
    then obtain k d where f: "find_item ts code = Some (k, d)" by (cases x) auto
    obtain xs ys where ts: "ts = xs @ Opt code d # ys" "k = length (enc_items xs) + 2"
      using find_item_data [OF f] by blast
    have "wf_item (Opt code d)" using wf(2) by (simp add: opts_are_def ts)
    then have d: "length d \<le> 255" by simp
    note r = rd_n_found_item [OF wf f]
    have "rd (msg_bytes p) (240 + k - 1) = Some (of_nat (length d))"
    proof -
      have le: "240 + k - 2 + (length d + 2) \<le> length (msg_bytes p)"
        and eq: "take (length d + 2) (drop (240 + k - 2) (msg_bytes p)) = code # of_nat (length d) # d"
        using r(2) by (auto simp: mem_simps)
      have "take (length d + 2) (drop (240 + k - 2) (msg_bytes p)) ! 1 = msg_bytes p ! (240 + k - 2 + 1)"
        using le by simp
      with eq le ts(2) show ?thesis by (simp add: rd_def)
    qed
    with get_option_items [OF wf c] f r d show ?thesis by (simp add: option_value_def)
  qed
qed

lemma simple_option_lengths:
  "simple_option_length DHCP_MESSAGE_TYPE = Some 1" "simple_option_length DHCP_SERVER_ID = Some 4"
  "simple_option_length DHCP_LEASE_TIME = Some 4" "simple_option_length DHCP_REQUESTED_IP = Some 4"
  by (simp_all add: simple_option_length_def supported_options_def options_table_def mk_option_def
      option_length_def option_lengths_def rd_def)

lemma msg_add_simple_eq:
  assumes "simple_option_length code = Some n" "n = 1 \<or> n = 2 \<or> n = 4"
  shows "msg_add_simple p code v = msg_add p (code # of_nat n # take n (le32 v))"
  using assms by (auto simp: msg_add_simple_def add_simple_option_def msg_add_def)

section \<open>The configured options stay sorted and complete\<close>

text \<open>
  \<open>conf_ok\<close> is the invariant of the option list: strictly sorted by code, every block exactly as
  long as its length byte says, and every code one of the table (all below 128, where the signed
  \<^verbatim>\<open>char\<close> of \<^verbatim>\<open>find_option\<close> is harmless).  \<open>conf_data\<close> is the abstract map.
\<close>

definition conf_ok :: "bytes list \<Rightarrow> bool" where
  "conf_ok ds \<longleftrightarrow> sorted_wrt (\<lambda>a b. a ! 0 < b ! 0) ds \<and>
     (\<forall>d\<in>set ds. 2 \<le> length d \<and> length d = unat (d ! 1) + 2 \<and> 0 < d ! 0 \<and> d ! 0 < 128)"

definition conf_data :: "bytes list \<Rightarrow> u8 \<Rightarrow> bytes option" where
  "conf_data ds c = map_option (drop 2) (find (\<lambda>d. d ! 0 = c) ds)"

lemma sint_small: "(c::u8) < 128 \<Longrightarrow> sint c = uint c"
  unfolding sint_uint by (rule signed_take_bit_int_eq_self) (auto simp: word_less_def intro: order_trans [OF _ uint_ge_0])

lemma find_option_first:
  assumes "conf_ok ds" "c < 128"
  shows "find_option ds c = first_idx (\<lambda>d. d ! 0 = c) ds"
  using assms
proof (induction ds)
  case (Cons d ds)
  have ok: "conf_ok ds" using Cons.prems by (auto simp: conf_ok_def)
  have later: "first_idx (\<lambda>d. d ! 0 = c) ds = None" if "c \<le> d ! 0"
    using Cons.prems that by (auto simp: conf_ok_def first_idx_None_iff)
  have cmp: "(uint (d ! 0) < sint c) = (d ! 0 < c)" "(uint (d ! 0) = sint c) = (d ! 0 = c)"
    using Cons.prems(2) by (simp_all add: sint_small word_less_def word_uint_eq_iff)
  show ?case
    using Cons.IH [OF ok Cons.prems(2)] later
    unfolding find_option.simps cmp by (cases "d ! 0 < c"; cases "d ! 0 = c") auto
qed simp

lemma set_insert_option: "set (insert_option ds new) = insert new (set ds)"
  by (induction ds new rule: insert_option.induct) auto

lemma sorted_insert_option:
  assumes "sorted_wrt (\<lambda>a b. a ! 0 < b ! 0) ds" "\<forall>d\<in>set ds. d ! 0 \<noteq> new ! 0"
  shows "sorted_wrt (\<lambda>a b. (a ! 0 :: u8) < b ! 0) (insert_option ds new)"
  using assms
  by (induction ds new rule: insert_option.induct) (auto simp: set_insert_option not_less dest: order_le_neq_trans less_trans)

lemma find_insert_option:
  assumes "\<forall>d\<in>set ds. d ! 0 \<noteq> new ! 0"
  shows "find (\<lambda>d. d ! 0 = c) (insert_option ds new) =
    (if new ! 0 = c then Some new else find (\<lambda>d. d ! 0 = c) ds)"
  using assms by (induction ds new rule: insert_option.induct) auto

lemma find_first_idx: "find P xs = map_option ((!) xs) (first_idx P xs)"
  by (induction xs) (auto simp: option.map_comp comp_def)

lemma find_list_update_key:
  assumes "first_idx (\<lambda>d. d ! 0 = (k::u8)) ds = Some i" "new ! 0 = k"
  shows "find (\<lambda>d. d ! 0 = c) (ds[i := new]) = (if c = k then Some new else find (\<lambda>d. d ! 0 = c) ds)"
  using assms
  by (induction ds arbitrary: i) (auto split: if_splits)

lemma sorted_wrt_update_key:
  assumes "sorted_wrt (\<lambda>a b. (a ! 0 :: u8) < b ! 0) ds" "i < length ds" "new ! 0 = ds ! i ! 0"
  shows "sorted_wrt (\<lambda>a b. a ! 0 < b ! 0) (ds[i := new])"
  using assms by (auto simp: sorted_wrt_iff_nth_less nth_list_update)

lemma attach_option_spec:
  assumes ok: "conf_ok ds" and code: "0 < o_code q" "o_code q < 128"
    and len: "len \<le> length buffer" "len \<le> 255"
  shows "\<exists>ds'. attach_option ds q buffer len = Some ds' \<and> conf_ok ds' \<and>
    (\<forall>c. conf_data ds' c =
       (if c \<noteq> o_code q then conf_data ds c
        else case conf_data ds c of
          None \<Rightarrow> Some (take len buffer)
        | Some d \<Rightarrow> Some (if o_flags q AND OPTION_LIST \<noteq> 0 \<and> length d + len \<le> 255
                          then d @ take len buffer else d)))"
proof (cases "find_option ds (o_code q)")
  case None
  define new where "new = o_code q # of_nat len # take len buffer"
  have none: "\<forall>d\<in>set ds. d ! 0 \<noteq> new ! 0"
    using None find_option_first [OF ok code(2)] by (auto simp: first_idx_None_iff new_def)
  have "conf_ok (insert_option ds new)"
    using ok sorted_insert_option [OF _ none] code len
    by (auto simp: conf_ok_def set_insert_option new_def)
  moreover have "find (\<lambda>d. d ! 0 = o_code q) ds = None"
    using none by (auto simp: find_None_iff new_def)
  ultimately show ?thesis
    using None len none find_insert_option [OF none]
    by (auto simp: attach_option_def rd_n_def conf_data_def new_def)
next
  case (Some k)
  then have k: "first_idx (\<lambda>d. d ! 0 = o_code q) ds = Some k"
    using find_option_first [OF ok code(2)] by simp
  note hit = first_idx_SomeD [OF k]
  define d where "d = ds ! k"
  have d: "length d = unat (d ! 1) + 2" "d ! 0 = o_code q" "2 \<le> length d"
    using hit ok by (auto simp: conf_ok_def d_def)
  have data: "conf_data ds (o_code q) = Some (drop 2 d)" "length (drop 2 d) = unat (d ! 1)"
    using k d by (simp_all add: conf_data_def find_first_idx d_def)
  show ?thesis
  proof (cases "o_flags q AND OPTION_LIST \<noteq> 0 \<and> unat (d ! 1) + len \<le> 255")
    case False
    then show ?thesis
      using Some ok data by (auto simp: attach_option_def Let_def d_def)
  next
    case True
    define new where "new = (d @ take len buffer)[1 := d ! 1 + of_nat len]"
    have "unat (d ! 1 + of_nat len) = unat (d ! 1) + len"
      using True len by (subst unat_add_lem [THEN iffD1]) auto
    then have new: "new ! 0 = o_code q" "length new = unat (new ! 1) + 2" "2 \<le> length new"
      "drop 2 new = drop 2 d @ take len buffer"
      using d len by (auto simp: new_def nth_append)
    have "conf_ok (ds[k := new])"
      using ok new hit code sorted_wrt_update_key [of ds k new]
      by (auto simp: conf_ok_def d_def dest!: set_update_subset_insert [THEN subsetD])
    moreover have "attach_option ds q buffer len = Some (ds[k := new])"
      using True Some len d by (simp add: attach_option_def Let_def rd_n_def new_def d_def [symmetric])
    moreover note find_list_update_key [OF k new(1)]
    ultimately show ?thesis
      using True data new(4) by (auto simp: conf_data_def)
  qed
qed

subsection \<open>Scans that stay inside the message\<close>

lemma get_option_loop_stays:
  assumes m: "length m = 548" "drop 545 m = [0, 0, 0]" and code: "code \<noteq> DHCP_PADDING"
  shows "get_option_loop m code fld over i \<noteq> None"
proof (induction fld over i rule: scan_induct)
  case (1 fld over i)
  have last: "m ! k = 0" if "545 \<le> k" "k < 548" for k
  proof -
    have "m ! k = drop 545 m ! (k - 545)" using that m(1) by simp
    moreover have "k - 545 \<in> {0, 1, 2}" using that by auto
    ultimately show ?thesis using m(2) by auto
  qed
  have rds: "\<exists>v. rd m (field_base fld + i + j) = Some v"
    if "i < field_len fld" "j \<le> 3" "m ! (field_base fld + i) \<noteq> 0" for j
  proof (cases fld)
    case OPTION_FIELD
    then have "\<not> 545 \<le> 240 + i" using that last [of "240 + i"] by auto
    with that OPTION_FIELD m(1) show ?thesis by (simp add: rd_def)
  qed (use that m(1) in \<open>simp_all add: rd_def\<close>)
  show ?case
  proof (cases "i < field_len fld")
    case False
    then show ?thesis by (subst get_option_loop.simps) simp
  next
    case True
    then have "rd m (field_base fld + i) = Some (m ! (field_base fld + i))" "rd m (field_base fld + 1) \<noteq> None"
      using m(1) by (cases fld; simp add: rd_def)+
    moreover note rds [OF True, of 1] rds [OF True, of 3] 1 True code
    ultimately show ?thesis
      by (subst get_option_loop.simps) (auto simp: Let_def)
  qed
qed

lemma get_option_stays:
  assumes "wf_msg p" "drop 305 (m_options p) = [0, 0, 0]" "code \<noteq> DHCP_PADDING"
  shows "\<exists>r. get_option p code = Some r"
proof -
  have "drop 545 (msg_bytes p) = drop 305 (drop 240 (msg_bytes p))" by simp
  also have "\<dots> = [0, 0, 0]" using assms(1,2) by (simp only: drop_msg_bytes)
  finally show ?thesis
    using get_option_loop_stays [of "msg_bytes p"] assms unfolding get_option_def by auto
qed

section \<open>Properties\<close>

definition sample_msg :: dhcpMessage where
  "sample_msg = zero_msg\<lparr> m_options := [53, 1, 3, 0, 50, 4, 192, 168, 1, 2, 255] @ replicate 297 0 \<rparr>"

lemma sample_msg_items:
  "wf_msg sample_msg" "opts_are (m_options sample_msg) [Opt 53 [3], Pad, Opt 50 [192, 168, 1, 2]]"
  "no_overload [Opt 53 [3], Pad, Opt 50 [192, 168, 1, 2]]"
  by (simp_all add: sample_msg_def wf_msg_def opts_are_def no_overload_def zero_msg_def)

text \<open>C5: On a message whose options area holds the items \<open>ts\<close> followed by an end marker, and
  which does not use option overload, \<^verbatim>\<open>get_option\<close> finds exactly the first item with the code:
  it returns NULL when there is none, and otherwise the address of that item's data.\<close>

theorem get_option_lookup:
  assumes "wf_msg p" "opts_are (m_options p) ts" "no_overload ts"
    and "code \<noteq> DHCP_PADDING" "code \<noteq> DHCP_END"
  shows "get_option p code = Some (map_option (\<lambda>x. 240 + fst x) (find_item ts code)) \<and>
    (\<forall>k d. find_item ts code = Some (k, d) \<longrightarrow> rd_n (msg_bytes p) (240 + k) (length d) = Some d)"
  using get_option_items [OF assms] rd_n_found_item(1) [OF assms(1,2)] by blast

theorem get_option_lookup_witness:
  "get_option sample_msg DHCP_REQUESTED_IP = Some (Some 246) \<and>
   rd_n (msg_bytes sample_msg) 246 (length [192 :: u8, 168, 1, 2]) = Some [192, 168, 1, 2]"
  using get_option_lookup [OF sample_msg_items, of DHCP_REQUESTED_IP] by simp

text \<open>C29: Whatever the bytes of the message are, a non-NULL result of \<^verbatim>\<open>get_option\<close> is preceded by
  the requested code and a length byte, and the data it announces lies inside one of the three
  option fields (\<^verbatim>\<open>options\<close>, \<^verbatim>\<open>file\<close>, \<^verbatim>\<open>sname\<close>).\<close>

theorem get_option_within_field:
  assumes "get_option p code = Some (Some off)"
  shows "\<exists>f l. field_base f + 2 \<le> off \<and> rd (msg_bytes p) (off - 2) = Some code \<and>
    rd (msg_bytes p) (off - 1) = Some l \<and> off + unat l \<le> field_base f + field_len f"
  using assms unfolding get_option_def by (rule get_option_loop_in_field)

theorem get_option_within_field_witness:
  "\<exists>f l. field_base f + 2 \<le> 242 \<and> rd (msg_bytes sample_msg) 240 = Some 53 \<and>
    rd (msg_bytes sample_msg) 241 = Some l \<and> 242 + unat l \<le> field_base f + field_len f"
proof -
  have "get_option sample_msg 53 = Some (Some 242)"
    using get_option_items [OF sample_msg_items, of 53] by simp
  from get_option_within_field [OF this] show ?thesis by simp
qed

text \<open>\<^verbatim>\<open>get_option_length\<close> is a copy of \<^verbatim>\<open>get_option\<close> that returns a length: for every message and
  code it returns the length byte in front of the data \<^verbatim>\<open>get_option\<close> points to, and 0 when that
  returns NULL.\<close>

theorem get_option_length_agrees:
  "get_option_length p code = do {
     r \<leftarrow> get_option p code;
     case r of None \<Rightarrow> Some 0 | Some off \<Rightarrow> map_option unat (rd (msg_bytes p) (off - 1)) }"
  unfolding get_option_length_def get_option_def by (rule get_option_length_loop_eq)

text \<open>C32: The scan never reads outside the message when the last three option bytes are zero,
  which holds for every datagram of at most 545 bytes.\<close>

theorem get_option_stays_inside:
  assumes "wf_msg p" "drop 305 (m_options p) = [0, 0, 0]" "code \<noteq> DHCP_PADDING"
  shows "\<exists>r. get_option p code = Some r"
  using assms by (rule get_option_stays)

theorem get_option_stays_inside_witness: "\<exists>r. get_option sample_msg 12 = Some r"
  by (rule get_option_stays_inside [OF sample_msg_items(1)]) (simp_all add: sample_msg_def numeral_3_eq_3)

text \<open>Without that condition it can: when the requested code is the last of the 308 bytes, the
  scan reads its length byte beyond the end of the message.\<close>

theorem get_option_overrun:
  "wf_msg (zero_msg\<lparr>m_options := replicate 307 0 @ [12]\<rparr>) \<and>
   get_option (zero_msg\<lparr>m_options := replicate 307 0 @ [12]\<rparr>) 12 = None"
proof -
  let ?p = "zero_msg\<lparr>m_options := replicate 307 0 @ [12]\<rparr>"
  let ?m = "msg_bytes ?p"
  have wf: "wf_msg ?p" by (simp add: wf_msg_def zero_msg_def)
  have o: "rd ?m (240 + i) = rd (replicate 307 0 @ [12]) i" for i
    using rd_msg_options [OF wf, of i] by simp
  have "get_option_loop ?m 12 OPTION_FIELD 0 i = None" if "i \<le> 307" for i
    using that
  proof (induction rule: inc_induct)
    case base
    have "rd ?m (240 + 307) = Some 12" "rd ?m (240 + 308) = None"
      unfolding o by (simp_all add: rd_def nth_append)
    then show ?case by (subst get_option_loop.simps) (simp add: Let_def)
  next
    case (step i)
    have "rd ?m (240 + i) = Some 0" unfolding o using step by (simp add: rd_def nth_append)
    with step show ?case by (subst get_option_loop.simps) (simp add: Let_def)
  qed
  from this [of 0] wf show ?thesis by (simp add: get_option_def)
qed

text \<open>The overload flags are taken from the byte after the value of the overload option, so a
  well-formed message that moves options into the \<^verbatim>\<open>file\<close> field can hide them: here the option with
  code 12 stands in \<^verbatim>\<open>file\<close>, the overload option has value 1, and the lookup returns NULL.\<close>

theorem get_option_overload_ignored:
  "get_option (zero_msg\<lparr> m_options := [52, 1, 1, 0, 255] @ replicate 303 0,
       m_file := [12, 1, 97, 255] @ replicate 124 0 \<rparr>) 12 = Some None"
proof -
  let ?p = "zero_msg\<lparr> m_options := [52, 1, 1, 0, 255] @ replicate 303 0,
       m_file := [12, 1, 97, 255] @ replicate 124 0 \<rparr>"
  have wf: "wf_msg ?p" by (simp add: wf_msg_def zero_msg_def)
  have o: "rd (msg_bytes ?p) (240 + i) = rd ([52, 1, 1, 0, 255] @ replicate 303 0) i" for i
    using rd_msg_options [OF wf, of i] by simp
  have "rd (msg_bytes ?p) 240 = Some 52" "rd (msg_bytes ?p) 241 = Some 1" "rd (msg_bytes ?p) 243 = Some 0"
    "rd (msg_bytes ?p) 244 = Some 255"
    using o [of 0] o [of 1] o [of 3] o [of 4] by (simp_all add: rd_def)
  then show ?thesis
    unfolding get_option_def
    by (subst get_option_loop.simps, simp add: Let_def)
       (subst get_option_loop.simps, simp add: Let_def, subst get_option_loop.simps, simp add: Let_def)
qed

text \<open>C20: Appending an option to a well-formed options area appends it to the abstract list when
  it leaves room for the end marker and otherwise changes nothing; the return value tells which.
  No byte outside the 308-byte area is touched.\<close>

theorem add_option_string_appends:
  assumes "opts_are opts ts" "wf_item (Opt c d)"
  shows "\<exists>opts'. add_option_string opts (c # of_nat (length d) # d) =
      Some (opts', if push_item ts (Opt c d) = ts then 0 else length d + 2) \<and>
    opts_are opts' (push_item ts (Opt c d))"
  using add_option_string_items [OF assms, of "[]"] by simp

theorem add_option_string_appends_witness:
  "\<exists>opts'. add_option_string (m_options sample_msg) [12, 2, 97, 98] = Some (opts', length [97 :: u8, 98] + 2) \<and>
    opts_are opts' [Opt 53 [3], Pad, Opt 50 [192, 168, 1, 2], Opt 12 [97, 98]]"
  using add_option_string_appends [OF sample_msg_items(2), of 12 "[97, 98]"] by (simp add: push_item_def)

text \<open>C21: \<^verbatim>\<open>attach_option\<close> keeps the list of configured options sorted, duplicate free and
  well formed, and updates it as a finite map: a new code gets the data, a list option is
  extended while it fits 255 bytes, and anything else is left alone.\<close>

theorem attach_option_updates:
  assumes "conf_ok ds" "0 < o_code q" "o_code q < 128" "len \<le> length buffer" "len \<le> 255"
  shows "\<exists>ds'. attach_option ds q buffer len = Some ds' \<and> conf_ok ds' \<and>
    (\<forall>c. conf_data ds' c =
       (if c \<noteq> o_code q then conf_data ds c
        else case conf_data ds c of
          None \<Rightarrow> Some (take len buffer)
        | Some d \<Rightarrow> Some (if o_flags q AND OPTION_LIST \<noteq> 0 \<and> length d + len \<le> 255
                          then d @ take len buffer else d)))"
  using assms by (rule attach_option_spec)

theorem attach_option_updates_witness:
  "\<exists>ds'. attach_option [[6, 4, 1, 1, 1, 1]] (mk_option ''dns'' 0x31 6) [8, 8, 8, 8] 4 = Some ds' \<and>
    conf_ok ds' \<and> conf_data ds' 6 = Some [1, 1, 1, 1, 8, 8, 8, 8]"
proof -
  have ok: "conf_ok [[6, 4, 1, 1, 1, 1]]" by (simp add: conf_ok_def)
  have q: "0 < o_code (mk_option ''dns'' 49 6)" "o_code (mk_option ''dns'' 49 6) < 128"
    "4 \<le> length [8 :: u8, 8, 8, 8]" "4 \<le> (255 :: nat)" by (simp_all add: mk_option_def)
  obtain ds' where "attach_option [[6, 4, 1, 1, 1, 1]] (mk_option ''dns'' 0x31 6) [8, 8, 8, 8] 4 = Some ds'"
    and "conf_ok ds'" and data: "\<forall>c. conf_data ds' c =
       (if c \<noteq> o_code (mk_option ''dns'' 0x31 6) then conf_data [[6, 4, 1, 1, 1, 1]] c
        else case conf_data [[6, 4, 1, 1, 1, 1]] c of
          None \<Rightarrow> Some (take 4 [8, 8, 8, 8])
        | Some d \<Rightarrow> Some (if o_flags (mk_option ''dns'' 0x31 6) AND OPTION_LIST \<noteq> 0 \<and> length d + 4 \<le> 255
                          then d @ take 4 [8, 8, 8, 8] else d))"
    using attach_option_updates [OF ok, of "mk_option ''dns'' 0x31 6" 4 "[8, 8, 8, 8]", OF q] by blast
  moreover have "conf_data ds' 6 = Some [1, 1, 1, 1, 8, 8, 8, 8]"
    using data [rule_format, of 6]
    by (simp add: mk_option_def conf_data_def [of "[[6, 4, 1, 1, 1, 1]]"])
  ultimately show ?thesis by blast
qed

end
