(* ===== verification/Dhcp_Packet.thy ===== *)
theory Dhcp_Packet
  imports Dhcp_Options
begin

text \<open>
  \<^verbatim>\<open>src/udhcp/packet.c\<close> and the raw receiver of \<^verbatim>\<open>src/udhcp/clientpacket.c\<close>: initialising a
  message, receiving it from a socket, the Internet checksum, and sending it through a packet
  socket (own IP and UDP headers) or a UDP socket.

  System calls are inputs of the model: the bytes a \<^verbatim>\<open>read\<close> delivers (\<^term>\<open>None\<close> for an error) and,
  for the senders, a record \<open>tx_io\<close> with the outcome of every call.  Sent frames are outputs.
\<close>

section \<open>Message header\<close>

definition init_op :: "u8 \<Rightarrow> u8" where
  "init_op type =
     (if type = DHCPDISCOVER \<or> type = DHCPREQUEST \<or> type = DHCPRELEASE \<or> type = DHCPINFORM
      then BOOTREQUEST
      else if type = DHCPOFFER \<or> type = DHCPACK \<or> type = DHCPNAK then BOOTREPLY else 0)"

definition init_header :: "u8 \<Rightarrow> dhcpMessage option" where
  "init_header type =
     msg_add_simple
       (zero_msg\<lparr> m_op := init_op type, m_htype := ETH_10MB, m_hlen := ETH_10MB_LEN,
          m_cookie := htonl DHCP_MAGIC, m_options := (replicate 308 0)[0 := DHCP_END] \<rparr>)
       DHCP_MESSAGE_TYPE (scast type)"

section \<open>Receiving from a UDP socket\<close>

datatype rx_result = RxError int | Got nat dhcpMessage

text \<open>
  \<^verbatim>\<open>read\<close> fills at most \<^verbatim>\<open>sizeof(struct dhcpMessage)\<close> bytes of a zeroed struct.  The only entry of the
  table of broken vendors is \<^verbatim>\<open>MSFT 98\<close>.
\<close>

definition fill_msg :: "bytes \<Rightarrow> bytes" where
  "fill_msg data = take msg_size data @ replicate (msg_size - length data) 0"

definition broken_vendor :: bytes where
  "broken_vendor = cstr ''MSFT 98''"

definition get_packet :: "bytes option \<Rightarrow> rx_result option" where
  "get_packet inp =
     (case inp of
        None \<Rightarrow> Some (RxError (- 1))
      | Some data \<Rightarrow>
          let n = min msg_size (length data); p = bytes_msg (fill_msg data) in
          if ntohl (m_cookie p) \<noteq> DHCP_MAGIC then Some (RxError (- 2))
          else if m_op p \<noteq> BOOTREQUEST then Some (Got n p)
          else do {
            vendor \<leftarrow> get_option p DHCP_VENDOR;
            case vendor of
              None \<Rightarrow> Some (Got n p)
            | Some off \<Rightarrow> do {
                l \<leftarrow> rd (msg_bytes p) (off - 1);
                if unat l = length broken_vendor then do {
                  v \<leftarrow> rd_n (msg_bytes p) off (unat l);
                  Some (Got n (if v = broken_vendor
                               then p\<lparr>m_flags := m_flags p OR htons BROADCAST_FLAG\<rparr> else p)) }
                else Some (Got n p) } })"

section \<open>The Internet checksum\<close>

text \<open>
  The sum has the 32 bits of the C variable.  That one is signed, so that the code is undefined once the sum
  reaches \<open>2^31\<close>; \<open>sum16_no_overflow\<close> below shows that this takes a block of more than 65536 bytes, and below
  that the two right shifts agree.  The two-byte loads are little endian.
\<close>

fun sum16 :: "bytes \<Rightarrow> u32" where
  "sum16 (a # b # r) = ucast (of_le16 a b) + sum16 r"
| "sum16 [a] = ucast a"
| "sum16 [] = 0"

lemma fold16_decreases:
  fixes s :: u32
  assumes "drop_bit 16 s \<noteq> 0"
  shows "unat ((s AND 0xFFFF) + drop_bit 16 s) = unat s mod 65536 + unat s div 65536"
    "unat s mod 65536 + unat s div 65536 < unat s"
proof -
  have "s AND 0xFFFF = take_bit 16 s" by (simp add: take_bit_eq_mask mask_numeral)
  then have a: "unat (s AND 0xFFFF) = unat s mod 65536" by (simp add: take_bit_eq_mod unat_mod)
  have d: "unat (drop_bit 16 s) = unat s div 65536" unfolding unat_drop_bit_eq unfolding drop_bit_eq_div by simp
  have "unat s < 2 ^ 32" using unsigned_less [of s, where ?'a = nat] by simp
  then have "unat s mod 65536 + unat s div 65536 < 2 ^ 32" by (simp add: add_strict_mono [of _ 65536 _ 65536, THEN order.strict_trans2])
  then show "unat ((s AND 0xFFFF) + drop_bit 16 s) = unat s mod 65536 + unat s div 65536"
    using a d by (subst unat_add_lem [THEN iffD1]) simp_all
  have "unat s div 65536 \<noteq> 0" using assms d by (metis unat_eq_0)
  moreover have "unat s = unat s div 65536 * 65536 + unat s mod 65536" by simp
  ultimately show "unat s mod 65536 + unat s div 65536 < unat s" by linarith
qed

function fold16 :: "u32 \<Rightarrow> u32" where
  "fold16 s = (if drop_bit 16 s \<noteq> 0 then fold16 ((s AND 0xFFFF) + drop_bit 16 s) else s)"
  by pat_completeness auto
termination
  by (relation "measure unat") (simp_all add: fold16_decreases)

declare fold16.simps [simp del]

definition checksum :: "bytes \<Rightarrow> u16" where
  "checksum b = NOT (ucast (fold16 (sum16 b)))"

section \<open>IP and UDP headers\<close>

record iphdr =
  ip_ihl :: u8
  ip_version :: u8
  ip_tos :: u8
  ip_tot_len :: u16
  ip_id :: u16
  ip_frag_off :: u16
  ip_ttl :: u8
  ip_protocol :: u8
  ip_check :: u16
  ip_saddr :: u32
  ip_daddr :: u32

record udphdr =
  uh_source :: u16
  uh_dest :: u16
  uh_len :: u16
  uh_check :: u16

definition zero_ip :: iphdr where
  "zero_ip = \<lparr> ip_ihl = 0, ip_version = 0, ip_tos = 0, ip_tot_len = 0, ip_id = 0, ip_frag_off = 0,
     ip_ttl = 0, ip_protocol = 0, ip_check = 0, ip_saddr = 0, ip_daddr = 0 \<rparr>"

text \<open>The first byte packs the two 4-bit fields, \<^verbatim>\<open>ihl\<close> in the low half.\<close>

definition ip_bytes :: "iphdr \<Rightarrow> bytes" where
  "ip_bytes h =
     [ip_ihl h OR push_bit 4 (ip_version h), ip_tos h] @ le16 (ip_tot_len h) @ le16 (ip_id h) @
     le16 (ip_frag_off h) @ [ip_ttl h, ip_protocol h] @ le16 (ip_check h) @
     le32 (ip_saddr h) @ le32 (ip_daddr h)"

definition bytes_ip :: "bytes \<Rightarrow> iphdr" where
  "bytes_ip b = \<lparr> ip_ihl = b ! 0 AND 15, ip_version = drop_bit 4 (b ! 0), ip_tos = b ! 1,
     ip_tot_len = of_le16 (b ! 2) (b ! 3), ip_id = of_le16 (b ! 4) (b ! 5),
     ip_frag_off = of_le16 (b ! 6) (b ! 7), ip_ttl = b ! 8, ip_protocol = b ! 9,
     ip_check = of_le16 (b ! 10) (b ! 11),
     ip_saddr = of_le32 (b ! 12) (b ! 13) (b ! 14) (b ! 15),
     ip_daddr = of_le32 (b ! 16) (b ! 17) (b ! 18) (b ! 19) \<rparr>"

definition udp_bytes :: "udphdr \<Rightarrow> bytes" where
  "udp_bytes h = le16 (uh_source h) @ le16 (uh_dest h) @ le16 (uh_len h) @ le16 (uh_check h)"

definition bytes_udp :: "bytes \<Rightarrow> udphdr" where
  "bytes_udp b = \<lparr> uh_source = of_le16 (b ! 0) (b ! 1), uh_dest = of_le16 (b ! 2) (b ! 3),
     uh_len = of_le16 (b ! 4) (b ! 5), uh_check = of_le16 (b ! 6) (b ! 7) \<rparr>"

abbreviation (input) IPPROTO_UDP :: u8 where "IPPROTO_UDP \<equiv> 17"
abbreviation (input) IPVERSION :: u8 where "IPVERSION \<equiv> 4"
abbreviation (input) IPDEFTTL :: u8 where "IPDEFTTL \<equiv> 64"
abbreviation (input) udp_packet_size :: nat where "udp_packet_size \<equiv> 576"

section \<open>Sending\<close>

record tx_io =
  tx_socket :: bool
  tx_setsockopt :: bool
  tx_bind :: bool
  tx_connect :: bool
  tx_result :: int

datatype tx =
    RawTx bytes int bytes
  | KernelTx u32 u16 u32 u16 bytes

text \<open>The UDP checksum is taken over the zeroed IP header used as a pseudo header.\<close>

definition pseudo_ip :: "u32 \<Rightarrow> u32 \<Rightarrow> u16 \<Rightarrow> iphdr" where
  "pseudo_ip source_ip dest_ip udp_len =
     zero_ip\<lparr> ip_protocol := IPPROTO_UDP, ip_saddr := source_ip, ip_daddr := dest_ip,
       ip_tot_len := udp_len \<rparr>"

definition raw_frame :: "dhcpMessage \<Rightarrow> u32 \<Rightarrow> u16 \<Rightarrow> u32 \<Rightarrow> u16 \<Rightarrow> bytes" where
  "raw_frame payload source_ip source_port dest_ip dest_port =
     (let udp_len = htons (of_nat (8 + msg_size));
          udp0 = \<lparr> uh_source = htons source_port, uh_dest = htons dest_port, uh_len = udp_len, uh_check = 0 \<rparr>;
          ip0 = pseudo_ip source_ip dest_ip udp_len;
          check = checksum (ip_bytes ip0 @ udp_bytes udp0 @ msg_bytes payload);
          ip1 = ip0\<lparr> ip_tot_len := htons (of_nat udp_packet_size), ip_ihl := 5, ip_version := IPVERSION,
                  ip_ttl := IPDEFTTL \<rparr>
      in ip_bytes (ip1\<lparr>ip_check := checksum (ip_bytes ip1)\<rparr>) @ udp_bytes (udp0\<lparr>uh_check := check\<rparr>) @
         msg_bytes payload)"

definition raw_packet ::
    "tx_io \<Rightarrow> dhcpMessage \<Rightarrow> u32 \<Rightarrow> u16 \<Rightarrow> u32 \<Rightarrow> u16 \<Rightarrow> bytes \<Rightarrow> int \<Rightarrow> (int \<times> tx list) option" where
  "raw_packet io payload source_ip source_port dest_ip dest_port dest_arp ifindex =
     (if \<not> tx_socket io then Some (- 1, [])
      else do {
        mac \<leftarrow> rd_n dest_arp 0 6;
        if \<not> tx_bind io then Some (- 1, [])
        else Some (tx_result io,
          [RawTx mac ifindex (raw_frame payload source_ip source_port dest_ip dest_port)]) })"

definition kernel_packet ::
    "tx_io \<Rightarrow> dhcpMessage \<Rightarrow> u32 \<Rightarrow> u16 \<Rightarrow> u32 \<Rightarrow> u16 \<Rightarrow> int \<times> tx list" where
  "kernel_packet io payload source_ip source_port dest_ip dest_port =
     (if \<not> tx_socket io then (- 1, [])
      else if \<not> tx_setsockopt io then (- 1, [])
      else if \<not> tx_bind io then (- 1, [])
      else if \<not> tx_connect io then (- 1, [])
      else (tx_result io, [KernelTx source_ip source_port dest_ip dest_port (msg_bytes payload)]))"

section \<open>Receiving from a packet socket\<close>

text \<open>
  \<open>old\<close> is the caller's message buffer, which is only partly overwritten when the frame is short.
  The final copy has length \<open>bytes - 28\<close>; a negative length is a copy of almost the whole address
  space and therefore \<^term>\<open>None\<close>.
\<close>

definition raw_payload :: "bytes option \<Rightarrow> bytes option option" where
  "raw_payload inp =
     (case inp of
        None \<Rightarrow> Some None
      | Some data \<Rightarrow>
          let got = min udp_packet_size (length data);
              b = take udp_packet_size data @ replicate (udp_packet_size - length data) 0;
              ip = bytes_ip b; udp = bytes_udp (drop 20 b) in
          if got < 20 + 8 then Some None
          else if got < unat (ntohs (ip_tot_len ip)) then Some None
          else let n = unat (ntohs (ip_tot_len ip)) in
          if ip_protocol ip \<noteq> IPPROTO_UDP \<or> ip_version ip \<noteq> IPVERSION \<or> ip_ihl ip \<noteq> 5 \<or>
             uh_dest udp \<noteq> htons CLIENT_PORT \<or> udp_packet_size < n \<or>
             int (unat (ntohs (uh_len udp))) \<noteq> sint (of_int (int n - 20) :: u16)
          then Some None
          else if ip_check ip \<noteq> checksum (ip_bytes (ip\<lparr>ip_check := 0\<rparr>)) then Some None
          else let ps = pseudo_ip (ip_saddr ip) (ip_daddr ip) (uh_len udp);
                   img = ip_bytes ps @ udp_bytes (udp\<lparr>uh_check := 0\<rparr>) @ drop 28 b in
          if uh_check udp \<noteq> 0 \<and> uh_check udp \<noteq> checksum (take n img) then Some None
          else if n < 28 then None
          else Some (Some (take (n - 28) (drop 28 b))))"

text \<open>The buffer after the call, and the result.\<close>

definition raw_buffer :: "dhcpMessage \<Rightarrow> bytes \<Rightarrow> dhcpMessage" where
  "raw_buffer old d = bytes_msg (d @ drop (length d) (msg_bytes old))"

definition get_raw_packet :: "dhcpMessage \<Rightarrow> bytes option \<Rightarrow> rx_result option" where
  "get_raw_packet old inp = do {
     r \<leftarrow> raw_payload inp;
     case r of
       None \<Rightarrow> Some (RxError (- 1))
     | Some d \<Rightarrow>
         let p = raw_buffer old d in
         if ntohl (m_cookie p) \<noteq> DHCP_MAGIC then Some (RxError (- 1))
         else Some (Got (length d) p) }"

lemma get_raw_packet_eq:
  "get_raw_packet old inp =
     (case inp of
        None \<Rightarrow> Some (RxError (- 1))
      | Some data \<Rightarrow>
          let got = min udp_packet_size (length data);
              b = take udp_packet_size data @ replicate (udp_packet_size - length data) 0;
              ip = bytes_ip b; udp = bytes_udp (drop 20 b) in
          if got < 20 + 8 then Some (RxError (- 1))
          else if got < unat (ntohs (ip_tot_len ip)) then Some (RxError (- 1))
          else let n = unat (ntohs (ip_tot_len ip)) in
          if ip_protocol ip \<noteq> IPPROTO_UDP \<or> ip_version ip \<noteq> IPVERSION \<or> ip_ihl ip \<noteq> 5 \<or>
             uh_dest udp \<noteq> htons CLIENT_PORT \<or> udp_packet_size < n \<or>
             int (unat (ntohs (uh_len udp))) \<noteq> sint (of_int (int n - 20) :: u16)
          then Some (RxError (- 1))
          else if ip_check ip \<noteq> checksum (ip_bytes (ip\<lparr>ip_check := 0\<rparr>)) then Some (RxError (- 1))
          else let ps = pseudo_ip (ip_saddr ip) (ip_daddr ip) (uh_len udp);
                   img = ip_bytes ps @ udp_bytes (udp\<lparr>uh_check := 0\<rparr>) @ drop 28 b in
          if uh_check udp \<noteq> 0 \<and> uh_check udp \<noteq> checksum (take n img) then Some (RxError (- 1))
          else if n < 28 then None
          else let p = bytes_msg (take (n - 28) (drop 28 b) @ drop (n - 28) (msg_bytes old)) in
          if ntohl (m_cookie p) \<noteq> DHCP_MAGIC then Some (RxError (- 1))
          else Some (Got (n - 28) p))"
proof (cases inp)
  case None
  then show ?thesis by (simp add: get_raw_packet_def raw_payload_def)
next
  case (Some data)
  define b where "b = take udp_packet_size data @ replicate (udp_packet_size - length data) 0"
  define n where "n = unat (ntohs (ip_tot_len (bytes_ip b)))"
  have "length b = udp_packet_size" by (simp add: b_def)
  then have len: "length (take (n - 28) (drop 28 b)) = n - 28" if "\<not> udp_packet_size < n" using that by simp
  have bind_if: "Option.bind (if c then x else y) f = (if c then Option.bind x f else Option.bind y f)"
    for c and x y :: "bytes option option" and f :: "bytes option \<Rightarrow> rx_result option" by simp
  show ?thesis
    unfolding get_raw_packet_def raw_payload_def raw_buffer_def Some option.case Let_def b_def [symmetric] n_def [symmetric]
      bind_if Option.bind.simps
    by (intro if_cong refl) (simp_all only: de_Morgan_disj len not_False_eq_True simp_thms)
qed

section \<open>Facts about the checksum\<close>

text \<open>The sum and its folding in natural numbers.\<close>

fun block_sum :: "bytes \<Rightarrow> nat" where
  "block_sum (a # b # r) = unat (of_le16 a b) + block_sum r"
| "block_sum [a] = unat a"
| "block_sum [] = 0"

function block_fold :: "nat \<Rightarrow> nat" where
  "block_fold s = (if s div 65536 \<noteq> 0 then block_fold (s mod 65536 + s div 65536) else s)"
  by pat_completeness auto
termination
proof (relation "measure id")
  fix s :: nat
  assume "s div 65536 \<noteq> 0"
  moreover have "s = s div 65536 * 65536 + s mod 65536" by simp
  ultimately show "(s mod 65536 + s div 65536, s) \<in> measure id"
    unfolding in_measure id_def by linarith
qed simp

declare block_fold.simps [simp del]

lemma block_sum_bound: "block_sum b \<le> 65535 * ((length b + 1) div 2)"
proof (induction b rule: block_sum.induct)
  case (1 a b r)
  have "unat (of_le16 a b) \<le> 65535" using unat_u16_less [of "of_le16 a b"] by linarith
  with 1 show ?case by simp
next
  case (2 a)
  show ?case using unat_u8_le [of a] by simp
qed simp

lemma sum16_no_overflow: "length b \<le> 65536 \<Longrightarrow> block_sum b < 2 ^ 31"
proof -
  assume "length b \<le> 65536"
  then have "(length b + 1) div 2 \<le> 32768" by arith
  with block_sum_bound [of b] have "block_sum b \<le> 65535 * 32768" by linarith
  then show ?thesis by simp
qed

lemma block_fold_bound: "block_fold s < 65536"
proof (induction s rule: block_fold.induct)
  case (1 s)
  then show ?case by (subst block_fold.simps) auto
qed

lemma block_fold_mod: "block_fold s mod 65535 = s mod 65535"
proof (induction s rule: block_fold.induct)
  case (1 s)
  have "s = s mod 65536 + 65536 * (s div 65536)" by simp
  then have "s = (s mod 65536 + s div 65536) + 65535 * (s div 65536)" by linarith
  then have "(s mod 65536 + s div 65536) mod 65535 = s mod 65535" by (metis mod_mult_self2)
  with 1 show ?case by (subst block_fold.simps) auto
qed

lemma block_fold_pos: "0 < s \<Longrightarrow> 0 < block_fold s"
proof (induction s rule: block_fold.induct)
  case (1 s)
  then show ?case by (subst block_fold.simps) auto
qed

lemma block_fold_le: "block_fold s \<le> s"
proof (induction s rule: block_fold.induct)
  case (1 s)
  have "s mod 65536 + s div 65536 \<le> s mod 65536 + 65536 * (s div 65536)" by simp
  also have "\<dots> = s" by simp
  finally show ?case using 1 by (subst block_fold.simps) auto
qed

lemma unat_NOT_u16: "unat (NOT w :: u16) = 65535 - unat w"
proof -
  have "NOT w = - 1 - w" by (simp add: not_eq_complement)
  moreover have "w \<le> - 1" by simp
  moreover have "unat (- 1 :: u16) = 65535" by (simp add: unat_eq_nat_uint unsigned_minus_1_eq_mask mask_eq_exp_minus_1)
  ultimately show ?thesis by (simp add: unat_sub)
qed

lemma sum16_block: "sum16 b = of_nat (block_sum b)"
  by (induction b rule: sum16.induct) (simp_all add: unsigned_of_nat)

lemma unat_sum16: "length b \<le> 65536 \<Longrightarrow> unat (sum16 b) = block_sum b"
  using sum16_no_overflow [of b] by (simp add: sum16_block unat_of_nat)

lemma unat_fold16: "unat (fold16 s) = block_fold (unat s)"
proof (induction s rule: fold16.induct)
  case (1 s)
  have "unat (drop_bit 16 s) = unat s div 65536" unfolding unat_drop_bit_eq unfolding drop_bit_eq_div by simp
  then have d: "drop_bit 16 s \<noteq> 0 \<longleftrightarrow> unat s div 65536 \<noteq> 0" by (metis unat_eq_0)
  show ?case
  proof (cases "drop_bit 16 s \<noteq> 0")
    case True
    with 1 d show ?thesis by (subst fold16.simps, subst block_fold.simps) (simp add: fold16_decreases(1))
  next
    case False
    with d show ?thesis by (subst fold16.simps, subst block_fold.simps) simp
  qed
qed

lemma unat_checksum:
  assumes "length b \<le> 65536"
  shows "unat (checksum b) = 65535 - block_fold (block_sum b)"
proof -
  have f: "unat (fold16 (sum16 b)) = block_fold (block_sum b)" using assms by (simp add: unat_fold16 unat_sum16)
  have "unat (ucast (fold16 (sum16 b)) :: u16) = unat (fold16 (sum16 b)) mod 65536" by (simp add: unsigned_ucast_eq take_bit_eq_mod)
  then show ?thesis using f block_fold_bound [of "block_sum b"] by (simp add: checksum_def unat_NOT_u16)
qed

lemma block_sum_append_even: "even (length xs) \<Longrightarrow> block_sum (xs @ ys) = block_sum xs + block_sum ys"
  by (induction xs rule: block_sum.induct) auto

lemma checksum_complete:
  assumes "even (length pre)" "length pre + 2 + length post \<le> 65536"
  shows "checksum (pre @ le16 (checksum (pre @ [0, 0] @ post)) @ post) = 0"
proof -
  let ?b = "pre @ [0, 0] @ post"
  let ?s = "block_sum ?b"
  have zero: "block_sum ([0, 0] @ post) = block_sum post" by (simp add: of_le16_def)
  have "block_sum (le16 (checksum ?b) @ post) = unat (checksum ?b) + block_sum post"
    by (simp add: le16_def of_le16_le16)
  then have s': "block_sum (pre @ le16 (checksum ?b) @ post) = ?s + (65535 - block_fold ?s)"
    using assms zero by (simp add: block_sum_append_even unat_checksum)
  let ?t = "?s + (65535 - block_fold ?s)"
  have f: "block_fold ?s \<le> ?s" "block_fold ?s \<le> 65535" using block_fold_le [of ?s] block_fold_bound [of ?s] by auto
  then have "?t = (?s - block_fold ?s) + 65535" by simp
  moreover have "(?s - block_fold ?s) mod 65535 = 0"
    using f block_fold_mod [of ?s] by (metis mod_eq_dvd_iff_nat dvd_imp_mod_0)
  ultimately have "?t mod 65535 = 0" by (simp only: mod_add_self2)
  then have "block_fold ?t mod 65535 = 0" by (simp add: block_fold_mod)
  moreover have "0 < block_fold ?t" using f by (intro block_fold_pos) simp
  ultimately have "block_fold ?t = 65535"
    using block_fold_bound [of ?t] by (auto simp: mod_eq_0_iff_dvd elim!: dvdE)
  then have "unat (checksum (pre @ le16 (checksum ?b) @ post)) = 0" using s' assms(2) by (subst unat_checksum) (simp_all add: le16_def)
  then show ?thesis by (simp add: unat_eq_0)
qed

section \<open>Header images\<close>

lemma length_ip_bytes [simp]: "length (ip_bytes h) = 20"
  by (simp add: ip_bytes_def)

lemma length_udp_bytes [simp]: "length (udp_bytes h) = 8"
  by (simp add: udp_bytes_def)

lemma bytes_udp_bytes: "bytes_udp (udp_bytes h @ r) = h"
  by (simp add: bytes_udp_def udp_bytes_def le16_def of_le16_le16)

lemma nibbles: "(5 OR push_bit 4 4 :: u8) AND 15 = 5" "drop_bit 4 (5 OR push_bit 4 4 :: u8) = 4"
  by simp_all

lemma bytes_ip_bytes:
  "ip_ihl h = 5 \<Longrightarrow> ip_version h = 4 \<Longrightarrow> bytes_ip (ip_bytes h @ r) = h"
  by (simp add: bytes_ip_def ip_bytes_def le16_def le32_def of_le16_le16 of_le32_le32)

section \<open>Sender and raw receiver agree\<close>

lemma get_raw_packet_raw_frame:
  assumes wf: "wf_msg payload" "m_cookie payload = htonl DHCP_MAGIC" "wf_msg old"
  shows "get_raw_packet old (Some (raw_frame payload src sport dst CLIENT_PORT)) = Some (Got msg_size payload)"
proof -
  define udp_len where "udp_len = htons (of_nat (8 + msg_size) :: u16)"
  define udp0 where "udp0 = \<lparr> uh_source = htons sport, uh_dest = htons CLIENT_PORT, uh_len = udp_len, uh_check = 0 \<rparr>"
  define ip0 where "ip0 = pseudo_ip src dst udp_len"
  define check where "check = checksum (ip_bytes ip0 @ udp_bytes udp0 @ msg_bytes payload)"
  define ip1 where "ip1 = ip0\<lparr> ip_tot_len := htons (of_nat udp_packet_size), ip_ihl := 5, ip_version := IPVERSION,
                  ip_ttl := IPDEFTTL \<rparr>"
  define ip2 where "ip2 = ip1\<lparr>ip_check := checksum (ip_bytes ip1)\<rparr>"
  define udp1 where "udp1 = udp0\<lparr>uh_check := check\<rparr>"
  let ?f = "ip_bytes ip2 @ udp_bytes udp1 @ msg_bytes payload"
  have frame: "raw_frame payload src sport dst CLIENT_PORT = ?f"
    by (simp add: raw_frame_def Let_def udp_len_def udp0_def ip0_def check_def ip1_def ip2_def udp1_def)
  have len: "length ?f = 576" using wf(1) by simp
  have ip: "bytes_ip ?f = ip2"
    by (rule bytes_ip_bytes) (simp_all add: ip2_def ip1_def)
  have udp: "bytes_udp (drop 20 ?f) = udp1" by (simp add: bytes_udp_bytes)
  have ip1: "ip2\<lparr>ip_check := 0\<rparr> = ip1" by (simp add: ip2_def ip1_def ip0_def pseudo_ip_def zero_ip_def)
  have fields: "ip_tot_len ip2 = htons (of_nat udp_packet_size)" "ip_protocol ip2 = 17" "ip_version ip2 = 4"
    "ip_ihl ip2 = 5" "ip_check ip2 = checksum (ip_bytes ip1)" "ip_saddr ip2 = src" "ip_daddr ip2 = dst"
    "uh_dest udp1 = htons CLIENT_PORT" "uh_len udp1 = udp_len" "uh_check udp1 = check" "udp1\<lparr>uh_check := 0\<rparr> = udp0"
    by (simp_all add: ip2_def ip1_def ip0_def pseudo_ip_def udp1_def udp0_def)
  have data: "drop 28 ?f = msg_bytes payload" using wf(1) by simp
  have all: "take 548 (msg_bytes payload) = msg_bytes payload" using wf(1) by simp
  have check': "check = checksum (ip_bytes (pseudo_ip src dst udp_len) @ udp_bytes udp0 @ msg_bytes payload)"
    by (simp add: check_def ip0_def)
  have p: "bytes_msg (take 548 (msg_bytes payload) @ drop 548 (msg_bytes old)) = payload"
    using wf(1,3) by (simp add: bytes_msg_bytes)
  define F where "F = ?f"
  have F: "length F = 576" "bytes_ip F = ip2" "bytes_udp (drop 20 F) = udp1" "drop 28 F = msg_bytes payload"
    unfolding F_def by (fact len ip udp data)+
  have "ntohl (m_cookie payload) = DHCP_MAGIC" using wf(2) by simp
  moreover have "take 576 F @ replicate (576 - length F) 0 = F" using F(1) by simp
  moreover have "sint (of_int (int 576 - 20) :: u16) = 556" by simp
  moreover have "int (unat (ntohs udp_len)) = 556" by (simp add: udp_len_def)
  moreover have "unat (ntohs (htons (of_nat udp_packet_size))) = 576" by simp
  ultimately show ?thesis
    using p unfolding frame F_def [symmetric] get_raw_packet_eq option.case Let_def F
    by (simp add: F fields ip1 check' [symmetric] all)
qed

section \<open>A fresh message\<close>

lemma fresh_options: "opts_are ((replicate 308 0)[0 := DHCP_END]) []"
proof -
  have "replicate 308 (0 :: u8) = 0 # replicate 307 0"
    using replicate_Suc [of 307 "0 :: u8"] by simp
  then show ?thesis by (simp add: opts_are_def)
qed

lemma ucast_scast_byte [simp]: "ucast (scast (t :: u8) :: u32) = t"
  by (rule bit_word_eqI) (auto simp: bit_simps)

lemma init_header_items:
  "\<exists>p. init_header t = Some p \<and> msg_items p [Opt DHCP_MESSAGE_TYPE [t]] \<and>
     (\<exists>opts. p = zero_msg\<lparr> m_op := init_op t, m_htype := ETH_10MB, m_hlen := ETH_10MB_LEN,
          m_cookie := htonl DHCP_MAGIC, m_options := opts \<rparr>)"
proof -
  let ?z = "zero_msg\<lparr> m_op := init_op t, m_htype := ETH_10MB, m_hlen := ETH_10MB_LEN,
          m_cookie := htonl DHCP_MAGIC, m_options := (replicate 308 0)[0 := DHCP_END] \<rparr>"
  let ?s = "[DHCP_MESSAGE_TYPE, 1, t]"
  have z: "msg_items ?z []" using fresh_options by (simp add: msg_items_def wf_msg_def zero_msg_def)
  have "init_header t = msg_add ?z ?s"
    unfolding init_header_def
    by (subst msg_add_simple_eq [OF simple_option_lengths(1)]) (simp_all add: le32_def)
  moreover obtain p where p: "msg_add ?z ?s = Some p" "msg_items p (push_item [] (blob_item ?s))"
    using dhcp_msg.add_law [OF z, of ?s] by (auto simp: blob_ok_def)
  moreover have "push_item [] (blob_item ?s) = [Opt DHCP_MESSAGE_TYPE [t]]"
    by (simp add: push_item_def blob_item_def)
  moreover have "\<exists>opts. p = ?z\<lparr>m_options := opts\<rparr>"
    using p(1) by (auto simp: msg_add_def bind_Some_iff split: prod.splits)
  ultimately show ?thesis by auto
qed

section \<open>What the receivers accept\<close>

lemma get_raw_packet_Got:
  assumes "get_raw_packet old (Some data) = Some (Got n p)"
  shows "n \<le> msg_size" "n + 28 \<le> length data" "ntohl (m_cookie p) = DHCP_MAGIC"
    "p = bytes_msg (take n (drop 28 data) @ drop n (msg_bytes old))"
proof -
  define b where "b = take udp_packet_size data @ replicate (udp_packet_size - length data) 0"
  define k where "k = unat (ntohs (ip_tot_len (bytes_ip b)))"
  have *: "28 \<le> k" "k \<le> 576" "k \<le> length data" "n = k - 28" "ntohl (m_cookie p) = DHCP_MAGIC"
    "p = bytes_msg (take n (drop 28 b) @ drop n (msg_bytes old))"
    using assms unfolding get_raw_packet_eq option.case Let_def b_def [symmetric] k_def [symmetric]
    by (auto split: if_splits)
  have "take n (drop 28 b) = take n (drop 28 data)"
    unfolding b_def using * by (auto simp: take_drop)
  with * show "n \<le> msg_size" "n + 28 \<le> length data" "ntohl (m_cookie p) = DHCP_MAGIC"
    "p = bytes_msg (take n (drop 28 data) @ drop n (msg_bytes old))" by auto
qed

lemma get_option_short_msg:
  assumes "length data \<le> 545" "code \<noteq> DHCP_PADDING"
  shows "\<exists>r. get_option (bytes_msg (fill_msg data)) code = Some r"
proof -
  let ?p = "bytes_msg (fill_msg data)"
  have len: "length (fill_msg data) = 548" using assms(1) by (simp add: fill_msg_def)
  have "drop 305 (m_options ?p) = drop 545 (fill_msg data)"
    using len by (simp add: bytes_msg_def)
  also have "\<dots> = [0, 0, 0]" using assms(1) by (simp add: fill_msg_def numeral_3_eq_3)
  finally show ?thesis
    using get_option_stays [OF wf_bytes_msg [OF len] _ assms(2)] by blast
qed

definition short_ip :: iphdr where
  "short_ip = zero_ip\<lparr> ip_ihl := 5, ip_version := 4, ip_protocol := 17, ip_tot_len := htons 24 \<rparr>"

section \<open>Properties\<close>

text \<open>C31: Storing the checksum of a block of at most 65536 bytes, computed with a zero checksum field at an
  even position, into that field makes the checksum of the block 0, which is what a receiver tests.  (In a
  longer block the 32-bit signed sum of the code may overflow.)\<close>

theorem checksum_verifies:
  assumes "even (length pre)" "length pre + 2 + length post \<le> 65536"
  shows "checksum (pre @ le16 (checksum (pre @ [0, 0] @ post)) @ post) = 0"
  using assms by (rule checksum_complete)

theorem checksum_verifies_witness:
  "checksum ([69, 0] @ le16 (checksum ([69, 0] @ [0, 0] @ [1])) @ [1]) = 0"
  using checksum_verifies [of "[69, 0]" "[1]"] by simp

text \<open>C18: The raw receiver accepts what the raw sender builds for the client port and recovers the
  message, whatever its addresses, source port and buffer contents are.\<close>

theorem raw_frame_received:
  assumes "wf_msg payload" "m_cookie payload = htonl DHCP_MAGIC" "wf_msg old"
  shows "get_raw_packet old (Some (raw_frame payload src sport dst CLIENT_PORT)) = Some (Got msg_size payload)"
  using assms by (rule get_raw_packet_raw_frame)

theorem raw_frame_received_witness:
  "get_raw_packet zero_msg (Some (raw_frame (zero_msg\<lparr>m_cookie := htonl DHCP_MAGIC\<rparr>) 7 67 9 CLIENT_PORT)) =
     Some (Got msg_size (zero_msg\<lparr>m_cookie := htonl DHCP_MAGIC\<rparr>))"
  by (rule raw_frame_received) simp_all

text \<open>A frame the raw receiver accepts fits the message buffer, was received in full, carries the
  DHCP cookie, and leaves a well-formed message whose bytes are the UDP payload of the frame over
  the old contents of the buffer.\<close>

theorem get_raw_packet_accepts:
  assumes "get_raw_packet old (Some data) = Some (Got n p)" "wf_msg old"
  shows "n \<le> msg_size \<and> n + 28 \<le> length data \<and> m_cookie p = htonl DHCP_MAGIC \<and> wf_msg p \<and>
    p = bytes_msg (take n (drop 28 data) @ drop n (msg_bytes old))"
proof -
  note got = get_raw_packet_Got [OF assms(1)]
  have "wf_msg p" unfolding got(4) using got(1,2) assms(2) by (intro wf_bytes_msg) simp
  moreover have "m_cookie p = htonl DHCP_MAGIC" using got(3) by (metis ntohl_ntohl)
  ultimately show ?thesis using got by blast
qed

theorem get_raw_packet_accepts_witness:
  "get_raw_packet zero_msg (Some (raw_frame (zero_msg\<lparr>m_cookie := htonl DHCP_MAGIC\<rparr>) 7 67 9 CLIENT_PORT)) =
     Some (Got msg_size (zero_msg\<lparr>m_cookie := htonl DHCP_MAGIC\<rparr>)) \<and>
   msg_size + 28 \<le> length (raw_frame (zero_msg\<lparr>m_cookie := htonl DHCP_MAGIC\<rparr>) 7 67 9 CLIENT_PORT) \<and>
   wf_msg (zero_msg\<lparr>m_cookie := htonl DHCP_MAGIC\<rparr>)"
proof -
  let ?p = "zero_msg\<lparr>m_cookie := htonl DHCP_MAGIC\<rparr>"
  have "get_raw_packet zero_msg (Some (raw_frame ?p 7 67 9 CLIENT_PORT)) = Some (Got msg_size ?p)"
    by (rule get_raw_packet_raw_frame) simp_all
  from this get_raw_packet_accepts [OF this] show ?thesis by simp
qed

text \<open>The length checks of the raw receiver admit an IP total length between 20 and 27: this
  24-byte datagram passes all of them and makes the final copy length negative.\<close>

theorem get_raw_packet_short_overrun:
  "get_raw_packet old (Some (ip_bytes (short_ip\<lparr>ip_check := checksum (ip_bytes short_ip)\<rparr>) @
     udp_bytes \<lparr> uh_source = 0, uh_dest = htons CLIENT_PORT, uh_len = htons 4, uh_check = 0 \<rparr>)) = None"
proof -
  let ?h = "short_ip\<lparr>ip_check := checksum (ip_bytes short_ip)\<rparr>"
  let ?u = "\<lparr> uh_source = 0, uh_dest = htons CLIENT_PORT, uh_len = htons 4, uh_check = 0 \<rparr>"
  define F where "F = ip_bytes ?h @ udp_bytes ?u"
  define b where "b = take 576 F @ replicate (576 - length F) 0"
  have len: "length F = 28" by (simp add: F_def)
  have b: "b = ip_bytes ?h @ udp_bytes ?u @ replicate 548 0" using len by (simp add: b_def F_def)
  have ip: "bytes_ip b = ?h" unfolding b by (rule bytes_ip_bytes) (simp_all add: short_ip_def)
  have udp: "bytes_udp (drop 20 b) = ?u" unfolding b by (simp add: bytes_udp_bytes)
  have z: "?h\<lparr>ip_check := 0\<rparr> = short_ip" by (simp add: short_ip_def zero_ip_def)
  have f: "ip_tot_len ?h = htons 24" "ip_protocol ?h = 17" "ip_version ?h = 4" "ip_ihl ?h = 5"
    by (simp_all add: short_ip_def)
  show ?thesis
    unfolding F_def [symmetric] get_raw_packet_eq option.case Let_def b_def [symmetric] ip udp z
    by (simp add: len f)
qed

text \<open>C30: \<^verbatim>\<open>get_packet\<close> handles every datagram of at most 545 bytes without leaving its buffer; what it
  accepts has the DHCP cookie and is the datagram padded with zeros, up to the broadcast flag,
  which is forced for requests of the vendor class \<^verbatim>\<open>MSFT 98\<close>.\<close>

theorem get_packet_short:
  assumes "length data \<le> 545"
  shows "\<exists>r. get_packet (Some data) = Some r \<and>
    (\<forall>n p. r = Got n p \<longrightarrow> n = length data \<and> wf_msg p \<and> m_cookie p = htonl DHCP_MAGIC \<and>
       (p = bytes_msg (fill_msg data) \<or>
        p = bytes_msg (fill_msg data)\<lparr>m_flags := m_flags (bytes_msg (fill_msg data)) OR htons BROADCAST_FLAG\<rparr> \<and>
        option_value (bytes_msg (fill_msg data)) DHCP_VENDOR = Some (Some broken_vendor)))"
proof -
  define p where "p = bytes_msg (fill_msg data)"
  have "length (fill_msg data) = 548" using assms by (simp add: fill_msg_def)
  then have wf: "wf_msg p" unfolding p_def by (rule wf_bytes_msg)
  obtain r where r: "get_option p DHCP_VENDOR = Some r"
    using get_option_short_msg [OF assms, of DHCP_VENDOR] by (auto simp: p_def)
  have n: "min 548 (length data) = length data" using assms by simp
  have ck: "ntohl (m_cookie p) = DHCP_MAGIC \<longleftrightarrow> m_cookie p = htonl DHCP_MAGIC" by (metis ntohl_ntohl)
  show ?thesis
  proof (cases r)
    case None
    show ?thesis
      unfolding get_packet_def option.case Let_def p_def [symmetric] n r None
      using wf by (simp add: ck)
  next
    case (Some off)
    then have "get_option_loop (msg_bytes p) DHCP_VENDOR OPTION_FIELD 0 0 = Some (Some off)"
      using r by (simp add: get_option_def)
    from get_option_loop_in_field [OF this] obtain f l where f: "field_base f + 2 \<le> off" "rd (msg_bytes p) (off - 1) = Some l"
      "off + unat l \<le> field_base f + field_len f" by blast
    then have "off + unat l \<le> 548" by (cases f) auto
    then have v: "rd_n (msg_bytes p) off (unat l) = Some (take (unat l) (drop off (msg_bytes p)))"
      using wf by (simp add: rd_n_def)
    have ov: "option_value p DHCP_VENDOR = Some (Some (take (unat l) (drop off (msg_bytes p))))"
      using r Some f(2) v by (simp add: option_value_def)
    show ?thesis
      unfolding get_packet_def option.case Let_def p_def [symmetric] n r Some
      using wf f(2) v by (cases "unat l = length broken_vendor") (simp_all add: ck ov)
  qed
qed

theorem get_packet_short_witness: "\<exists>r. get_packet (Some []) = Some r"
  using get_packet_short [of "[]"] by auto

end
