(* ===== verification/C_Lib.thy ===== *)
theory C_Lib
  imports Wire_Prelude
begin

text \<open>
  The parts of the C library the daemons use on text, modelled on byte strings without their
  terminating NUL.  \<open>inet_aton\<close>, \<open>inet_ntoa\<close> and \<open>strtok\<close> follow the sources under
  \<^verbatim>\<open>src/uClibc\<close>; the character classes, number conversions and \<^verbatim>\<open>printf\<close> directives follow the
  C standard in the C locale.
\<close>

section \<open>Characters\<close>

definition isdigit :: "u8 \<Rightarrow> bool" where
  "isdigit c \<longleftrightarrow> 48 \<le> c \<and> c \<le> 57"

definition isspace :: "u8 \<Rightarrow> bool" where
  "isspace c \<longleftrightarrow> c = 32 \<or> (9 \<le> c \<and> c \<le> 13)"

definition isupper :: "u8 \<Rightarrow> bool" where
  "isupper c \<longleftrightarrow> 65 \<le> c \<and> c \<le> 90"

definition islower :: "u8 \<Rightarrow> bool" where
  "islower c \<longleftrightarrow> 97 \<le> c \<and> c \<le> 122"

definition isalnum :: "u8 \<Rightarrow> bool" where
  "isalnum c \<longleftrightarrow> isdigit c \<or> isupper c \<or> islower c"

definition tolower :: "u8 \<Rightarrow> u8" where
  "tolower c = (if isupper c then c + 32 else c)"

definition strcaseeq :: "bytes \<Rightarrow> bytes \<Rightarrow> bool" where
  "strcaseeq a b \<longleftrightarrow> map tolower a = map tolower b"

text \<open>\<^verbatim>\<open>strncasecmp(a, b, n) == 0\<close>.\<close>

definition strncaseeq :: "bytes \<Rightarrow> bytes \<Rightarrow> nat \<Rightarrow> bool" where
  "strncaseeq a b n \<longleftrightarrow> strcaseeq (take n a) (take n b)"

section \<open>Tokens\<close>

definition strspn :: "bytes \<Rightarrow> bytes \<Rightarrow> nat" where
  "strspn s accept = length (takeWhile (\<lambda>c. c \<in> set accept) s)"

definition strcspn :: "bytes \<Rightarrow> bytes \<Rightarrow> nat" where
  "strcspn s reject = length (takeWhile (\<lambda>c. c \<notin> set reject) s)"

text \<open>
  The argument is the string to scan (\<^verbatim>\<open>s1\<close>, or the saved \<^verbatim>\<open>next_start\<close>, \<^term>\<open>None\<close> for NULL); the result
  is the token and the new \<^verbatim>\<open>next_start\<close>.
\<close>

definition strtok :: "bytes option \<Rightarrow> bytes \<Rightarrow> bytes option \<times> bytes option" where
  "strtok s delim =
     (case s of
        None \<Rightarrow> (None, None)
      | Some cs \<Rightarrow>
          let t = dropWhile (\<lambda>c. c \<in> set delim) cs in
          if t = [] then (None, None)
          else (Some (takeWhile (\<lambda>c. c \<notin> set delim) t),
                case dropWhile (\<lambda>c. c \<notin> set delim) t of [] \<Rightarrow> None | c # r \<Rightarrow> Some r))"

lemma strtok_word:
  assumes "w \<noteq> []" "\<forall>c\<in>set w. c \<notin> set delim" "c \<in> set delim"
  shows "strtok (Some (w @ c # r)) delim = (Some w, Some r)"
    and "strtok (Some w) delim = (Some w, None)"
proof -
  have lead: "dropWhile (\<lambda>c. c \<in> set delim) (w @ ys) = w @ ys" for ys
    using assms(1,2) by (cases w) auto
  have tail: "takeWhile (\<lambda>c. c \<notin> set delim) (w @ c # r) = w"
    "dropWhile (\<lambda>c. c \<notin> set delim) (w @ c # r) = c # r"
    using assms(2,3) by (auto simp: takeWhile_append2 dropWhile_append2)
  have all: "takeWhile (\<lambda>c. c \<notin> set delim) w = w" "dropWhile (\<lambda>c. c \<notin> set delim) w = []"
    using assms(2) by (auto simp: takeWhile_eq_all_conv dropWhile_eq_Nil_conv)
  show "strtok (Some (w @ c # r)) delim = (Some w, Some r)"
    using assms(1) unfolding strtok_def by (simp add: lead tail)
  show "strtok (Some w) delim = (Some w, None)"
    using assms(1) lead [of "[]"] unfolding strtok_def by (simp add: all)
qed

section \<open>Printing\<close>

fun dec :: "nat \<Rightarrow> bytes" where
  "dec n = (if n < 10 then [48 + of_nat n] else dec (n div 10) @ [48 + of_nat (n mod 10)])"

declare dec.simps [simp del]

definition dec_int :: "int \<Rightarrow> bytes" where
  "dec_int i = (if i < 0 then 45 # dec (nat (- i)) else dec (nat i))"

definition hex_digit :: "u8 \<Rightarrow> u8" where
  "hex_digit n = (if n < 10 then 48 + n else 87 + n)"

text \<open>\<^verbatim>\<open>%02x\<close> of a byte.\<close>

definition hex2 :: "u8 \<Rightarrow> bytes" where
  "hex2 b = [hex_digit (drop_bit 4 b), hex_digit (b AND 15)]"

definition inet_ntoa :: "u32 \<Rightarrow> bytes" where
  "inet_ntoa s_addr =
     (let addr = ntohl s_addr in
      dec (unat (drop_bit 24 addr AND 0xff)) @ [46] @ dec (unat (drop_bit 16 addr AND 0xff)) @ [46] @
      dec (unat (drop_bit 8 addr AND 0xff)) @ [46] @ dec (unat (addr AND 0xff)))"

lemma dec_digits: "\<forall>c\<in>set (dec n). isdigit c"
proof (induction n rule: dec.induct)
  case (1 n)
  have d: "isdigit (48 + of_nat m)" if "m < 10" for m :: nat
  proof -
    have "m \<in> {0, 1, 2, 3, 4, 5, 6, 7, 8, 9}" using that by auto
    then show ?thesis by (auto simp: isdigit_def)
  qed
  with 1 show ?case by (subst dec.simps) auto
qed

lemma dec_nonempty [simp]: "dec n \<noteq> []"
  by (subst dec.simps) simp

lemma length_dec_le: "n < 10 ^ k \<Longrightarrow> 0 < k \<Longrightarrow> length (dec n) \<le> k"
proof (induction k arbitrary: n)
  case (Suc k)
  show ?case
  proof (cases "n < 10")
    case True
    then show ?thesis by (subst dec.simps) simp
  next
    case False
    with Suc.prems have "0 < k" by (cases k) auto
    moreover have "n div 10 < 10 ^ k" using Suc.prems by (simp add: less_mult_imp_div_less)
    ultimately have "length (dec (n div 10)) \<le> k" using Suc.IH by blast
    with False show ?thesis by (subst dec.simps) simp
  qed
qed simp

lemma length_dec_byte: "length (dec (unat (b :: u8))) \<le> 3"
proof -
  have "unat b < 10 ^ 3" using unat_u8_le [of b] by simp
  then show ?thesis by (rule length_dec_le) simp
qed

lemma length_dec_u32: "length (dec (unat (w :: u32))) \<le> 10"
proof -
  have "unat w < 10 ^ 10" using unat_u32_less [of w] by simp
  then show ?thesis by (rule length_dec_le) simp
qed

lemma length_dec_int32: "length (dec_int (sint (w :: u32))) \<le> 11"
proof -
  have "- (2 ^ 31) \<le> sint w" "sint w < 2 ^ 31"
    using sint_ge [of w] sint_lt [of w] by simp_all
  then have "nat (- sint w) < 10 ^ 10" "nat (sint w) < 10 ^ 10" by simp_all
  then have "length (dec (nat (- sint w))) \<le> 10" "length (dec (nat (sint w))) \<le> 10"
    by (auto intro: length_dec_le)
  then show ?thesis by (simp add: dec_int_def)
qed

lemma length_hex2 [simp]: "length (hex2 b) = 2"
  by (simp add: hex2_def)

section \<open>Dotted quads\<close>

fun aton_digits :: "nat \<Rightarrow> bytes \<Rightarrow> (nat \<times> bytes) option" where
  "aton_digits v [] = Some (v, [])"
| "aton_digits v (c # cp) =
     (if isdigit c then
        let v' = v * 10 + unat (c - 48) in
        if 255 < v' then None else aton_digits v' cp
      else Some (v, c # cp))"

text \<open>\<open>aton_parts k\<close> runs the loop for the last \<open>k\<close> parts.\<close>

fun aton_parts :: "nat \<Rightarrow> u32 \<Rightarrow> bytes \<Rightarrow> u32 option" where
  "aton_parts 0 addr cp = Some addr"
| "aton_parts (Suc k) addr [] = None"
| "aton_parts (Suc k) addr (c # cp) =
     (if \<not> isdigit c then None
      else case aton_digits 0 (c # cp) of
        None \<Rightarrow> None
      | Some (v, rest) \<Rightarrow>
          let addr' = push_bit 8 addr OR of_nat v in
          if k \<noteq> 0 then
            (case rest of [] \<Rightarrow> None | d # r \<Rightarrow> if d \<noteq> 46 then None else aton_parts k addr' r)
          else (case rest of [] \<Rightarrow> Some addr' | d # r \<Rightarrow> if isspace d then Some addr' else None))"

definition inet_aton :: "bytes \<Rightarrow> u32 option" where
  "inet_aton cp = map_option htonl (aton_parts 4 0 cp)"

subsection \<open>Printing and reading an address back\<close>

lemma digit_val: "m < 10 \<Longrightarrow> unat (48 + of_nat m - 48 :: u8) = m"
  by simp

lemma digit_isdigit: "m < 10 \<Longrightarrow> isdigit (48 + of_nat m)"
  using dec_digits [of m] by (subst (asm) dec.simps) simp

lemma aton_digits_dec:
  assumes "n \<le> 255" "rest = [] \<or> \<not> isdigit (hd rest)"
  shows "aton_digits 0 (dec n @ rest) = Some (n, rest)"
proof -
  have stop: "aton_digits v rest = Some (v, rest)" for v
    using assms(2) by (cases rest) auto
  consider "n < 10" | "10 \<le> n" "n < 100" | "100 \<le> n" by linarith
  then show ?thesis
  proof cases
    case 1
    then show ?thesis
      by (subst dec.simps) (simp add: stop digit_isdigit Let_def)
  next
    case 2
    then have "dec n = [48 + of_nat (n div 10), 48 + of_nat (n mod 10)]"
      by (subst dec.simps, subst dec.simps) simp
    with 2 assms(1) show ?thesis by (simp add: stop digit_isdigit Let_def)
  next
    case 3
    have small: "n div 10 div 10 < 10" "\<not> n div 10 < 10" "n div 10 div 10 * 10 + n div 10 mod 10 = n div 10"
      using 3 assms(1) by auto
    then have "dec n = [48 + of_nat (n div 10 div 10), 48 + of_nat (n div 10 mod 10), 48 + of_nat (n mod 10)]"
      using 3 by (subst dec.simps, subst dec.simps, subst dec.simps) (simp del: div_mult2_eq div_mult2_numeral_eq)
    moreover have "n div 10 * 10 + n mod 10 = n" by simp
    moreover have "n div 10 \<le> 255" using assms(1) by simp
    ultimately show ?thesis using small assms(1) by (simp add: stop digit_isdigit Let_def)
  qed
qed

lemma aton_parts_dec:
  assumes "n \<le> 255" "rest = [] \<or> \<not> isdigit (hd rest)"
  shows "aton_parts (Suc k) addr (dec n @ rest) =
    (let addr' = push_bit 8 addr OR of_nat n in
          if k \<noteq> 0 then
            (case rest of [] \<Rightarrow> None | d # r \<Rightarrow> if d \<noteq> 46 then None else aton_parts k addr' r)
          else (case rest of [] \<Rightarrow> Some addr' | d # r \<Rightarrow> if isspace d then Some addr' else None))"
proof -
  obtain c cs where c: "dec n = c # cs" by (metis dec_nonempty neq_Nil_conv)
  then have "isdigit c" using dec_digits [of n] by simp
  with c aton_digits_dec [OF assms] show ?thesis by simp
qed

lemma quad_word:
  "push_bit 8 (push_bit 8 (push_bit 8 (drop_bit 24 w AND 255) OR (drop_bit 16 w AND 255)) OR
     (drop_bit 8 w AND 255)) OR (w AND 255) = (w :: u32)"
proof (rule bit_word_eqI)
  fix n assume "n < LENGTH(32)"
  then have "n < 32" by simp
  have m: "255 = (mask 8 :: u32)" by (simp add: mask_eq_exp_minus_1)
  show "bit (push_bit 8 (push_bit 8 (push_bit 8 (drop_bit 24 w AND 255) OR (drop_bit 16 w AND 255)) OR
     (drop_bit 8 w AND 255)) OR (w AND 255)) n = bit w n"
    unfolding m using \<open>n < 32\<close> 
    by (cases "n < 8"; cases "n < 16"; cases "n < 24") (auto simp: bit_simps)
qed

lemma unat_low_byte: "unat (w AND 255 :: u32) \<le> 255"
proof -
  have "w AND 255 \<le> 255" by (rule word_and_le1)
  then show ?thesis by (simp add: word_le_nat_alt)
qed

lemma inet_aton_ntoa: "inet_aton (inet_ntoa w) = Some w"
proof -
  let ?a = "ntohl w"
  have nd: "\<not> isdigit 46" by (simp add: isdigit_def)
  have four: "(4 :: nat) = Suc (Suc (Suc (Suc 0)))" by simp
  have "aton_parts 4 0 (inet_ntoa w) = Some (push_bit 8 (push_bit 8 (push_bit 8 (drop_bit 24 ?a AND 255) OR
      (drop_bit 16 ?a AND 255)) OR (drop_bit 8 ?a AND 255)) OR (?a AND 255))"
    unfolding inet_ntoa_def Let_def four
    using aton_parts_dec [OF unat_low_byte, of "[]"] by (simp add: aton_parts_dec unat_low_byte nd Let_def)
  then have "aton_parts 4 0 (inet_ntoa w) = Some ?a" by (simp only: quad_word)
  then show ?thesis by (simp add: inet_aton_def)
qed

section \<open>Number conversions\<close>

definition digit_value :: "u8 \<Rightarrow> nat" where
  "digit_value c =
     (if isdigit c then unat (c - 48)
      else if islower c then unat (c - 87)
      else if isupper c then unat (c - 55) else 36)"

fun digits :: "nat \<Rightarrow> nat \<Rightarrow> bytes \<Rightarrow> nat \<times> bytes" where
  "digits base v [] = (v, [])"
| "digits base v (c # cs) =
     (if digit_value c < base then digits base (v * base + digit_value c) cs else (v, c # cs))"

text \<open>
  The common part of \<^verbatim>\<open>strtoul\<close>, \<^verbatim>\<open>strtol\<close> and the \<^verbatim>\<open>scanf\<close> conversions: white space, sign, prefix and
  digits.  The result is the sign, the value and the rest; \<^term>\<open>None\<close> if there is no number.
\<close>

definition skip_sign :: "bytes \<Rightarrow> bytes" where
  "skip_sign s = (if s \<noteq> [] \<and> (hd s = 45 \<or> hd s = 43) then tl s else s)"

definition has_0x :: "bytes \<Rightarrow> bool" where
  "has_0x s \<longleftrightarrow> 2 < length s \<and> s ! 0 = 48 \<and> (s ! 1 = 120 \<or> s ! 1 = 88) \<and> digit_value (s ! 2) < 16"

definition scan_number :: "nat \<Rightarrow> bytes \<Rightarrow> (bool \<times> nat \<times> bytes) option" where
  "scan_number base s =
     (let s1 = dropWhile isspace s;
          s2 = skip_sign s1;
          b = (if base \<noteq> 0 then base else if has_0x s2 then 16 else if s2 \<noteq> [] \<and> hd s2 = 48 then 8 else 10);
          s3 = (if b = 16 \<and> has_0x s2 then drop 2 s2 else s2) in
      if s3 = [] \<or> b \<le> digit_value (hd s3) then None
      else Some (s1 \<noteq> [] \<and> hd s1 = 45, fst (digits b 0 s3), snd (digits b 0 s3)))"

definition clamp_unsigned :: "bool \<Rightarrow> nat \<Rightarrow> u32" where
  "clamp_unsigned neg v =
     (if 4294967295 < v then - 1 else if neg then - of_nat v else of_nat v)"

definition strtoul :: "nat \<Rightarrow> bytes \<Rightarrow> u32 \<times> bytes" where
  "strtoul base s = (case scan_number base s of None \<Rightarrow> (0, s) | Some (neg, v, rest) \<Rightarrow> (clamp_unsigned neg v, rest))"

definition strtol :: "nat \<Rightarrow> bytes \<Rightarrow> u32 \<times> bytes" where
  "strtol base s =
     (case scan_number base s of
        None \<Rightarrow> (0, s)
      | Some (neg, v, rest) \<Rightarrow>
          (if neg then (if 2147483648 < v then 0x80000000 else - of_nat v)
           else if 2147483647 < v then 0x7FFFFFFF else of_nat v, rest))"

lemma digits_append:
  assumes "\<forall>c\<in>set w. digit_value c < base"
  shows "digits base v (w @ r) = digits base (fst (digits base v w)) r"
  using assms by (induction w arbitrary: v) auto

lemma digit_value_dec_digit: "m < 10 \<Longrightarrow> digit_value (48 + of_nat m) = m"
  using digit_isdigit [of m] digit_val [of m] by (simp add: digit_value_def)

lemma dec_digit_values: "\<forall>c\<in>set (dec n). digit_value c < 10"
  by (induction n rule: dec.induct) (subst dec.simps, auto simp: digit_value_dec_digit)

lemma fst_digits_dec: "fst (digits 10 0 (dec n)) = n"
proof (induction n rule: dec.induct)
  case (1 n)
  show ?case
  proof (cases "n < 10")
    case True
    then show ?thesis by (subst dec.simps) (simp add: digit_value_dec_digit)
  next
    case False
    then have "dec n = dec (n div 10) @ [48 + of_nat (n mod 10)]" by (subst dec.simps) simp
    with 1 False show ?thesis
      by (simp add: digits_append [OF dec_digit_values] digit_value_dec_digit)
  qed
qed

lemma digits_stop: "r = [] \<or> base \<le> digit_value (hd r) \<Longrightarrow> digits base v r = (v, r)"
  by (cases r) auto

lemma isspace_32 [simp]: "isspace 32"
  by (simp add: isspace_def)

lemma isdigit_not_isspace: "isdigit c \<Longrightarrow> \<not> isspace c"
proof
  assume "isdigit c" "isspace c"
  then have "48 \<le> c" "c = 32 \<or> c \<le> 13" by (auto simp: isdigit_def isspace_def)
  moreover have "\<not> 48 \<le> (32 :: u8)" by simp
  moreover have "48 \<le> c \<Longrightarrow> c \<le> 13 \<Longrightarrow> 48 \<le> (13 :: u8)" by (rule order_trans)
  ultimately show False by auto
qed

lemma dec_hd: "\<exists>c cs. dec n = c # cs \<and> isdigit c"
  using dec_digits [of n] by (cases "dec n") auto

lemma scan_number_dec:
  assumes "r = [] \<or> 10 \<le> digit_value (hd r)"
  shows "scan_number 10 (dec_int i @ r) = Some (i < 0, nat \<bar>i\<bar>, r)"
proof -
  have d: "digits 10 0 (dec n @ r) = (n, r)" for n
  proof -
    have "digits 10 0 (dec n @ r) = digits 10 n r"
      using digits_append [OF dec_digit_values, of 0 n] by (simp add: fst_digits_dec)
    then show ?thesis using assms by (simp add: digits_stop)
  qed
  have b: "digit_value (hd (dec n @ r)) < 10" "\<not> isspace (hd (dec n @ r))"
    "hd (dec n @ r) \<noteq> 45" "hd (dec n @ r) \<noteq> 43" for n
  proof -
    obtain c cs where c: "dec n = c # cs" "isdigit c" using dec_hd by blast
    then show "digit_value (hd (dec n @ r)) < 10" using dec_digit_values [of n] by simp
    show "\<not> isspace (hd (dec n @ r))" using c by (simp add: isdigit_not_isspace)
    show "hd (dec n @ r) \<noteq> 45" "hd (dec n @ r) \<noteq> 43" using c by (auto simp: isdigit_def)
  qed
  have sp: "dropWhile isspace (dec n @ r) = dec n @ r" for n
    using b(2) [of n] by (cases "dec n") auto
  have m: "\<not> isspace 45" by (simp add: isspace_def)
  show ?thesis
  proof (cases "i < 0")
    case True
    then have "dec_int i = 45 # dec (nat (- i))" by (simp add: dec_int_def)
    then show ?thesis
      using b [of "nat (- i)"] True by (simp add: scan_number_def Let_def skip_sign_def m d not_le)
  next
    case False
    then have "dec_int i = dec (nat i)" by (simp add: dec_int_def)
    then show ?thesis
      using b [of "nat i"] False by (simp add: scan_number_def Let_def skip_sign_def sp d not_le)
  qed
qed

lemma scan_number_dec_int:
  "scan_number 10 (32 # dec_int i @ 32 # r) = Some (i < 0, nat \<bar>i\<bar>, 32 # r)"
proof -
  have "10 \<le> digit_value 32" by (simp add: digit_value_def isdigit_def islower_def isupper_def)
  then have "scan_number 10 (dec_int i @ 32 # r) = Some (i < 0, nat \<bar>i\<bar>, 32 # r)" by (intro scan_number_dec) simp
  then show ?thesis by (simp add: scan_number_def)
qed

lemma strtol_dec:
  assumes "r = [] \<or> 10 \<le> digit_value (hd r)"
  shows "strtol 10 (dec_int (sint t) @ r) = (t, r)"
proof -
  have b: "- (2 ^ 31) \<le> sint t" "sint t < 2 ^ 31" using sint_ge [of t] sint_lt [of t] by simp_all
  have w: "word_of_int (sint t) = t" by simp
  show ?thesis
  proof (cases "sint t < 0")
    case True
    then have "of_nat (nat \<bar>sint t\<bar>) = - (word_of_int (sint t) :: u32)" by simp
    moreover have "\<not> 2147483648 < nat \<bar>sint t\<bar>" using True b(1) by (simp add: not_less nat_le_iff)
    ultimately show ?thesis using True b w scan_number_dec [OF assms, of "sint t"] by (simp add: strtol_def)
  next
    case False
    then have "of_nat (nat \<bar>sint t\<bar>) = (word_of_int (sint t) :: u32)" by simp
    moreover have "\<not> 2147483647 < nat \<bar>sint t\<bar>" using False b(2) by (simp add: not_less nat_le_iff)
    ultimately show ?thesis using False b w scan_number_dec [OF assms, of "sint t"] by (simp add: strtol_def)
  qed
qed

lemma clamp_sint: "clamp_unsigned (sint t < 0) (nat \<bar>sint t\<bar>) = t"
proof -
  have r: "- (2 ^ 31) \<le> sint t" "sint t < 2 ^ 31" using sint_ge [of t] sint_lt [of t] by simp_all
  have w: "word_of_int (sint t) = t" by simp
  show ?thesis
  proof (cases "sint t < 0")
    case True
    then have "of_nat (nat \<bar>sint t\<bar>) = - (word_of_int (sint t) :: u32)" by simp
    moreover have "\<not> 4294967295 < nat \<bar>sint t\<bar>" using r by simp
    ultimately show ?thesis using True w by (simp add: clamp_unsigned_def)
  next
    case False
    then have "of_nat (nat \<bar>sint t\<bar>) = (word_of_int (sint t) :: u32)" by simp
    moreover have "\<not> 4294967295 < nat \<bar>sint t\<bar>" using r by simp
    ultimately show ?thesis using False w by (simp add: clamp_unsigned_def)
  qed
qed

section \<open>Strings and files\<close>

text \<open>\<^verbatim>\<open>strncpy(dst, src, n)\<close> pads with NULs up to \<open>n\<close> characters.\<close>

definition strncpy :: "bytes \<Rightarrow> bytes \<Rightarrow> nat \<Rightarrow> bytes" where
  "strncpy dst src n = take n (src @ replicate n 0) @ drop n dst"

lemma length_strncpy [simp]: "n \<le> length dst \<Longrightarrow> length (strncpy dst src n) = length dst"
  by (simp add: strncpy_def)

text \<open>
  \<^verbatim>\<open>fgets(buffer, n, in)\<close>: at most \<open>n - 1\<close> characters, up to and including a newline.  The result is the
  line and the rest of the input; at the end of the input \<^verbatim>\<open>fgets\<close> returns NULL, which the callers test
  as an empty input.
\<close>

definition fgets :: "nat \<Rightarrow> bytes \<Rightarrow> bytes \<times> bytes" where
  "fgets n inp =
     (let w = takeWhile (\<lambda>c. c \<noteq> 10) (take (n - 1) inp) in
      if length w < min (n - 1) (length inp) then (w @ [10], drop (length w + 1) inp) else (w, drop (length w) inp))"

lemma fgets_shorter: "inp \<noteq> [] \<Longrightarrow> 1 < n \<Longrightarrow> length (snd (fgets n inp)) < length inp"
proof -
  assume "inp \<noteq> []" "1 < n"
  then have "0 < length inp" "0 < n - 1" by simp_all
  moreover define w where "w = takeWhile (\<lambda>c. c \<noteq> 10) (take (n - 1) inp)"
  moreover have "length w \<le> length inp" unfolding w_def
    using length_takeWhile_le [of "\<lambda>c. c \<noteq> 10" "take (n - 1) inp"] by simp
  ultimately show ?thesis unfolding fgets_def Let_def w_def [symmetric] by (auto split: if_split)
qed

lemma fgets_line:
  assumes "10 \<notin> set x" "length x + 1 < n"
  shows "fgets n (x @ 10 # rest) = (x @ [10], rest)"
proof -
  have "take (n - 1) (x @ 10 # rest) = x @ 10 # take (n - 1 - length x - 1) rest"
    using assms(2) by (simp add: take_Cons')
  moreover have "takeWhile (\<lambda>c. c \<noteq> 10) (x @ 10 # r) = x" for r using assms(1) by (induction x) auto
  ultimately show ?thesis using assms(2) by (simp add: fgets_def Let_def)
qed

end
