(* ===== verification/Dhcp_Leases.thy ===== *)
theory Dhcp_Leases
  imports Dhcp_Packet C_Lib
begin

text \<open>
  \<^verbatim>\<open>src/udhcp/leases.c\<close> and \<^verbatim>\<open>src/udhcp/arpping.c\<close>: the table of offered and leased addresses of one
  interface, the search for a free address, and the ARP probe it relies on.

  The table is the list \<open>c_leases\<close>; its length is \<open>c_max_leases\<close>, the size it is allocated with.  A
  pointer into it is an index.  The server state \<open>srv\<close> holds the configuration of the interface
  with its table, the clock and the effects so far.  The clock is read by \<^verbatim>\<open>time(0)\<close> and advances
  while an ARP probe waits; a handler that does not wait runs within one second.
\<close>

section \<open>State\<close>

record dhcpOfferedAddr =
  l_chaddr :: bytes
  l_yiaddr :: u32
  l_expires :: u32
  l_hostname :: bytes

record server_config_t =
  c_server :: u32
  c_start :: u32
  c_end :: u32
  c_options :: "bytes list"
  c_interface :: bytes
  c_ifindex :: int
  c_arp :: bytes
  c_lease :: u32
  c_max_leases :: u32
  c_remaining :: bool
  c_auto_time :: u32
  c_decline_time :: u32
  c_conflict_time :: u32
  c_offer_time :: u32
  c_min_lease :: u32
  c_lease_file :: bytes
  c_pidfile :: bytes
  c_notify_file :: "bytes option"
  c_siaddr :: u32
  c_sname :: "bytes option"
  c_boot_file :: "bytes option"
  c_active :: bool
  c_inflease_time :: u32
  c_leases :: "dhcpOfferedAddr list"

text \<open>The effects: a line for the delta file, a frame or datagram, a lease file, a notify command.\<close>

datatype srv_event =
    Delta bytes
  | Tx tx
  | LeaseFile bytes
  | Notify bytes

record srv =
  s_cfg :: server_config_t
  s_now :: u32
  s_out :: "srv_event list"

abbreviation s_leases :: "srv \<Rightarrow> dhcpOfferedAddr list" where
  "s_leases s \<equiv> c_leases (s_cfg s)"

definition set_leases :: "srv \<Rightarrow> dhcpOfferedAddr list \<Rightarrow> srv" where
  "set_leases s ls = s\<lparr>s_cfg := (s_cfg s)\<lparr>c_leases := ls\<rparr>\<rparr>"

definition emit :: "srv \<Rightarrow> srv_event list \<Rightarrow> srv" where
  "emit s es = s\<lparr>s_out := s_out s @ es\<rparr>"

definition zero_lease :: dhcpOfferedAddr where
  "zero_lease = \<lparr> l_chaddr = replicate 16 0, l_yiaddr = 0, l_expires = 0, l_hostname = [] \<rparr>"

section \<open>The ARP probe\<close>

text \<open>
  \<open>arp_event\<close> is what one round of the wait loop sees: \<^verbatim>\<open>select\<close> fails (interrupted or not), times
  out, or reports data, which \<^verbatim>\<open>recv\<close> then delivers (\<^term>\<open>None\<close> for an error).  Each event carries the
  seconds the round took.
\<close>

datatype arp_event =
    SelectError bool
  | Quiet
  | Data "bytes option"

record arp_io =
  ai_socket :: bool
  ai_setsockopt :: bool
  ai_sendto :: bool
  ai_events :: "(arp_event \<times> nat) list"

abbreviation (input) ETH_P_ARP :: u16 where "ETH_P_ARP \<equiv> 0x0806"
abbreviation (input) ETH_P_IP :: u16 where "ETH_P_IP \<equiv> 0x0800"
abbreviation (input) ARPHRD_ETHER :: u16 where "ARPHRD_ETHER \<equiv> 1"
abbreviation (input) ARPOP_REQUEST :: u16 where "ARPOP_REQUEST \<equiv> 1"
abbreviation (input) ARPOP_REPLY :: u16 where "ARPOP_REPLY \<equiv> 2"

text \<open>The 60-byte \<^verbatim>\<open>struct arpMsg\<close> of a request.\<close>

definition arp_request :: "u32 \<Rightarrow> u32 \<Rightarrow> bytes \<Rightarrow> bytes" where
  "arp_request yiaddr ip mac =
     MAC_BCAST_ADDR @ take 6 mac @ le16 (htons ETH_P_ARP) @ le16 (htons ARPHRD_ETHER) @ le16 (htons ETH_P_IP) @
     [6, 4] @ le16 (htons ARPOP_REQUEST) @ take 6 mac @ le32 ip @ replicate 6 0 @ le32 yiaddr @ replicate 18 0"

definition arp_match :: "bytes \<Rightarrow> u32 \<Rightarrow> bytes \<Rightarrow> bool" where
  "arp_match arp yiaddr mac \<longleftrightarrow>
     of_le16 (arp ! 20) (arp ! 21) = htons ARPOP_REPLY \<and> take 6 (drop 32 arp) = take 6 mac \<and>
     of_le32 (arp ! 28) (arp ! 29) (arp ! 30) (arp ! 31) = yiaddr"

text \<open>
  The loop ends with the return value, the source address of the reply if there was one, and the
  time spent.  \<^term>\<open>None\<close>: the loop has not ended by the last event.
\<close>

fun arp_wait ::
    "u32 \<Rightarrow> bytes \<Rightarrow> int \<Rightarrow> int \<Rightarrow> bytes \<Rightarrow> nat \<Rightarrow> (arp_event \<times> nat) list \<Rightarrow> (int \<times> bytes option \<times> nat) option" where
  "arp_wait yiaddr mac timeout rv arp spent evs =
     (if timeout \<le> 0 then Some (rv, None, spent)
      else case evs of
        [] \<Rightarrow> None
      | (SelectError eintr, t) # r \<Rightarrow>
          arp_wait yiaddr mac (timeout - int t) (if eintr then rv else 0) arp (spent + t) r
      | (Quiet, t) # r \<Rightarrow> arp_wait yiaddr mac (timeout - int t) rv arp (spent + t) r
      | (Data d, t) # r \<Rightarrow>
          let rv' = (case d of None \<Rightarrow> 0 | Some _ \<Rightarrow> rv);
              arp' = (case d of None \<Rightarrow> arp | Some b \<Rightarrow> take 60 b @ drop (length b) arp) in
          if arp_match arp' yiaddr mac then Some (0, Some (take 6 (drop 6 arp')), spent + t)
          else arp_wait yiaddr mac (timeout - int t) rv' arp' (spent + t) r)"

declare arp_wait.simps [simp del]

definition arpping :: "arp_io \<Rightarrow> u32 \<Rightarrow> u32 \<Rightarrow> bytes \<Rightarrow> bytes \<Rightarrow> (int \<times> bytes option \<times> nat) option" where
  "arpping io yiaddr ip mac interface =
     (if \<not> ai_socket io then Some (- 1, None, 0)
      else if \<not> ai_setsockopt io then Some (- 1, None, 0)
      else if length mac < 6 \<or> 14 \<le> length interface then None
      else arp_wait yiaddr mac 2 (if ai_sendto io then 1 else 0) (arp_request yiaddr ip mac) 0 (ai_events io))"

text \<open>
  What the server cannot see: the outcome of a probe of an address at a time, the 16 bytes of stack
  memory at \<^verbatim>\<open>hwaddr\<close> before the probe, whether the delta file and the lease file open for writing, and
  the outcome of sending.
\<close>

record srv_env =
  e_arp :: "u32 \<Rightarrow> u32 \<Rightarrow> arp_io"
  e_stack :: "u32 \<Rightarrow> u32 \<Rightarrow> bytes"
  e_delta :: bool
  e_lease_file :: bool
  e_tx :: tx_io

section \<open>The lease table\<close>

definition clear_lease :: "bytes \<Rightarrow> u32 \<Rightarrow> dhcpOfferedAddr list \<Rightarrow> dhcpOfferedAddr list" where
  "clear_lease chaddr yiaddr ls =
     map (\<lambda>l. if (\<exists>b\<in>set chaddr. b \<noteq> 0) \<and> l_chaddr l = chaddr \<or> yiaddr \<noteq> 0 \<and> l_yiaddr l = yiaddr
              then zero_lease else l) ls"

datatype lease_action = LEASE_ADD | LEASE_DEL

definition print_mac :: "bytes \<Rightarrow> bytes" where
  "print_mac a = hex2 (a ! 0) @ [58] @ hex2 (a ! 1) @ [58] @ hex2 (a ! 2) @ [58] @
     hex2 (a ! 3) @ [58] @ hex2 (a ! 4) @ [58] @ hex2 (a ! 5)"

definition delta_line :: "bytes \<Rightarrow> u32 \<Rightarrow> bytes \<Rightarrow> u32 \<Rightarrow> lease_action \<Rightarrow> bytes" where
  "delta_line chaddr yiaddr hname leasetime action =
     (case action of LEASE_ADD \<Rightarrow> cstr ''ADD'' | LEASE_DEL \<Rightarrow> cstr ''DEL'') @ [32] @ print_mac chaddr @ [32] @
     inet_ntoa yiaddr @ [32] @ dec (unat leasetime) @ [32] @ hname"

definition write_to_delta ::
    "srv_env \<Rightarrow> srv \<Rightarrow> bytes \<Rightarrow> u32 \<Rightarrow> bytes \<Rightarrow> u32 \<Rightarrow> lease_action \<Rightarrow> srv option" where
  "write_to_delta env s chaddr yiaddr hname leasetime action =
     (if \<not> e_delta env then Some s
      else let line = delta_line chaddr yiaddr hname leasetime action in
        if length line < 80 then Some (emit s [Delta line]) else None)"

definition zerohwaddr :: "bytes \<Rightarrow> bool" where
  "zerohwaddr chaddr \<longleftrightarrow> (\<forall>b\<in>set (take 6 chaddr). b = 0)"

definition lease_expired :: "srv \<Rightarrow> dhcpOfferedAddr \<Rightarrow> bool" where
  "lease_expired s l = (if l_expires l \<noteq> c_inflease_time (s_cfg s) then l_expires l < s_now s else False)"

fun oldest_loop :: "u32 \<Rightarrow> u32 \<Rightarrow> nat option \<Rightarrow> nat \<Rightarrow> dhcpOfferedAddr list \<Rightarrow> nat option" where
  "oldest_loop inft oldest_lease oldest i [] = oldest"
| "oldest_loop inft oldest_lease oldest i (l # ls) =
     (if l_expires l = inft then oldest_loop inft oldest_lease oldest (i + 1) ls
      else if l_expires l < oldest_lease then oldest_loop inft (l_expires l) (Some i) (i + 1) ls
      else oldest_loop inft oldest_lease oldest (i + 1) ls)"

definition oldest_expired_lease :: "srv \<Rightarrow> nat option" where
  "oldest_expired_lease s = oldest_loop (c_inflease_time (s_cfg s)) (s_now s) None 0 (s_leases s)"

definition add_lease :: "srv_env \<Rightarrow> srv \<Rightarrow> bytes \<Rightarrow> u32 \<Rightarrow> u32 \<Rightarrow> bytes \<Rightarrow> (srv \<times> nat option) option" where
  "add_lease env s chaddr yiaddr lease hname =
     (let s1 = (if \<not> zerohwaddr chaddr then set_leases s (clear_lease chaddr yiaddr (s_leases s)) else s) in
      case oldest_expired_lease s1 of
        None \<Rightarrow> Some (s1, None)
      | Some i \<Rightarrow>
          if 50 \<le> length hname then None
          else do {
            s2 \<leftarrow> Some (set_leases s1 ((s_leases s1)[i := \<lparr> l_chaddr = chaddr, l_yiaddr = yiaddr,
              l_expires = (if lease \<noteq> c_inflease_time (s_cfg s) then s_now s + lease else c_inflease_time (s_cfg s)),
              l_hostname = hname \<rparr>]));
            s3 \<leftarrow> write_to_delta env s2 chaddr yiaddr hname lease LEASE_ADD;
            Some (s3, Some i) })"

definition find_lease_by_chaddr :: "srv \<Rightarrow> bytes \<Rightarrow> nat option" where
  "find_lease_by_chaddr s chaddr = first_idx (\<lambda>l. l_chaddr l = chaddr) (s_leases s)"

definition find_lease_by_yiaddr :: "srv \<Rightarrow> u32 \<Rightarrow> nat option" where
  "find_lease_by_yiaddr s yiaddr = first_idx (\<lambda>l. l_yiaddr l = yiaddr) (s_leases s)"

section \<open>Finding an address\<close>

text \<open>
  \<^verbatim>\<open>check_ip\<close> hands the 6-byte array \<^verbatim>\<open>hwaddr\<close> to \<^verbatim>\<open>add_lease\<close>, which reads 16 bytes from it; the model
  gives it the 16 bytes of the stack from \<^verbatim>\<open>hwaddr\<close> on, the first 6 overwritten by a reply.
\<close>

definition hw_bytes :: "srv_env \<Rightarrow> u32 \<Rightarrow> u32 \<Rightarrow> bytes option \<Rightarrow> bytes" where
  "hw_bytes env addr t reply =
     (let st = e_stack env addr t in case reply of None \<Rightarrow> st | Some h \<Rightarrow> h @ drop 6 st)"

definition tick :: "nat \<Rightarrow> srv \<Rightarrow> srv" where
  "tick t s = s\<lparr>s_now := s_now s + of_nat t\<rparr>"

definition check_ip :: "srv_env \<Rightarrow> srv \<Rightarrow> u32 \<Rightarrow> (srv \<times> bool) option" where
  "check_ip env s addr = do {
     (rv, reply, t) \<leftarrow> arpping (e_arp env addr (s_now s)) addr (c_server (s_cfg s)) (c_arp (s_cfg s)) (c_interface (s_cfg s));
     if rv = 0 then do {
       (s', r) \<leftarrow> add_lease env (tick t s) (hw_bytes env addr (s_now s) reply) addr (c_conflict_time (s_cfg s)) (cstr ''unknown'');
       Some (s', True) }
     else Some (tick t s, False) }"

text \<open>The loop over the range; the increment wraps, so a range that ends at the largest address has no end.\<close>

partial_function (option) find_address_loop ::
    "srv_env \<Rightarrow> bool \<Rightarrow> srv \<Rightarrow> u32 \<Rightarrow> (srv \<times> u32) option" where
  [code]: "find_address_loop env check_expired s addr =
     (if ntohl (c_end (s_cfg s)) < addr then Some (s, 0)
      else if addr AND 0xFF = 0 then find_address_loop env check_expired s (addr + 1)
      else if addr AND 0xFF = 0xFF then find_address_loop env check_expired s (addr + 1)
      else if (case find_lease_by_yiaddr s (htonl addr) of
                 None \<Rightarrow> True
               | Some i \<Rightarrow> check_expired \<and> lease_expired s (s_leases s ! i))
      then do {
        (s', taken) \<leftarrow> check_ip env s (htonl addr);
        if \<not> taken then Some (s', htonl addr) else find_address_loop env check_expired s' (addr + 1) }
      else find_address_loop env check_expired s (addr + 1))"

definition find_address :: "srv_env \<Rightarrow> bool \<Rightarrow> srv \<Rightarrow> (srv \<times> u32) option" where
  "find_address env check_expired s =
     find_address_loop env check_expired s (ntohl (c_start (s_cfg s)))"

section \<open>Facts\<close>

named_theorems lease_simps \<open>projections of the state updates\<close>

lemma set_leases_simps [lease_simps]:
  "s_leases (set_leases s ls) = ls" "s_now (set_leases s ls) = s_now s" "s_out (set_leases s ls) = s_out s"
  "s_cfg (set_leases s ls) = (s_cfg s)\<lparr>c_leases := ls\<rparr>"
  by (simp_all add: set_leases_def)

lemma emit_simps [lease_simps]:
  "s_cfg (emit s es) = s_cfg s" "s_now (emit s es) = s_now s" "s_out (emit s es) = s_out s @ es"
  by (simp_all add: emit_def)

lemma tick_simps [lease_simps]:
  "s_cfg (tick t s) = s_cfg s" "s_now (tick t s) = s_now s + of_nat t" "s_out (tick t s) = s_out s"
  by (simp_all add: tick_def)

lemma zero_lease_simps [lease_simps]:
  "l_chaddr zero_lease = replicate 16 0" "l_yiaddr zero_lease = 0" "l_expires zero_lease = 0" "l_hostname zero_lease = []"
  by (simp_all add: zero_lease_def)

subsection \<open>Keys that occur once\<close>

definition uniq_key :: "('a \<Rightarrow> 'k) \<Rightarrow> 'k \<Rightarrow> 'a list \<Rightarrow> bool" where
  "uniq_key f z ls \<longleftrightarrow> distinct (filter (\<lambda>k. k \<noteq> z) (map f ls))"

lemma uniq_key_nth:
  "uniq_key f z ls \<longleftrightarrow>
     (\<forall>i<length ls. \<forall>j<length ls. f (ls ! i) = f (ls ! j) \<longrightarrow> f (ls ! i) \<noteq> z \<longrightarrow> i = j)"
proof (induction ls)
  case Nil
  show ?case by (simp add: uniq_key_def)
next
  case (Cons l ls)
  have split: "uniq_key f z (l # ls) \<longleftrightarrow> (\<forall>x\<in>set ls. f x = f l \<longrightarrow> f l = z) \<and> uniq_key f z ls"
    by (auto simp: uniq_key_def image_iff)
  have head: "(\<forall>x\<in>set ls. f x = f l \<longrightarrow> f l = z) \<longleftrightarrow> (\<forall>j<length ls. f (ls ! j) = f l \<longrightarrow> f l = z)"
    by (simp only: all_set_conv_all_nth)
  show ?case
    unfolding split head Cons.IH
    by (simp add: All_less_Suc2 eq_commute [of "f l"] cong: conj_cong)
qed

lemma uniq_key_blank:
  assumes "uniq_key f z ls" "f b = z"
  shows "uniq_key f z (map (\<lambda>l. if P l then b else l) ls)"
  using assms unfolding uniq_key_nth by auto

lemma uniq_key_update:
  assumes "uniq_key f z ls" "\<And>l. l \<in> set ls \<Longrightarrow> f l = f new \<Longrightarrow> f new = z"
  shows "uniq_key f z (ls[i := new])"
  unfolding uniq_key_nth
proof (intro allI impI)
  fix a b
  assume ab: "a < length (ls[i := new])" "b < length (ls[i := new])"
    "f (ls[i := new] ! a) = f (ls[i := new] ! b)" "f (ls[i := new] ! a) \<noteq> z"
  show "a = b"
  proof (cases "i < length ls")
    case True
    with ab assms(2) [of "ls ! a"] assms(2) [of "ls ! b"] assms(1) show ?thesis
      unfolding uniq_key_nth by (auto simp: nth_list_update split: if_splits)
  next
    case False
    with ab assms(1) show ?thesis unfolding uniq_key_nth by (simp add: list_update_beyond)
  qed
qed

subsection \<open>The oldest expired lease\<close>

lemma oldest_loop_cases:
  "oldest_loop inft t best k ls = best \<and> (\<forall>l\<in>set ls. l_expires l \<noteq> inft \<longrightarrow> t \<le> l_expires l) \<or>
   (\<exists>j<length ls. oldest_loop inft t best k ls = Some (k + j) \<and> l_expires (ls ! j) \<noteq> inft \<and>
      l_expires (ls ! j) < t \<and> (\<forall>l\<in>set ls. l_expires l \<noteq> inft \<longrightarrow> l_expires (ls ! j) \<le> l_expires l))"
proof (induction ls arbitrary: t best k)
  case Nil
  show ?case by simp
next
  case (Cons l ls)
  show ?case
  proof (cases "l_expires l \<noteq> inft \<and> l_expires l < t")
    case True
    then have eq: "oldest_loop inft t best k (l # ls) = oldest_loop inft (l_expires l) (Some k) (k + 1) ls" by simp
    from Cons.IH [of "l_expires l" "Some k" "k + 1"] show ?thesis
    proof
      assume "oldest_loop inft (l_expires l) (Some k) (k + 1) ls = Some k \<and>
        (\<forall>x\<in>set ls. l_expires x \<noteq> inft \<longrightarrow> l_expires l \<le> l_expires x)"
      with True eq show ?thesis by (intro disjI2 exI [of _ 0]) simp
    next
      assume "\<exists>j<length ls. oldest_loop inft (l_expires l) (Some k) (k + 1) ls = Some (k + 1 + j) \<and>
        l_expires (ls ! j) \<noteq> inft \<and> l_expires (ls ! j) < l_expires l \<and>
        (\<forall>l\<in>set ls. l_expires l \<noteq> inft \<longrightarrow> l_expires (ls ! j) \<le> l_expires l)"
      then obtain j where "j < length ls" "oldest_loop inft (l_expires l) (Some k) (k + 1) ls = Some (k + 1 + j)"
        "l_expires (ls ! j) \<noteq> inft" "l_expires (ls ! j) < l_expires l"
        "\<forall>l\<in>set ls. l_expires l \<noteq> inft \<longrightarrow> l_expires (ls ! j) \<le> l_expires l" by blast
      with True eq show ?thesis by (intro disjI2 exI [of _ "Suc j"]) (auto intro: less_trans)
    qed
  next
    case False
    then have eq: "oldest_loop inft t best k (l # ls) = oldest_loop inft t best (k + 1) ls" by auto
    from Cons.IH [of t best "k + 1"] show ?thesis
    proof
      assume "oldest_loop inft t best (k + 1) ls = best \<and>
        (\<forall>l\<in>set ls. l_expires l \<noteq> inft \<longrightarrow> t \<le> l_expires l)"
      with False eq show ?thesis by (intro disjI1) auto
    next
      assume "\<exists>j<length ls. oldest_loop inft t best (k + 1) ls = Some (k + 1 + j) \<and>
        l_expires (ls ! j) \<noteq> inft \<and> l_expires (ls ! j) < t \<and>
        (\<forall>l\<in>set ls. l_expires l \<noteq> inft \<longrightarrow> l_expires (ls ! j) \<le> l_expires l)"
      then obtain j where "j < length ls" "oldest_loop inft t best (k + 1) ls = Some (k + 1 + j)"
        "l_expires (ls ! j) \<noteq> inft" "l_expires (ls ! j) < t"
        "\<forall>l\<in>set ls. l_expires l \<noteq> inft \<longrightarrow> l_expires (ls ! j) \<le> l_expires l" by blast
      with False eq show ?thesis by (intro disjI2 exI [of _ "Suc j"]) auto
    qed
  qed
qed

lemma oldest_expired_SomeD:
  assumes "oldest_expired_lease s = Some i"
  shows "i < length (s_leases s)" "lease_expired s (s_leases s ! i)"
    "\<forall>l\<in>set (s_leases s). lease_expired s l \<longrightarrow> l_expires (s_leases s ! i) \<le> l_expires l"
  using oldest_loop_cases [of "c_inflease_time (s_cfg s)" "s_now s" None 0 "s_leases s"] assms
  by (auto simp: oldest_expired_lease_def lease_expired_def)

lemma oldest_expired_None_iff:
  "oldest_expired_lease s = None \<longleftrightarrow> (\<forall>l\<in>set (s_leases s). \<not> lease_expired s l)"
proof (cases "oldest_expired_lease s")
  case None
  then show ?thesis
    using oldest_loop_cases [of "c_inflease_time (s_cfg s)" "s_now s" None 0 "s_leases s"]
    by (auto simp: oldest_expired_lease_def lease_expired_def)
next
  case (Some i)
  with oldest_expired_SomeD(1,2) [OF Some] show ?thesis by auto
qed

subsection \<open>The delta line\<close>

lemma length_print_mac [simp]: "length (print_mac a) = 17"
  by (simp add: print_mac_def)

lemma length_inet_ntoa_le: "length (inet_ntoa w) \<le> 15"
proof -
  have "length (dec (unat (x AND 255 :: u32))) \<le> 3" for x
    using unat_low_byte [of x] by (intro length_dec_le) auto
  from this [of "drop_bit 24 (ntohl w)"] this [of "drop_bit 16 (ntohl w)"] this [of "drop_bit 8 (ntohl w)"]
    this [of "ntohl w"]
  show ?thesis by (simp add: inet_ntoa_def Let_def)
qed

lemma length_delta_line: "length (delta_line chaddr yiaddr hname lease action) \<le> 49 + length hname"
proof -
  have "length (dec (unat lease)) \<le> 10" using unat_u32_less [of lease] by (intro length_dec_le) auto
  with length_inet_ntoa_le [of yiaddr] show ?thesis
    by (simp add: delta_line_def cstr_def split: lease_action.split)
qed

lemma write_to_delta_fits:
  "length hname \<le> 30 \<Longrightarrow> write_to_delta env s chaddr yiaddr hname lease action =
     Some (if e_delta env then emit s [Delta (delta_line chaddr yiaddr hname lease action)] else s)"
  using length_delta_line [of chaddr yiaddr hname lease action] by (simp add: write_to_delta_def Let_def)

subsection \<open>The table invariant\<close>

text \<open>
  \<open>table_ok\<close>: the table has the configured size, its entries respect the array bounds, no address
  is in two entries, and no client is in two entries.
\<close>

definition wf_lease :: "dhcpOfferedAddr \<Rightarrow> bool" where
  "wf_lease l \<longleftrightarrow> length (l_chaddr l) = 16 \<and> length (l_hostname l) < 50"

definition table_ok :: "srv \<Rightarrow> bool" where
  "table_ok s \<longleftrightarrow> length (s_leases s) = unat (c_max_leases (s_cfg s)) \<and> list_all wf_lease (s_leases s) \<and>
     uniq_key l_yiaddr 0 (s_leases s) \<and> uniq_key l_chaddr (replicate 16 0) (s_leases s)"

text \<open>Operations on the table leave the rest of the configuration alone.\<close>

definition same_cfg :: "srv \<Rightarrow> srv \<Rightarrow> bool" where
  "same_cfg s s' \<longleftrightarrow> (\<exists>ls. s_cfg s' = (s_cfg s)\<lparr>c_leases := ls\<rparr> \<and> length ls = length (s_leases s))"

lemma same_cfg_refl [simp]: "same_cfg s s"
  unfolding same_cfg_def by (rule exI [of _ "s_leases s"]) simp

lemma same_cfg_trans:
  assumes "same_cfg s s'" "same_cfg s' s''"
  shows "same_cfg s s''"
proof -
  from assms obtain a b where "s_cfg s' = (s_cfg s)\<lparr>c_leases := a\<rparr>" "length a = length (s_leases s)"
    "s_cfg s'' = (s_cfg s')\<lparr>c_leases := b\<rparr>" "length b = length (s_leases s')"
    unfolding same_cfg_def by blast
  then show ?thesis unfolding same_cfg_def by (intro exI [of _ b]) simp
qed

lemma same_cfg_fields:
  assumes "same_cfg s s'"
  shows "c_server (s_cfg s') = c_server (s_cfg s)" "c_start (s_cfg s') = c_start (s_cfg s)"
    "c_end (s_cfg s') = c_end (s_cfg s)" "c_options (s_cfg s') = c_options (s_cfg s)"
    "c_arp (s_cfg s') = c_arp (s_cfg s)" "c_interface (s_cfg s') = c_interface (s_cfg s)"
    "c_lease (s_cfg s') = c_lease (s_cfg s)" "c_max_leases (s_cfg s') = c_max_leases (s_cfg s)"
    "c_inflease_time (s_cfg s') = c_inflease_time (s_cfg s)" "c_min_lease (s_cfg s') = c_min_lease (s_cfg s)"
    "c_conflict_time (s_cfg s') = c_conflict_time (s_cfg s)" "c_offer_time (s_cfg s') = c_offer_time (s_cfg s)"
    "c_ifindex (s_cfg s') = c_ifindex (s_cfg s)" "length (s_leases s') = length (s_leases s)"
  using assms unfolding same_cfg_def by auto

lemma same_cfg_set_leases: "length ls = length (s_leases s) \<Longrightarrow> same_cfg s (set_leases s ls)"
  unfolding same_cfg_def by (rule exI [of _ ls]) (simp add: lease_simps)

lemma same_cfg_eqI: "s_cfg s' = s_cfg s \<Longrightarrow> same_cfg s s'"
  unfolding same_cfg_def by (rule exI [of _ "s_leases s"]) simp

lemma clear_lease_length [simp]: "length (clear_lease chaddr yiaddr ls) = length ls"
  by (simp add: clear_lease_def)

lemma nth_clear_lease: "i < length ls \<Longrightarrow> clear_lease chaddr yiaddr ls ! i =
    (if (\<exists>b\<in>set chaddr. b \<noteq> 0) \<and> l_chaddr (ls ! i) = chaddr \<or> yiaddr \<noteq> 0 \<and> l_yiaddr (ls ! i) = yiaddr
     then zero_lease else ls ! i)"
  by (simp add: clear_lease_def)

lemma clear_lease_gone:
  assumes "l \<in> set (clear_lease chaddr yiaddr ls)" "length chaddr = 16"
  shows "l_yiaddr l = yiaddr \<Longrightarrow> yiaddr = 0"
    and "l_chaddr l = chaddr \<Longrightarrow> chaddr = replicate 16 0"
proof -
  show "yiaddr = 0" if "l_yiaddr l = yiaddr"
    using assms that by (auto simp: clear_lease_def lease_simps split: if_splits)
  show "chaddr = replicate 16 0" if "l_chaddr l = chaddr"
    using assms that
    by (auto simp: clear_lease_def lease_simps split: if_splits)
       (metis in_set_replicate replicate_eqI)+
qed

lemma table_ok_clear: "table_ok s \<Longrightarrow> table_ok (set_leases s (clear_lease chaddr yiaddr (s_leases s)))"
  unfolding table_ok_def clear_lease_def
  by (auto simp: lease_simps list_all_iff wf_lease_def intro!: uniq_key_blank)

lemma list_all_update: "list_all P xs \<Longrightarrow> P x \<Longrightarrow> list_all P (xs[i := x])"
  by (auto simp: list_all_iff dest: subsetD [OF set_update_subset_insert])

subsection \<open>Adding a lease\<close>

definition lease_entry :: "srv \<Rightarrow> bytes \<Rightarrow> u32 \<Rightarrow> u32 \<Rightarrow> bytes \<Rightarrow> dhcpOfferedAddr" where
  "lease_entry s chaddr yiaddr lease hname = \<lparr> l_chaddr = chaddr, l_yiaddr = yiaddr,
     l_expires = (if lease \<noteq> c_inflease_time (s_cfg s) then s_now s + lease else c_inflease_time (s_cfg s)),
     l_hostname = hname \<rparr>"

definition cleared :: "srv \<Rightarrow> bytes \<Rightarrow> u32 \<Rightarrow> srv" where
  "cleared s chaddr yiaddr =
     (if \<not> zerohwaddr chaddr then set_leases s (clear_lease chaddr yiaddr (s_leases s)) else s)"

lemma cleared_simps [lease_simps]:
  "s_now (cleared s c y) = s_now s" "s_out (cleared s c y) = s_out s"
  "c_inflease_time (s_cfg (cleared s c y)) = c_inflease_time (s_cfg s)"
  "lease_expired (cleared s c y) l = lease_expired s l"
  by (simp_all add: cleared_def lease_simps lease_expired_def)

lemma same_cfg_cleared [simp]: "same_cfg s (cleared s c y)"
  by (simp add: cleared_def same_cfg_set_leases)

lemma add_lease_cases:
  assumes "add_lease env s chaddr yiaddr lease hname = Some (s', r)"
  obtains (full) "r = None" "s' = cleared s chaddr yiaddr" "\<forall>l\<in>set (s_leases s'). \<not> lease_expired s l"
  | (added) i es where "r = Some i" "i < length (s_leases s)" "length hname < 50"
      "lease_expired s (s_leases (cleared s chaddr yiaddr) ! i)"
      "s' = emit (set_leases (cleared s chaddr yiaddr)
        ((s_leases (cleared s chaddr yiaddr))[i := lease_entry s chaddr yiaddr lease hname])) es"
      "es = [] \<or> es = [Delta (delta_line chaddr yiaddr hname lease LEASE_ADD)]"
proof (cases "oldest_expired_lease (cleared s chaddr yiaddr)")
  case None
  with assms have "r = None" "s' = cleared s chaddr yiaddr"
    by (simp_all add: add_lease_def cleared_def Let_def)
  with None full show ?thesis by (simp add: oldest_expired_None_iff lease_simps)
next
  case (Some i)
  let ?s1 = "cleared s chaddr yiaddr"
  let ?s2 = "set_leases ?s1 ((s_leases ?s1)[i := lease_entry s chaddr yiaddr lease hname])"
  have eq: "add_lease env s chaddr yiaddr lease hname =
      (if 50 \<le> length hname then None
       else do { s3 \<leftarrow> write_to_delta env ?s2 chaddr yiaddr hname lease LEASE_ADD; Some (s3, Some i) })"
    using Some by (simp add: add_lease_def cleared_def Let_def lease_entry_def)
  with assms have "length hname < 50" "r = Some i" and "write_to_delta env ?s2 chaddr yiaddr hname lease LEASE_ADD = Some s'"
    by (auto simp: bind_Some_iff split: if_splits)
  moreover from this(3) obtain es where "s' = emit ?s2 es" "es = [] \<or> es = [Delta (delta_line chaddr yiaddr hname lease LEASE_ADD)]"
    by (auto simp: write_to_delta_def Let_def emit_def split: if_splits) (metis append_Nil2 srv.surjective srv.update_convs(3))
  moreover have "i < length (s_leases s)" "lease_expired s (s_leases ?s1 ! i)"
    using oldest_expired_SomeD(1,2) [OF Some] same_cfg_fields(14) [OF same_cfg_cleared] by (simp_all add: lease_simps)
  ultimately show ?thesis using added by blast
qed

lemma add_lease_same_cfg: "add_lease env s chaddr yiaddr lease hname = Some (s', r) \<Longrightarrow> same_cfg s s'"
proof (erule add_lease_cases, goal_cases)
  case 1
  then show ?case by simp
next
  case (2 i es)
  have "same_cfg (cleared s chaddr yiaddr) s'"
    unfolding 2(5) using same_cfg_set_leases [of "(s_leases (cleared s chaddr yiaddr))
        [i := lease_entry s chaddr yiaddr lease hname]" "cleared s chaddr yiaddr"]
    by (rule same_cfg_trans) (simp_all add: same_cfg_eqI lease_simps)
  then show ?case using same_cfg_trans same_cfg_cleared by blast
qed

lemma add_lease_now: "add_lease env s chaddr yiaddr lease hname = Some (s', r) \<Longrightarrow> s_now s' = s_now s"
  by (erule add_lease_cases) (simp_all add: lease_simps)

text \<open>The only effects of the table operations are lines for the delta file.\<close>

definition delta_ext :: "srv \<Rightarrow> srv \<Rightarrow> bool" where
  "delta_ext s s' \<longleftrightarrow> (\<exists>es. s_out s' = s_out s @ map Delta es)"

lemma delta_ext_eqI: "s_out s' = s_out s \<Longrightarrow> delta_ext s s'"
  unfolding delta_ext_def by (rule exI [of _ "[]"]) simp

lemma delta_ext_trans: "delta_ext s s' \<Longrightarrow> delta_ext s' s'' \<Longrightarrow> delta_ext s s''"
  unfolding delta_ext_def by (metis append.assoc map_append)

lemma add_lease_delta_ext: "add_lease env s chaddr yiaddr lease hname = Some (s', r) \<Longrightarrow> delta_ext s s'"
proof (erule add_lease_cases, goal_cases)
  case 1
  then show ?case by (simp add: delta_ext_eqI lease_simps)
next
  case (2 i es)
  from 2(6) obtain ds where "es = map Delta ds" by (metis list.simps(8,9))
  with 2(5) show ?case by (auto simp: delta_ext_def lease_simps)
qed

lemma add_lease_returns:
  assumes "length hname \<le> 30"
  shows "\<exists>s' r. add_lease env s chaddr yiaddr lease hname = Some (s', r)"
  using assms by (auto simp: add_lease_def Let_def write_to_delta_fits split: option.split)

lemma add_lease_table_ok:
  assumes "table_ok s" "add_lease env s chaddr yiaddr lease hname = Some (s', r)"
    and "length chaddr = 16" "\<not> zerohwaddr chaddr"
  shows "table_ok s'"
  using assms(2)
proof (cases rule: add_lease_cases)
  case full
  then show ?thesis using assms by (simp add: cleared_def table_ok_clear)
next
  case (added i es)
  let ?ls = "clear_lease chaddr yiaddr (s_leases s)"
  have ok: "table_ok (set_leases s ?ls)" using assms(1) by (rule table_ok_clear)
  have ls: "s_leases s' = ?ls[i := lease_entry s chaddr yiaddr lease hname]"
    unfolding added(5) using assms(4) by (simp add: cleared_def lease_simps)
  have "uniq_key l_yiaddr 0 (s_leases s')" "uniq_key l_chaddr (replicate 16 0) (s_leases s')"
    unfolding ls using ok clear_lease_gone [OF _ assms(3), of _ yiaddr "s_leases s"]
    by (auto simp: table_ok_def lease_simps lease_entry_def intro!: uniq_key_update)
  moreover have "list_all wf_lease (s_leases s')"
    unfolding ls using ok added(3) assms(3)
    by (intro list_all_update) (simp_all add: table_ok_def lease_simps wf_lease_def lease_entry_def)
  moreover have "length (s_leases s') = unat (c_max_leases (s_cfg s'))"
    using same_cfg_fields [OF add_lease_same_cfg [OF assms(2)]] assms(1) by (simp add: table_ok_def)
  ultimately show ?thesis by (simp add: table_ok_def)
qed

lemma add_lease_found:
  assumes "add_lease env s chaddr yiaddr lease hname = Some (s', Some i)"
    and "length chaddr = 16" "\<not> zerohwaddr chaddr"
  shows "find_lease_by_chaddr s' chaddr = Some i" "yiaddr \<noteq> 0 \<Longrightarrow> find_lease_by_yiaddr s' yiaddr = Some i"
    "s_leases s' ! i = lease_entry s chaddr yiaddr lease hname"
proof -
  let ?ls = "clear_lease chaddr yiaddr (s_leases s)"
  let ?e = "lease_entry s chaddr yiaddr lease hname"
  have i: "i < length ?ls" "s_leases s' = ?ls[i := ?e]"
    using assms(1,3) by (auto elim: add_lease_cases simp: cleared_def lease_simps)
  show "s_leases s' ! i = ?e" using i by simp
  have nz: "chaddr \<noteq> replicate 16 0" using assms(3) by (auto simp: zerohwaddr_def)
  have first: "first_idx P (?ls[i := ?e]) = Some i" if "P ?e" "\<And>l. l \<in> set ?ls \<Longrightarrow> \<not> P l" for P
  proof -
    have "first_idx P (take i ?ls) = None" using that(2) by (auto simp: first_idx_None_iff dest: in_set_takeD)
    with that(1) i(1) show ?thesis by (simp add: upd_conv_take_nth_drop first_idx_append)
  qed
  show "find_lease_by_chaddr s' chaddr = Some i"
    unfolding find_lease_by_chaddr_def i(2) using clear_lease_gone(2) [OF _ assms(2)] nz
    by (intro first) (auto simp: lease_entry_def)
  show "find_lease_by_yiaddr s' yiaddr = Some i" if "yiaddr \<noteq> 0"
    unfolding find_lease_by_yiaddr_def i(2) using clear_lease_gone(1) [OF _ assms(2)] that
    by (intro first) (auto simp: lease_entry_def)
qed

subsection \<open>The ARP probe\<close>

text \<open>
  \<open>net_ok\<close>: every probe comes back, and a host that answers has a hardware address other than zero.
\<close>

definition net_ok :: "srv_env \<Rightarrow> server_config_t \<Rightarrow> bool" where
  "net_ok env c \<longleftrightarrow> (\<forall>addr t. \<exists>rv reply d.
     arpping (e_arp env addr t) addr (c_server c) (c_arp c) (c_interface c) = Some (rv, reply, d) \<and>
     (rv = 0 \<longrightarrow> length (hw_bytes env addr t reply) = 16 \<and> \<not> zerohwaddr (hw_bytes env addr t reply)))"

lemma net_ok_same_cfg: "same_cfg s s' \<Longrightarrow> net_ok env (s_cfg s') = net_ok env (s_cfg s)"
  by (simp add: net_ok_def same_cfg_fields)

lemma check_ip_cases:
  assumes "check_ip env s addr = Some (s', taken)"
  obtains (free) rv reply d where
      "arpping (e_arp env addr (s_now s)) addr (c_server (s_cfg s)) (c_arp (s_cfg s)) (c_interface (s_cfg s)) = Some (rv, reply, d)"
      "rv \<noteq> 0" "\<not> taken" "s' = tick d s"
  | (conflict) reply d r where
      "arpping (e_arp env addr (s_now s)) addr (c_server (s_cfg s)) (c_arp (s_cfg s)) (c_interface (s_cfg s)) = Some (0, reply, d)"
      "taken" "add_lease env (tick d s) (hw_bytes env addr (s_now s) reply) addr (c_conflict_time (s_cfg s)) (cstr ''unknown'') = Some (s', r)"
  using assms unfolding check_ip_def
  by (auto simp: bind_Some_iff split: prod.splits if_splits)

lemma same_cfg_tick [simp]: "same_cfg s (tick d s)"
  by (simp add: same_cfg_eqI lease_simps)

lemma table_ok_tick [simp]: "table_ok (tick d s) = table_ok s"
  by (simp add: table_ok_def lease_simps)

lemma check_ip_same_cfg: "check_ip env s addr = Some (s', taken) \<Longrightarrow> same_cfg s s'"
  by (erule check_ip_cases) (auto intro: same_cfg_trans [OF same_cfg_tick] add_lease_same_cfg)

lemma check_ip_delta_ext: "check_ip env s addr = Some (s', taken) \<Longrightarrow> delta_ext s s'"
  by (erule check_ip_cases)
    (auto simp: delta_ext_eqI lease_simps intro: delta_ext_trans [of _ "tick d s" for d] add_lease_delta_ext)

lemma check_ip_table_ok:
  assumes "check_ip env s addr = Some (s', taken)" "net_ok env (s_cfg s)" "table_ok s"
  shows "table_ok s'"
  using assms(1)
proof (cases rule: check_ip_cases)
  case (free rv reply d)
  with assms(3) show ?thesis by simp
next
  case (conflict reply d r)
  from assms(2) [unfolded net_ok_def, rule_format, of addr "s_now s"] conflict(1)
  have "length (hw_bytes env addr (s_now s) reply) = 16" "\<not> zerohwaddr (hw_bytes env addr (s_now s) reply)" by auto
  from add_lease_table_ok [OF _ conflict(3) this] assms(3) show ?thesis by simp
qed

lemma check_ip_returns:
  assumes "net_ok env (s_cfg s)"
  shows "\<exists>s' taken. check_ip env s addr = Some (s', taken)"
proof -
  obtain rv reply d where a: "arpping (e_arp env addr (s_now s)) addr (c_server (s_cfg s)) (c_arp (s_cfg s))
      (c_interface (s_cfg s)) = Some (rv, reply, d)"
    using assms unfolding net_ok_def by blast
  have "length (cstr ''unknown'') \<le> 30" by (simp add: cstr_def)
  from add_lease_returns [OF this] obtain s' r where
    "add_lease env (tick d s) (hw_bytes env addr (s_now s) reply) addr (c_conflict_time (s_cfg s)) (cstr ''unknown'') = Some (s', r)"
    by blast
  with a show ?thesis by (auto simp: check_ip_def)
qed

subsection \<open>Searching the range\<close>

definition usable :: "bool \<Rightarrow> srv \<Rightarrow> u32 \<Rightarrow> bool" where
  "usable check_expired s addr \<longleftrightarrow> addr AND 0xFF \<noteq> 0 \<and> addr AND 0xFF \<noteq> 0xFF \<and>
     (case find_lease_by_yiaddr s (htonl addr) of
        None \<Rightarrow> True
      | Some i \<Rightarrow> check_expired \<and> lease_expired s (s_leases s ! i))"

lemma find_address_loop_step:
  "find_address_loop env ce s addr =
     (if ntohl (c_end (s_cfg s)) < addr then Some (s, 0)
      else if usable ce s addr then do {
        (s', taken) \<leftarrow> check_ip env s (htonl addr);
        if \<not> taken then Some (s', htonl addr) else find_address_loop env ce s' (addr + 1) }
      else find_address_loop env ce s (addr + 1))"
  by (subst find_address_loop.simps) (auto simp: usable_def)


text \<open>What a search that starts at \<open>addr\<close> in state \<open>s\<close> may return.\<close>

definition search_result :: "srv_env \<Rightarrow> bool \<Rightarrow> srv \<Rightarrow> u32 \<Rightarrow> srv \<times> u32 \<Rightarrow> bool" where
  "search_result env ce s addr r \<longleftrightarrow> (case r of (s', a) \<Rightarrow>
     same_cfg s s' \<and> delta_ext s s' \<and> (net_ok env (s_cfg s) \<longrightarrow> table_ok s \<longrightarrow> table_ok s') \<and>
     (a \<noteq> 0 \<longrightarrow>
       ntohl a \<le> ntohl (c_end (s_cfg s)) \<and> (c_end (s_cfg s) \<noteq> - 1 \<longrightarrow> addr \<le> ntohl a) \<and>
       (\<exists>s0 rv reply d. s' = tick d s0 \<and> usable ce s0 (ntohl a) \<and> rv \<noteq> 0 \<and>
          arpping (e_arp env a (s_now s0)) a (c_server (s_cfg s)) (c_arp (s_cfg s)) (c_interface (s_cfg s)) =
            Some (rv, reply, d))))"

lemma search_result_trans:
  assumes "search_result env ce s' addr' r" "same_cfg s s'" "delta_ext s s'" "net_ok env (s_cfg s) \<longrightarrow> table_ok s \<longrightarrow> table_ok s'"
    and "c_end (s_cfg s) \<noteq> - 1 \<longrightarrow> addr \<le> addr'"
  shows "search_result env ce s addr r"
  using assms same_cfg_trans [OF assms(2)] delta_ext_trans [OF assms(3)]
  by (auto simp: search_result_def same_cfg_fields [OF assms(2)] net_ok_same_cfg [OF assms(2)] split: prod.splits
      intro: order_trans)

lemma ntohl_minus_1: "ntohl w = - 1 \<longleftrightarrow> w = - 1"
proof -
  have "ntohl (- 1) = - 1"
    unfolding ntohl_def of_le32_def by (rule bit_word_eqI) (auto simp: bit_simps)
  then show ?thesis by (metis ntohl_ntohl)
qed

lemma next_addr:
  assumes "\<not> e < addr" "e \<noteq> - 1"
  shows "unat (addr + 1 :: u32) = Suc (unat addr)" "addr \<le> addr + 1"
proof -
  have "addr \<noteq> - 1"
  proof
    assume "addr = - 1"
    with assms(1) have "- 1 \<le> e" by (simp add: not_less)
    then show False using assms(2) by (simp add: word_order.extremum_unique)
  qed
  then have "1 + addr \<noteq> 0" by (metis add_eq_0_iff)
  then show u: "unat (addr + 1) = Suc (unat addr)" using unatSuc [of addr] by (simp add: add.commute)
  show "addr \<le> addr + 1" unfolding word_le_nat_alt u by simp
qed

lemma find_address_loop_sound:
  assumes "find_address_loop env ce s addr = Some r"
  shows "search_result env ce s addr r"
  using assms
proof (rule find_address_loop.raw_induct [rotated])
  fix f env' ce' s addr r
  assume IH: "\<And>env ce s addr r. f env ce s addr = Some r \<Longrightarrow> search_result env ce s addr r"
  assume body: "(if ntohl (c_end (s_cfg s)) < addr then Some (s, 0)
      else if addr AND 0xFF = 0 then f env' ce' s (addr + 1)
      else if addr AND 0xFF = 0xFF then f env' ce' s (addr + 1)
      else if (case find_lease_by_yiaddr s (htonl addr) of
                 None \<Rightarrow> True
               | Some i \<Rightarrow> ce' \<and> lease_expired s (s_leases s ! i))
      then do {
        (s', taken) \<leftarrow> check_ip env' s (htonl addr);
        if \<not> taken then Some (s', htonl addr) else f env' ce' s' (addr + 1) }
      else f env' ce' s (addr + 1)) = Some r"
  show "search_result env' ce' s addr r"
  proof (cases "ntohl (c_end (s_cfg s)) < addr")
    case True
    with body show ?thesis by (auto simp: search_result_def delta_ext_eqI)
  next
    case False
    have up: "c_end (s_cfg s) \<noteq> - 1 \<longrightarrow> addr \<le> addr + 1"
      using next_addr(2) [OF False] by (simp add: ntohl_minus_1)
    show ?thesis
    proof (cases "usable ce' s addr")
      case True
      with body False obtain s' taken where c: "check_ip env' s (htonl addr) = Some (s', taken)"
        "(if \<not> taken then Some (s', htonl addr) else f env' ce' s' (addr + 1)) = Some r"
        by (auto simp: usable_def bind_Some_iff)
      note cfg = check_ip_same_cfg [OF c(1)] check_ip_delta_ext [OF c(1)] check_ip_table_ok [OF c(1)]
      show ?thesis
      proof (cases taken)
        case True
        with c(2) IH have "search_result env' ce' s' (addr + 1) r" by simp
        then show ?thesis using cfg up by (blast intro: search_result_trans)
      next
        case False
        with c(2) have r: "r = (s', htonl addr)" by simp
        from c(1) False obtain rv reply d where "s' = tick d s" "rv \<noteq> 0"
          "arpping (e_arp env' (htonl addr) (s_now s)) (htonl addr) (c_server (s_cfg s)) (c_arp (s_cfg s)) (c_interface (s_cfg s)) = Some (rv, reply, d)"
          by (auto elim: check_ip_cases)
        with cfg \<open>usable ce' s addr\<close> \<open>\<not> ntohl (c_end (s_cfg s)) < addr\<close> show ?thesis
          unfolding search_result_def r by (auto simp: not_less)
      qed
    next
      case unusable: False
      with body False have "f env' ce' s (addr + 1) = Some r"
        by (auto simp: usable_def split: if_splits)
      from search_result_trans [OF IH [OF this], of s addr] up show ?thesis by (simp add: delta_ext_eqI)
    qed
  qed
qed

text \<open>The search ends unless the range ends at the largest address.\<close>

lemma find_address_loop_returns:
  assumes "net_ok env (s_cfg s)" "c_end (s_cfg s) \<noteq> - 1"
  shows "\<exists>r. find_address_loop env ce s addr = Some r"
  using assms
proof (induction "2 ^ 32 - unat addr" arbitrary: s addr rule: less_induct)
  case less
  show ?case
  proof (cases "ntohl (c_end (s_cfg s)) < addr")
    case True
    then show ?thesis by (subst find_address_loop_step) simp
  next
    case False
    have "unat (addr + 1) = Suc (unat addr)"
      using next_addr(1) [OF False] less.prems(2) by (simp add: ntohl_minus_1)
    then have dec: "2 ^ 32 - unat (addr + 1) < 2 ^ 32 - unat addr"
      using unat_u32_less [of addr] by simp
    obtain s' taken where c: "check_ip env s (htonl addr) = Some (s', taken)"
      using check_ip_returns [OF less.prems(1)] by blast
    note cfg = check_ip_same_cfg [OF c]
    have "\<exists>r. find_address_loop env ce s' (addr + 1) = Some r"
      using less.prems by (intro less.hyps [OF dec]) (simp_all add: net_ok_same_cfg [OF cfg] same_cfg_fields [OF cfg])
    moreover have "\<exists>r. find_address_loop env ce s (addr + 1) = Some r"
      using less.prems by (intro less.hyps [OF dec])
    ultimately show ?thesis using c by (subst find_address_loop_step) auto
  qed
qed

text \<open>When nobody answers, the search returns the first usable address of the range.\<close>

lemma find_address_loop_quiet:
  assumes quiet: "\<And>addr t. \<exists>rv reply d. arpping (e_arp env addr t) addr (c_server (s_cfg s)) (c_arp (s_cfg s))
      (c_interface (s_cfg s)) = Some (rv, reply, d) \<and> rv \<noteq> 0"
    and fin: "c_end (s_cfg s) \<noteq> - 1"
  shows "\<exists>d a. find_address_loop env ce s addr = Some (tick d s, a) \<and>
    (if \<exists>x. addr \<le> x \<and> x \<le> ntohl (c_end (s_cfg s)) \<and> usable ce s x
     then addr \<le> ntohl a \<and> ntohl a \<le> ntohl (c_end (s_cfg s)) \<and> usable ce s (ntohl a) \<and>
       (\<forall>x. addr \<le> x \<and> x < ntohl a \<longrightarrow> \<not> usable ce s x)
     else a = 0)"
proof (induction "2 ^ 32 - unat addr" arbitrary: addr rule: less_induct)
  case less
  let ?e = "ntohl (c_end (s_cfg s))"
  show ?case
  proof (cases "?e < addr")
    case True
    moreover have "tick 0 s = s" by (simp add: tick_def)
    ultimately show ?thesis
      by (subst find_address_loop_step) (auto intro!: exI [of _ 0])
  next
    case False
    note nx = next_addr [OF False] 
    have u: "unat (addr + 1) = Suc (unat addr)" "addr \<le> addr + 1"
      using nx fin by (simp_all add: ntohl_minus_1)
    then have dec: "2 ^ 32 - unat (addr + 1) < 2 ^ 32 - unat addr"
      using unat_u32_less [of addr] by simp
    show ?thesis
    proof (cases "usable ce s addr")
      case True
      obtain rv reply d where "arpping (e_arp env (htonl addr) (s_now s)) (htonl addr) (c_server (s_cfg s)) (c_arp (s_cfg s))
        (c_interface (s_cfg s)) = Some (rv, reply, d)" "rv \<noteq> 0" using quiet by blast
      then have "check_ip env s (htonl addr) = Some (tick d s, False)" by (simp add: check_ip_def)
      with True False show ?thesis
        by (subst find_address_loop_step) (auto intro!: exI [of _ d] exI [of _ "htonl addr"])
    next
      case unus: False
      have eq: "find_address_loop env ce s addr = find_address_loop env ce s (addr + 1)"
        using False unus by (subst find_address_loop_step) simp
      have ge: "addr \<le> x \<longleftrightarrow> x = addr \<or> addr + 1 \<le> x" for x
        using u by (auto simp: word_le_nat_alt word_unat_eq_iff)
      have ex: "(\<exists>x. addr \<le> x \<and> x \<le> ?e \<and> usable ce s x) = (\<exists>x. addr + 1 \<le> x \<and> x \<le> ?e \<and> usable ce s x)"
        using unus by (auto simp: ge)
      have all: "(\<forall>x. addr \<le> x \<and> x < y \<longrightarrow> \<not> usable ce s x) = (\<forall>x. addr + 1 \<le> x \<and> x < y \<longrightarrow> \<not> usable ce s x)" for y
        using unus by (auto simp: ge)
      show ?thesis unfolding eq ex all using less.hyps [OF dec] u(2)
        by (auto intro: order_trans split: if_splits)
    qed
  qed
qed

section \<open>The table as an address assignment\<close>

text \<open>
  What the server relies on: the table assigns addresses to clients, one address to a client and
  one client to an address, and a reservation concerns only the client that makes it.  Zero stands
  for no client and no address.
\<close>

locale address_table =
  fixes ok :: "'s \<Rightarrow> bool"
    and owner :: "'s \<Rightarrow> u32 \<Rightarrow> bytes option"
    and address_of :: "'s \<Rightarrow> bytes \<Rightarrow> u32 option"
    and reserve :: "'s \<Rightarrow> 'r \<Rightarrow> ('s \<times> bool) option"
    and req_ok :: "'r \<Rightarrow> bool"
    and client :: "'r \<Rightarrow> bytes"
    and addr :: "'r \<Rightarrow> u32"
  assumes consistent: "ok s \<Longrightarrow> y \<noteq> 0 \<Longrightarrow> c \<noteq> replicate 16 0 \<Longrightarrow> owner s y = Some c \<longleftrightarrow> address_of s c = Some y"
    and reserve_ok: "ok s \<Longrightarrow> req_ok r \<Longrightarrow> reserve s r = Some (s', b) \<Longrightarrow> ok s'"
    and reserve_gives: "ok s \<Longrightarrow> req_ok r \<Longrightarrow> reserve s r = Some (s', True) \<Longrightarrow> addr r \<noteq> 0 \<Longrightarrow>
      owner s' (addr r) = Some (client r)"
    and reserve_frame: "ok s \<Longrightarrow> req_ok r \<Longrightarrow> reserve s r = Some (s', b) \<Longrightarrow> y \<noteq> 0 \<Longrightarrow> c \<noteq> replicate 16 0 \<Longrightarrow>
      c \<noteq> client r \<Longrightarrow> owner s' y = Some c \<Longrightarrow> owner s y = Some c"
begin

fun run :: "'s \<Rightarrow> 'r list \<Rightarrow> 's option" where
  "run s [] = Some s"
| "run s (r # rs) = do { (s', b) \<leftarrow> reserve s r; run s' rs }"

lemma run_ok: "ok s \<Longrightarrow> list_all req_ok rs \<Longrightarrow> run s rs = Some s' \<Longrightarrow> ok s'"
proof (induction rs arbitrary: s)
  case (Cons r rs)
  from Cons.prems(3) obtain t b where "reserve s r = Some (t, b)" "run t rs = Some s'"
    by (auto simp: bind_Some_iff)
  then show ?case using Cons.IH [of t] Cons.prems(1,2) reserve_ok [of s r t b] by simp
qed simp

lemma run_exclusive:
  assumes "ok s" "list_all req_ok rs" "run s rs = Some s'" "y \<noteq> 0"
    and "c \<noteq> replicate 16 0" "c' \<noteq> replicate 16 0" "address_of s' c = Some y" "address_of s' c' = Some y"
  shows "c = c'"
proof -
  have "owner s' y = Some c" "owner s' y = Some c'"
    using consistent [OF run_ok [OF assms(1-3)] assms(4)] assms(5-8) by blast+
  then show ?thesis by simp
qed

lemma run_frame:
  assumes "ok s" "list_all req_ok rs" "run s rs = Some s'" "y \<noteq> 0" "c \<noteq> replicate 16 0"
    and "c \<notin> client ` set rs" "owner s' y = Some c"
  shows "owner s y = Some c"
  using assms
proof (induction rs arbitrary: s)
  case (Cons r rs)
  from Cons.prems(3) obtain t b where t: "reserve s r = Some (t, b)" "run t rs = Some s'"
    by (auto simp: bind_Some_iff)
  then have "owner t y = Some c" using Cons.IH [of t] Cons.prems reserve_ok [of s r t b] by simp
  then show ?case using reserve_frame [of s r t b y c] t Cons.prems by auto
qed simp

end

definition lease_owner :: "srv \<Rightarrow> u32 \<Rightarrow> bytes option" where
  "lease_owner s y = map_option (\<lambda>i. l_chaddr (s_leases s ! i)) (find_lease_by_yiaddr s y)"

definition lease_address :: "srv \<Rightarrow> bytes \<Rightarrow> u32 option" where
  "lease_address s c = map_option (\<lambda>i. l_yiaddr (s_leases s ! i)) (find_lease_by_chaddr s c)"

record lease_req =
  q_env :: srv_env
  q_chaddr :: bytes
  q_yiaddr :: u32
  q_lease :: u32
  q_hname :: bytes

definition add_req :: "srv \<Rightarrow> lease_req \<Rightarrow> (srv \<times> bool) option" where
  "add_req s q = do { (s', r) \<leftarrow> add_lease (q_env q) s (q_chaddr q) (q_yiaddr q) (q_lease q) (q_hname q); Some (s', r \<noteq> None) }"

definition req_ok :: "lease_req \<Rightarrow> bool" where
  "req_ok q \<longleftrightarrow> length (q_chaddr q) = 16 \<and> \<not> zerohwaddr (q_chaddr q)"

lemma first_idx_uniq:
  assumes "uniq_key f z ls" "i < length ls" "f (ls ! i) = k" "k \<noteq> z"
  shows "first_idx (\<lambda>l. f l = k) ls = Some i"
proof (cases "first_idx (\<lambda>l. f l = k) ls")
  case None
  with assms show ?thesis by (auto simp: first_idx_None_iff)
next
  case (Some j)
  from first_idx_SomeD [OF Some] assms have "j = i" unfolding uniq_key_nth by auto
  with Some show ?thesis by simp
qed

lemma lease_owner_iff:
  assumes "table_ok s" "y \<noteq> 0"
  shows "lease_owner s y = Some c \<longleftrightarrow> (\<exists>i<length (s_leases s). l_yiaddr (s_leases s ! i) = y \<and> l_chaddr (s_leases s ! i) = c)"
proof
  assume "lease_owner s y = Some c"
  then show "\<exists>i<length (s_leases s). l_yiaddr (s_leases s ! i) = y \<and> l_chaddr (s_leases s ! i) = c"
    unfolding lease_owner_def find_lease_by_yiaddr_def by (auto dest!: first_idx_SomeD)
next
  assume "\<exists>i<length (s_leases s). l_yiaddr (s_leases s ! i) = y \<and> l_chaddr (s_leases s ! i) = c"
  then obtain i where "i < length (s_leases s)" "l_yiaddr (s_leases s ! i) = y" "l_chaddr (s_leases s ! i) = c" by blast
  with first_idx_uniq [of l_yiaddr 0 "s_leases s" i y] assms show "lease_owner s y = Some c"
    by (simp add: lease_owner_def find_lease_by_yiaddr_def table_ok_def)
qed

lemma lease_address_iff:
  assumes "table_ok s" "c \<noteq> replicate 16 0"
  shows "lease_address s c = Some y \<longleftrightarrow> (\<exists>i<length (s_leases s). l_yiaddr (s_leases s ! i) = y \<and> l_chaddr (s_leases s ! i) = c)"
proof
  assume "lease_address s c = Some y"
  then show "\<exists>i<length (s_leases s). l_yiaddr (s_leases s ! i) = y \<and> l_chaddr (s_leases s ! i) = c"
    unfolding lease_address_def find_lease_by_chaddr_def by (auto dest!: first_idx_SomeD)
next
  assume "\<exists>i<length (s_leases s). l_yiaddr (s_leases s ! i) = y \<and> l_chaddr (s_leases s ! i) = c"
  then obtain i where "i < length (s_leases s)" "l_yiaddr (s_leases s ! i) = y" "l_chaddr (s_leases s ! i) = c" by blast
  with first_idx_uniq [of l_chaddr "replicate 16 0" "s_leases s" i c] assms show "lease_address s c = Some y"
    by (simp add: lease_address_def find_lease_by_chaddr_def table_ok_def)
qed

lemma add_lease_frame:
  assumes "add_lease env s chaddr yiaddr lease hname = Some (s', r)" "i < length (s_leases s')"
    and "l_yiaddr (s_leases s' ! i) \<noteq> 0" "l_chaddr (s_leases s' ! i) \<noteq> chaddr"
  shows "s_leases s' ! i = s_leases s ! i"
proof -
  have cl: "s_leases (cleared s chaddr yiaddr) ! i = s_leases s ! i"
    if "l_yiaddr (s_leases (cleared s chaddr yiaddr) ! i) \<noteq> 0" "i < length (s_leases s)"
    using that by (auto simp: cleared_def lease_simps nth_clear_lease split: if_splits)
  have len: "i < length (s_leases s)" using assms(2) same_cfg_fields(14) [OF add_lease_same_cfg [OF assms(1)]] by simp
  from assms(1) show ?thesis
  proof (cases rule: add_lease_cases)
    case full
    with cl [OF _ len] assms(3) show ?thesis by simp
  next
    case (added j es)
    then have "i \<noteq> j" using assms(2,4) by (auto simp: lease_simps lease_entry_def)
    then have "s_leases s' ! i = s_leases (cleared s chaddr yiaddr) ! i"
      unfolding added(5) by (simp add: lease_simps)
    with cl [OF _ len] assms(3) show ?thesis by simp
  qed
qed

interpretation lease_tab: address_table table_ok lease_owner lease_address add_req req_ok q_chaddr q_yiaddr
proof
  fix s and y :: u32 and c :: bytes
  assume "table_ok s" "y \<noteq> 0" "c \<noteq> replicate 16 0"
  then show "lease_owner s y = Some c \<longleftrightarrow> lease_address s c = Some y"
    by (simp add: lease_owner_iff lease_address_iff)
next
  fix s r s' b
  assume "table_ok s" "req_ok r" "add_req s r = Some (s', b)"
  then show "table_ok s'" by (auto simp: add_req_def req_ok_def bind_Some_iff intro: add_lease_table_ok)
next
  fix s r s'
  assume *: "table_ok s" "req_ok r" "add_req s r = Some (s', True)" "q_yiaddr r \<noteq> 0"
  then obtain i where "add_lease (q_env r) s (q_chaddr r) (q_yiaddr r) (q_lease r) (q_hname r) = Some (s', Some i)"
    by (auto simp: add_req_def bind_Some_iff)
  from add_lease_found [OF this] * show "lease_owner s' (q_yiaddr r) = Some (q_chaddr r)"
    by (simp add: req_ok_def lease_owner_def lease_entry_def)
next
  fix s r s' b and y :: u32 and c :: bytes
  assume *: "table_ok s" "req_ok r" "add_req s r = Some (s', b)" "y \<noteq> 0" "c \<noteq> replicate 16 0"
    "c \<noteq> q_chaddr r" "lease_owner s' y = Some c"
  then obtain x where a: "add_lease (q_env r) s (q_chaddr r) (q_yiaddr r) (q_lease r) (q_hname r) = Some (s', x)"
    by (auto simp: add_req_def bind_Some_iff)
  have "table_ok s'" using * a by (auto simp: req_ok_def intro: add_lease_table_ok)
  with * obtain i where i: "i < length (s_leases s')" "l_yiaddr (s_leases s' ! i) = y" "l_chaddr (s_leases s' ! i) = c"
    using lease_owner_iff [of s' y c] by blast
  have "s_leases s' ! i = s_leases s ! i" using add_lease_frame [OF a i(1)] i *(4,6) by simp
  moreover have "i < length (s_leases s)" using i(1) same_cfg_fields(14) [OF add_lease_same_cfg [OF a]] by simp
  ultimately show "lease_owner s y = Some c" using i(2,3) lease_owner_iff [OF *(1,4)] by metis
qed

section \<open>Properties\<close>

definition sample_cfg :: server_config_t where
  "sample_cfg = \<lparr> c_server = htonl 0xC0A80101, c_start = htonl 0xC0A80102, c_end = htonl 0xC0A80103,
     c_options = [[1, 4, 255, 255, 255, 0]], c_interface = cstr ''br0'', c_ifindex = 3, c_arp = [2, 0, 0, 0, 0, 1],
     c_lease = 864000, c_max_leases = 2, c_remaining = True, c_auto_time = 7200, c_decline_time = 3600,
     c_conflict_time = 3600, c_offer_time = 60, c_min_lease = 60, c_lease_file = cstr ''/var/l'', c_pidfile = cstr ''/var/p'',
     c_notify_file = None, c_siaddr = 0, c_sname = None, c_boot_file = None, c_active = True,
     c_inflease_time = 0xFFFFFFFF, c_leases = [zero_lease, zero_lease] \<rparr>"

definition sample_srv :: srv where
  "sample_srv = \<lparr> s_cfg = sample_cfg, s_now = 1000, s_out = [] \<rparr>"

text \<open>A network on which nobody answers a probe, and one on which the request cannot be sent.\<close>

definition quiet_io :: arp_io where
  "quiet_io = \<lparr> ai_socket = True, ai_setsockopt = True, ai_sendto = True, ai_events = [(Quiet, 2)] \<rparr>"

definition quiet_env :: srv_env where
  "quiet_env = \<lparr> e_arp = \<lambda>_ _. quiet_io, e_stack = \<lambda>_ _. replicate 16 0, e_delta = True, e_lease_file = True,
     e_tx = \<lparr> tx_socket = True, tx_setsockopt = True, tx_bind = True, tx_connect = True, tx_result = 548 \<rparr> \<rparr>"

definition sample_mac :: bytes where
  "sample_mac = [2, 0, 0, 0, 0, 9] @ replicate 10 0"

lemma sample_srv_ok [simp]: "table_ok sample_srv"
  by (simp add: table_ok_def sample_srv_def sample_cfg_def wf_lease_def zero_lease_def uniq_key_def)

lemma sample_mac_ok [simp]: "length sample_mac = 16" "\<not> zerohwaddr sample_mac"
  by (simp_all add: sample_mac_def zerohwaddr_def)

lemma quiet_arpping:
  "arpping (e_arp quiet_env a t) a (c_server sample_cfg) (c_arp sample_cfg) (c_interface sample_cfg) = Some (1, None, 2)"
  by (simp add: arpping_def quiet_env_def quiet_io_def sample_cfg_def cstr_def arp_wait.simps)

lemma quiet_net_ok [simp]: "net_ok quiet_env sample_cfg"
  by (simp add: net_ok_def quiet_arpping)

text \<open>C23: Adding a lease for a client with a hardware address and a host name of at most 30
  characters always returns and keeps the table invariant.  Either no entry of the table has
  expired, and NULL is returned; or the client and the address are both found at the returned
  entry, which holds exactly what was asked for.\<close>

theorem add_lease_records:
  assumes "table_ok s" "length chaddr = 16" "\<not> zerohwaddr chaddr" "length hname \<le> 30" "yiaddr \<noteq> 0"
  shows "\<exists>s' r. add_lease env s chaddr yiaddr lease hname = Some (s', r) \<and> table_ok s' \<and>
    (case r of
       None \<Rightarrow> \<forall>l\<in>set (s_leases s'). \<not> lease_expired s l
     | Some i \<Rightarrow> find_lease_by_chaddr s' chaddr = Some i \<and> find_lease_by_yiaddr s' yiaddr = Some i \<and>
         s_leases s' ! i = lease_entry s chaddr yiaddr lease hname)"
proof -
  obtain s' r where a: "add_lease env s chaddr yiaddr lease hname = Some (s', r)"
    using add_lease_returns [OF assms(4)] by blast
  have "\<forall>l\<in>set (s_leases s'). \<not> lease_expired s l" if "r = None"
    using a that by (auto elim: add_lease_cases)
  moreover have "find_lease_by_chaddr s' chaddr = Some i \<and> find_lease_by_yiaddr s' yiaddr = Some i \<and>
         s_leases s' ! i = lease_entry s chaddr yiaddr lease hname" if "r = Some i" for i
    using add_lease_found [OF a [unfolded that] assms(2,3)] assms(5) by blast
  ultimately show ?thesis using a add_lease_table_ok [OF assms(1) a assms(2,3)] by (auto split: option.split)
qed

theorem add_lease_records_witness:
  "\<exists>s' r. add_lease quiet_env sample_srv sample_mac 5 60 (cstr ''pc'') = Some (s', r) \<and> table_ok s'"
  using add_lease_records [OF sample_srv_ok sample_mac_ok, of "cstr ''pc''" 5 quiet_env 60]
  by (auto simp: cstr_def)

text \<open>C12: Whatever reservations are made by clients with hardware addresses, a client that made none
  of them holds an address afterwards only if it held that address before, and no address is held
  by two clients.\<close>

theorem reservations_exclusive:
  assumes "table_ok s" "list_all req_ok qs" "lease_tab.run s qs = Some s'" "y \<noteq> 0" "c \<noteq> replicate 16 0"
    and "lease_address s' c = Some y"
  shows "(c \<notin> q_chaddr ` set qs \<longrightarrow> lease_owner s y = Some c) \<and>
    (\<forall>c'. c' \<noteq> replicate 16 0 \<longrightarrow> lease_address s' c' = Some y \<longrightarrow> c' = c)"
proof -
  have "lease_owner s' y = Some c"
    using lease_tab.consistent [OF lease_tab.run_ok [OF assms(1-3)] assms(4,5)] assms(6) by simp
  then show ?thesis
    using lease_tab.run_frame [OF assms(1-5)] lease_tab.run_exclusive [OF assms(1-4) _ assms(5) _ assms(6)] by blast
qed

theorem reservations_exclusive_witness:
  "\<exists>s'. lease_tab.run sample_srv
     [\<lparr> q_env = quiet_env, q_chaddr = sample_mac, q_yiaddr = 5, q_lease = 60, q_hname = cstr ''pc'' \<rparr>] = Some s' \<and>
     lease_address s' sample_mac = Some 5 \<and> lease_address s' ([7] @ replicate 15 0) \<noteq> Some 5"
proof -
  let ?q = "\<lparr> q_env = quiet_env, q_chaddr = sample_mac, q_yiaddr = 5, q_lease = 60, q_hname = cstr ''pc'' \<rparr>"
  obtain s' r where a: "add_lease quiet_env sample_srv sample_mac 5 60 (cstr ''pc'') = Some (s', r)"
    using add_lease_returns [of "cstr ''pc''"] by (fastforce simp: cstr_def)
  then have r: "r = Some 0"
    by (auto simp: add_lease_def Let_def sample_srv_def sample_cfg_def set_leases_def clear_lease_def
        oldest_expired_lease_def zero_lease_def bind_Some_iff split: if_splits)
  then have run: "lease_tab.run sample_srv [?q] = Some s'" using a by (simp add: add_req_def)
  have y: "lease_address s' sample_mac = Some 5"
    using add_lease_found [OF a [unfolded r]] by (simp add: lease_address_def lease_entry_def)
  have "sample_mac \<noteq> replicate 16 0" "[7] @ replicate 15 0 \<noteq> (replicate 16 0 :: bytes)" "[7] @ replicate 15 0 \<noteq> sample_mac"
    using sample_mac_ok(2) by (auto simp: zerohwaddr_def sample_mac_def dest!: arg_cong [of _ _ hd])
  with reservations_exclusive [of sample_srv "[?q]" s' 5 sample_mac] run y show ?thesis
    by (auto simp: req_ok_def)
qed

text \<open>\<^verbatim>\<open>oldest_expired_lease\<close> returns an expired entry, none of the expired entries is older, and
  it returns NULL only if nothing has expired.\<close>

theorem oldest_expired_lease_min:
  "case oldest_expired_lease s of
     None \<Rightarrow> \<forall>l\<in>set (s_leases s). \<not> lease_expired s l
   | Some i \<Rightarrow> i < length (s_leases s) \<and> lease_expired s (s_leases s ! i) \<and>
       (\<forall>l\<in>set (s_leases s). lease_expired s l \<longrightarrow> l_expires (s_leases s ! i) \<le> l_expires l)"
  using oldest_expired_SomeD [of s] oldest_expired_None_iff [of s] by (auto split: option.split)

theorem oldest_expired_lease_min_witness:
  "\<exists>i. oldest_expired_lease sample_srv = Some i \<and> i < 2"
proof -
  have "oldest_expired_lease sample_srv = Some 0"
    by (simp add: oldest_expired_lease_def sample_srv_def sample_cfg_def zero_lease_def)
  with oldest_expired_lease_min [of sample_srv] show ?thesis by simp
qed

text \<open>C22: If every probe comes back and the range does not end at the largest address, the search
  for an address returns and keeps the table invariant.  A nonzero result lies in the configured
  range, does not end in 0 or 255, was free (or expired, when expired leases are tried) when it was
  probed, and nobody answered the probe.\<close>

theorem find_address_correct:
  assumes "net_ok env (s_cfg s)" "c_end (s_cfg s) \<noteq> - 1" "table_ok s"
  shows "\<exists>s' a. find_address env check_expired s = Some (s', a) \<and> table_ok s' \<and>
    (a \<noteq> 0 \<longrightarrow> ntohl (c_start (s_cfg s)) \<le> ntohl a \<and> ntohl a \<le> ntohl (c_end (s_cfg s)) \<and>
       (\<exists>s0 rv reply d. s' = tick d s0 \<and> usable check_expired s0 (ntohl a) \<and> rv \<noteq> 0 \<and>
          arpping (e_arp env a (s_now s0)) a (c_server (s_cfg s)) (c_arp (s_cfg s)) (c_interface (s_cfg s)) =
            Some (rv, reply, d)))"
proof -
  obtain s' a where r: "find_address env check_expired s = Some (s', a)"
    using find_address_loop_returns [OF assms(1,2)] unfolding find_address_def by fastforce
  from find_address_loop_sound [OF r [unfolded find_address_def]] assms r show ?thesis
    unfolding search_result_def by blast
qed

theorem find_address_correct_witness:
  "\<exists>s' a. find_address quiet_env False sample_srv = Some (s', a) \<and> table_ok s'"
proof -
  have "c_end (s_cfg sample_srv) \<noteq> - 1" "s_cfg sample_srv = sample_cfg"
    by (simp_all add: sample_srv_def sample_cfg_def ntohl_minus_1)
  with find_address_correct [of quiet_env sample_srv False] show ?thesis by auto
qed

text \<open>When nobody answers probes, the search returns the lowest usable address of the range, and
  0 only if there is none.\<close>

theorem find_address_first:
  assumes "\<And>addr t. \<exists>rv reply d. arpping (e_arp env addr t) addr (c_server (s_cfg s)) (c_arp (s_cfg s))
      (c_interface (s_cfg s)) = Some (rv, reply, d) \<and> rv \<noteq> 0"
    and "c_end (s_cfg s) \<noteq> - 1"
  shows "\<exists>d a. find_address env check_expired s = Some (tick d s, a) \<and>
    (if \<exists>x. ntohl (c_start (s_cfg s)) \<le> x \<and> x \<le> ntohl (c_end (s_cfg s)) \<and> usable check_expired s x
     then ntohl (c_start (s_cfg s)) \<le> ntohl a \<and> ntohl a \<le> ntohl (c_end (s_cfg s)) \<and> usable check_expired s (ntohl a) \<and>
       (\<forall>x. ntohl (c_start (s_cfg s)) \<le> x \<and> x < ntohl a \<longrightarrow> \<not> usable check_expired s x)
     else a = 0)"
  unfolding find_address_def using assms by (rule find_address_loop_quiet)

theorem find_address_first_witness:
  "\<exists>d a. find_address quiet_env False sample_srv = Some (tick d sample_srv, a)"
proof -
  have c: "c_end (s_cfg sample_srv) \<noteq> - 1" "s_cfg sample_srv = sample_cfg"
    by (simp_all add: sample_srv_def sample_cfg_def ntohl_minus_1)
  have "\<exists>rv reply d. arpping (e_arp quiet_env addr t) addr (c_server (s_cfg sample_srv)) (c_arp (s_cfg sample_srv))
      (c_interface (s_cfg sample_srv)) = Some (rv, reply, d) \<and> rv \<noteq> 0" for addr t
    using quiet_arpping [of addr t] c(2) by simp
  from find_address_first [OF this c(1), of False] show ?thesis by blast
qed

text \<open>A host name of 31 characters is within the 50 bytes of a lease entry, but the line for the
  delta file then needs 81 bytes of an 80-byte buffer.\<close>

theorem add_lease_delta_overflow:
  "add_lease quiet_env sample_srv sample_mac (htonl 0xC0A864C8) 4000000000 (replicate 31 97) = None"
proof -
  have "length (inet_ntoa (htonl 0xC0A864C8)) = 15"
    by (simp add: inet_ntoa_def Let_def dec.simps)
  moreover have "length (dec 4000000000) = 10" by (simp add: dec.simps)
  ultimately show ?thesis
    by (simp add: add_lease_def Let_def sample_srv_def sample_cfg_def set_leases_def clear_lease_def
        oldest_expired_lease_def zero_lease_def write_to_delta_def delta_line_def quiet_env_def cstr_def)
qed

text \<open>A client whose first six hardware address bytes are zero is not cleared from the table
  first, so a second lease for the same address leaves two entries with that address.\<close>

theorem add_lease_zero_hwaddr_duplicates:
  "\<exists>s1 s2. add_lease quiet_env sample_srv (replicate 16 0) 5 60 (cstr ''a'') = Some (s1, Some 0) \<and>
     add_lease quiet_env s1 (replicate 16 0) 5 60 (cstr ''b'') = Some (s2, Some 1) \<and>
     map l_yiaddr (s_leases s2) = [5, 5]"
proof -
  have z: "zerohwaddr (replicate 16 0)" by (simp add: zerohwaddr_def)
  show ?thesis
    by (simp add: add_lease_def Let_def z sample_srv_def sample_cfg_def set_leases_def emit_def
        oldest_expired_lease_def zero_lease_def write_to_delta_fits cstr_def)
qed

end
