(* ===== verification/Dhcp_Files.thy ===== *)
theory Dhcp_Files
  imports Dhcp_Leases
begin

text \<open>
  \<^verbatim>\<open>src/udhcp/files.c\<close>: reading the configuration file, writing and reading the lease file.

  A file is the byte string it holds; \<^term>\<open>None\<close> is a file that cannot be opened.  Name resolution
  (\<^verbatim>\<open>gethostbyname\<close>) is a parameter.  A buffer overflow and the use of an uninitialised variable
  are \<^term>\<open>None\<close>.
\<close>

section \<open>Value readers\<close>

text \<open>Each reader returns the new value of the variable and whether it could parse the line.\<close>

definition read_ip :: "(bytes \<Rightarrow> u32 option) \<Rightarrow> bytes \<Rightarrow> u32 option" where
  "read_ip resolve line = (case inet_aton line of Some a \<Rightarrow> Some a | None \<Rightarrow> resolve line)"

definition read_str :: "bytes \<Rightarrow> bytes" where
  "read_str line = line"

definition read_u32 :: "bytes \<Rightarrow> u32 \<times> bool" where
  "read_u32 line = (let (v, rest) = strtoul 0 line in (v, rest = []))"

definition read_yn :: "bytes \<Rightarrow> bool option" where
  "read_yn line =
     (if strcaseeq (cstr ''yes'') line then Some True
      else if strcaseeq (cstr ''no'') line then Some False else None)"

text \<open>
  One value of an option: the bytes for \<^verbatim>\<open>attach_option\<close> and the rest of the tokens, if it parses.
  \<open>val\<close> is the current token, \<open>toks\<close> the saved position of \<^verbatim>\<open>strtok\<close>.
\<close>

definition opt_value ::
    "(bytes \<Rightarrow> u32 option) \<Rightarrow> u8 \<Rightarrow> bytes \<Rightarrow> bytes option \<Rightarrow> bytes option \<times> bytes option" where
  "opt_value resolve flags val toks =
     (let t = flags AND TYPE_MASK in
      if t = OPTION_IP then (map_option le32 (read_ip resolve val), toks)
      else if t = OPTION_IP_PAIR then
        (let first = read_ip resolve val; (val2, toks2) = strtok toks (cstr '', '' @ [9] @ cstr ''/-'') in
         (case (first, val2) of
            (Some a, Some v) \<Rightarrow> map_option (\<lambda>b. le32 a @ le32 b) (read_ip resolve v)
          | _ \<Rightarrow> None, toks2))
      else if t = OPTION_STRING then (if val = [] then None else Some (take 254 val), toks)
      else if t = OPTION_BOOLEAN then (map_option (\<lambda>b. [if b then 1 else 0]) (read_yn val), toks)
      else if t = OPTION_U8 then
        (let (v, rest) = strtoul 0 val in (if rest = [] then Some [ucast v] else None, toks))
      else if t = OPTION_U16 then
        (let (v, rest) = strtoul 0 val in (if rest = [] then Some (le16 (htons (ucast v))) else None, toks))
      else if t = OPTION_S16 then
        (let (v, rest) = strtol 0 val in (if rest = [] then Some (le16 (htons (ucast v))) else None, toks))
      else if t = OPTION_U32 then
        (let (v, rest) = strtoul 0 val in (if rest = [] then Some (le32 (htonl v)) else None, toks))
      else if t = OPTION_S32 then
        (let (v, rest) = strtol 0 val in (if rest = [] then Some (le32 (htonl v)) else None, toks))
      else (None, toks))"

definition tok_size :: "bytes option \<Rightarrow> nat" where
  "tok_size toks = (case toks of None \<Rightarrow> 0 | Some s \<Rightarrow> Suc (length s))"

lemma strtok_shorter: "strtok toks delim = (Some v, toks') \<Longrightarrow> tok_size toks' < tok_size toks"
proof -
  assume a: "strtok toks delim = (Some v, toks')"
  then obtain cs where cs: "toks = Some cs" by (cases toks) (auto simp: strtok_def)
  define t where "t = dropWhile (\<lambda>c. c \<in> set delim) cs"
  define d where "d = dropWhile (\<lambda>c. c \<notin> set delim) t"
  have "length d \<le> length t" "length t \<le> length cs" unfolding d_def t_def by (rule length_dropWhile_le)+
  moreover have "toks' = (case d of [] \<Rightarrow> None | c # r \<Rightarrow> Some r)"
    using a unfolding cs strtok_def option.case Let_def t_def [symmetric] d_def [symmetric]
    by (simp split: if_split_asm)
  ultimately show ?thesis by (cases d) (simp_all add: tok_size_def cs)
qed

lemma strtok_not_longer: "tok_size (snd (strtok toks delim)) \<le> tok_size toks"
proof (cases "fst (strtok toks delim)")
  case None
  then show ?thesis by (auto simp: strtok_def tok_size_def Let_def split: option.splits if_splits)
next
  case (Some v)
  then have "strtok toks delim = (Some v, snd (strtok toks delim))" by (metis prod.collapse)
  from strtok_shorter [OF this] show ?thesis by simp
qed

lemma opt_value_shorter: "tok_size (snd (opt_value resolve flags val toks)) \<le> tok_size toks"
proof -
  have ifs: "tok_size x \<le> n \<Longrightarrow> tok_size y \<le> n \<Longrightarrow> tok_size (if b then x else y) \<le> n" for b x y n
    by simp
  show ?thesis
    unfolding opt_value_def Let_def split_beta
    by (simp only: if_distrib [of snd] snd_conv) (intro ifs order_refl strtok_not_longer)
qed

text \<open>
  The \<^verbatim>\<open>do\<close> loop over the values.  \<open>retval\<close> is the result of the last round.
\<close>

function read_opt_values ::
    "(bytes \<Rightarrow> u32 option) \<Rightarrow> dhcp_option \<Rightarrow> bool \<Rightarrow> bytes option \<Rightarrow> bytes list \<Rightarrow> (bytes list \<times> bool) option" where
  "read_opt_values resolve q retval toks opt_list =
     (case strtok toks (cstr '', '' @ [9]) of
        (None, toks1) \<Rightarrow> Some (opt_list, retval)
      | (Some val, toks1) \<Rightarrow>
          (case opt_value resolve (o_flags q) val toks1 of
             (None, toks2) \<Rightarrow> Some (opt_list, False)
           | (Some data, toks2) \<Rightarrow> do {
               opt_list' \<leftarrow> attach_option opt_list q data (length data);
               if o_flags q AND OPTION_LIST \<noteq> 0 then read_opt_values resolve q True toks2 opt_list'
               else Some (opt_list', True) }))"
  by pat_completeness auto
termination
proof (relation "measure (\<lambda>(resolve, q, retval, toks, opt_list). tok_size toks)", goal_cases)
  case (2 resolve q retval toks opt_list r toks1 val r2 toks2 data opt_list')
  have "tok_size toks1 < tok_size toks" using strtok_shorter [of toks "cstr '', '' @ [9]" val toks1] 2(1,2) by simp
  moreover have "tok_size toks2 \<le> tok_size toks1"
    using opt_value_shorter [of resolve "o_flags q" val toks1] 2(3) by (metis snd_conv)
  ultimately show ?case by simp
qed simp

declare read_opt_values.simps [simp del]

definition read_opt ::
    "(bytes \<Rightarrow> u32 option) \<Rightarrow> bytes \<Rightarrow> bytes list \<Rightarrow> (bytes list \<times> bool) option" where
  "read_opt resolve line opt_list =
     (case strtok (Some line) (cstr '' '' @ [9] @ cstr ''='') of
        (None, toks) \<Rightarrow> Some (opt_list, False)
      | (Some opt, toks) \<Rightarrow>
          (case find (\<lambda>q. cstr (o_name q) = opt) (rev supported_options) of
             None \<Rightarrow> Some (opt_list, False)
           | Some q \<Rightarrow> read_opt_values resolve q False toks opt_list))"

section \<open>The configuration file\<close>

datatype conf_var =
    K_start | K_end | K_interface | K_inflease_time | K_option | K_opt | K_max_leases | K_remaining
  | K_auto_time | K_decline_time | K_conflict_time | K_offer_time | K_min_lease | K_lease_file
  | K_pidfile | K_notify_file | K_siaddr | K_sname | K_boot_file

abbreviation (input) MAX_INTERFACES :: nat where "MAX_INTERFACES \<equiv> 6"

text \<open>The 19 keywords of every interface with their defaults.\<close>

definition k_arr :: "nat \<Rightarrow> (bytes \<times> conf_var \<times> bytes) list" where
  "k_arr index = [
     (cstr ''start'', K_start, cstr ''192.168.'' @ dec index @ cstr ''.20''),
     (cstr ''end'', K_end, cstr ''192.168.'' @ dec index @ cstr ''.254''),
     (cstr ''interface'', K_interface,
        if index = 0 then cstr ''eth0'' else if index = 1 then cstr ''eth1'' else cstr ''usbrndis''),
     (cstr ''inflease_time'', K_inflease_time, cstr ''604800''),
     (cstr ''option'', K_option, []),
     (cstr ''opt'', K_opt, []),
     (cstr ''max_leases'', K_max_leases, cstr ''254''),
     (cstr ''remaining'', K_remaining, cstr ''yes''),
     (cstr ''auto_time'', K_auto_time, cstr ''1''),
     (cstr ''decline_time'', K_decline_time, cstr ''3600''),
     (cstr ''conflict_time'', K_conflict_time, cstr ''3600''),
     (cstr ''offer_time'', K_offer_time, cstr ''60''),
     (cstr ''min_lease'', K_min_lease, cstr ''60''),
     (cstr ''lease_file'', K_lease_file,
        cstr ''/var/lib/misc/udhcpd'' @ dec (min index 2) @ cstr ''.leases''),
     (cstr ''pidfile'', K_pidfile, cstr ''/var/run/udhcpd.pid''),
     (cstr ''notify_file'', K_notify_file, []),
     (cstr ''siaddr'', K_siaddr, cstr ''0.0.0.0''),
     (cstr ''sname'', K_sname, []),
     (cstr ''boot_file'', K_boot_file, [])]"

text \<open>Calling the handler of a keyword on its variable: the new configuration and the return value.\<close>

definition set_ip :: "(u32 \<Rightarrow> server_config_t) \<Rightarrow> u32 option \<Rightarrow> server_config_t \<Rightarrow> server_config_t \<times> bool" where
  "set_ip upd v c = (case v of Some a \<Rightarrow> (upd a, True) | None \<Rightarrow> (c, False))"

definition call_handler ::
    "(bytes \<Rightarrow> u32 option) \<Rightarrow> conf_var \<Rightarrow> bytes \<Rightarrow> server_config_t \<Rightarrow> (server_config_t \<times> bool) option" where
  "call_handler resolve k line c =
     (case k of
        K_start \<Rightarrow> Some (set_ip (\<lambda>a. c\<lparr>c_start := a\<rparr>) (read_ip resolve line) c)
      | K_end \<Rightarrow> Some (set_ip (\<lambda>a. c\<lparr>c_end := a\<rparr>) (read_ip resolve line) c)
      | K_siaddr \<Rightarrow> Some (set_ip (\<lambda>a. c\<lparr>c_siaddr := a\<rparr>) (read_ip resolve line) c)
      | K_interface \<Rightarrow> Some (c\<lparr>c_interface := read_str line\<rparr>, True)
      | K_lease_file \<Rightarrow> Some (c\<lparr>c_lease_file := read_str line\<rparr>, True)
      | K_pidfile \<Rightarrow> Some (c\<lparr>c_pidfile := read_str line\<rparr>, True)
      | K_notify_file \<Rightarrow> Some (c\<lparr>c_notify_file := Some (read_str line)\<rparr>, True)
      | K_sname \<Rightarrow> Some (c\<lparr>c_sname := Some (read_str line)\<rparr>, True)
      | K_boot_file \<Rightarrow> Some (c\<lparr>c_boot_file := Some (read_str line)\<rparr>, True)
      | K_inflease_time \<Rightarrow> Some (let (v, ok) = read_u32 line in (c\<lparr>c_inflease_time := v\<rparr>, ok))
      | K_max_leases \<Rightarrow> Some (let (v, ok) = read_u32 line in (c\<lparr>c_max_leases := v\<rparr>, ok))
      | K_auto_time \<Rightarrow> Some (let (v, ok) = read_u32 line in (c\<lparr>c_auto_time := v\<rparr>, ok))
      | K_decline_time \<Rightarrow> Some (let (v, ok) = read_u32 line in (c\<lparr>c_decline_time := v\<rparr>, ok))
      | K_conflict_time \<Rightarrow> Some (let (v, ok) = read_u32 line in (c\<lparr>c_conflict_time := v\<rparr>, ok))
      | K_offer_time \<Rightarrow> Some (let (v, ok) = read_u32 line in (c\<lparr>c_offer_time := v\<rparr>, ok))
      | K_min_lease \<Rightarrow> Some (let (v, ok) = read_u32 line in (c\<lparr>c_min_lease := v\<rparr>, ok))
      | K_remaining \<Rightarrow> Some (case read_yn line of Some b \<Rightarrow> (c\<lparr>c_remaining := b\<rparr>, True) | None \<Rightarrow> (c, False))
      | K_option \<Rightarrow> do { (os, ok) \<leftarrow> read_opt resolve line (c_options c); Some (c\<lparr>c_options := os\<rparr>, ok) }
      | K_opt \<Rightarrow> do { (os, ok) \<leftarrow> read_opt resolve line (c_options c); Some (c\<lparr>c_options := os\<rparr>, ok) })"

definition zero_config :: server_config_t where
  "zero_config = \<lparr> c_server = 0, c_start = 0, c_end = 0, c_options = [], c_interface = [], c_ifindex = 0,
     c_arp = replicate 6 0, c_lease = 0, c_max_leases = 0, c_remaining = False, c_auto_time = 0,
     c_decline_time = 0, c_conflict_time = 0, c_offer_time = 0, c_min_lease = 0, c_lease_file = [], c_pidfile = [],
     c_notify_file = None, c_siaddr = 0, c_sname = None, c_boot_file = None, c_active = False,
     c_inflease_time = 0, c_leases = [] \<rparr>"

fun set_defaults ::
    "(bytes \<Rightarrow> u32 option) \<Rightarrow> (bytes \<times> conf_var \<times> bytes) list \<Rightarrow> server_config_t \<Rightarrow> server_config_t option" where
  "set_defaults resolve [] c = Some c"
| "set_defaults resolve ((w, k, def) # ks) c =
     (if def = [] then set_defaults resolve ks c
      else do { (c', ok) \<leftarrow> call_handler resolve k def c; set_defaults resolve ks c' })"

text \<open>
  Splitting a line into the keyword and its argument: strip the newline and the comment, skip
  blanks, cut the keyword, skip the separators, cut trailing white space.
\<close>

definition split_line :: "bytes \<Rightarrow> (bytes \<times> bytes) option" where
  "split_line buffer =
     (let b = takeWhile (\<lambda>c. c \<noteq> 35) (takeWhile (\<lambda>c. c \<noteq> 10) (takeWhile (\<lambda>c. c \<noteq> 0) buffer));
          token = dropWhile (\<lambda>c. c = 32 \<or> c = 9) b;
          word = takeWhile (\<lambda>c. c \<noteq> 32 \<and> c \<noteq> 9 \<and> c \<noteq> 61) token;
          rest = dropWhile (\<lambda>c. c \<noteq> 32 \<and> c \<noteq> 9 \<and> c \<noteq> 61) token in
      if token = [] \<or> rest = [] then None
      else Some (word, rev (dropWhile isspace (rev (dropWhile (\<lambda>c. c = 32 \<or> c = 9 \<or> c = 61) (tl rest))))))"

text \<open>
  One line: the keyword \<^verbatim>\<open>start\<close> opens the next interface; an index outside the array of keyword
  tables is an out-of-bounds access.
\<close>

definition config_line ::
    "(bytes \<Rightarrow> u32 option) \<Rightarrow> bytes \<Rightarrow> int \<Rightarrow> server_config_t list \<Rightarrow> (int \<times> server_config_t list) option" where
  "config_line resolve buffer index cs =
     (case split_line buffer of
        None \<Rightarrow> Some (index, cs)
      | Some (token, line) \<Rightarrow>
          let index' = (if strcaseeq token (cstr ''start'') then index + 1 else index) in
          if index' < 0 \<or> int MAX_INTERFACES \<le> index' then None
          else case find (\<lambda>(w, k, def). strcaseeq token w) (k_arr (nat index')) of
            None \<Rightarrow> Some (index', cs)
          | Some (w, k, def) \<Rightarrow> do {
              c \<leftarrow> rd cs (nat index');
              (c', ok) \<leftarrow> call_handler resolve k line c;
              (c'', ok') \<leftarrow> (if ok then Some (c', ok) else call_handler resolve k def c');
              cs' \<leftarrow> wr cs (nat index') c'';
              Some (index', cs') })"

function config_lines ::
    "(bytes \<Rightarrow> u32 option) \<Rightarrow> bytes \<Rightarrow> int \<Rightarrow> server_config_t list \<Rightarrow> (int \<times> server_config_t list) option" where
  "config_lines resolve inp index cs =
     (if inp = [] then Some (index, cs)
      else do {
        (index', cs') \<leftarrow> config_line resolve (fst (fgets 80 inp)) index cs;
        config_lines resolve (snd (fgets 80 inp)) index' cs' })"
  by pat_completeness auto
termination
  by (relation "measure (\<lambda>(resolve, inp, index, cs). length inp)") (auto simp: fgets_shorter)

declare config_lines.simps [simp del]

text \<open>The result is the array of configurations and the number of interfaces.\<close>

definition read_config ::
    "(bytes \<Rightarrow> u32 option) \<Rightarrow> bytes option \<Rightarrow> (server_config_t list \<times> nat) option" where
  "read_config resolve file = do {
     cs \<leftarrow> those (map (\<lambda>index. set_defaults resolve (k_arr index) zero_config) [0..<MAX_INTERFACES]);
     case file of
       None \<Rightarrow> Some (cs, 0)
     | Some inp \<Rightarrow> do {
         (index, cs') \<leftarrow> config_lines resolve inp (- 1) cs;
         Some (cs', nat (index + 1)) } }"

section \<open>Writing the lease file\<close>

text \<open>
  One entry: the updated entry, the text for the lease file and the line for the delta file.  The
  remaining time is printed as a signed number.  The buffer \<^verbatim>\<open>line\<close> has 100 bytes.
\<close>

definition lease_text :: "dhcpOfferedAddr \<Rightarrow> u32 \<Rightarrow> bytes" where
  "lease_text l t = print_mac (l_chaddr l) @ [32] @ inet_ntoa (l_yiaddr l) @ [32] @ dec_int (sint t) @ [32] @
     l_hostname l @ [10]"

definition write_lease :: "srv_env \<Rightarrow> srv \<Rightarrow> dhcpOfferedAddr \<Rightarrow> (srv \<times> dhcpOfferedAddr \<times> bytes) option" where
  "write_lease env s l =
     (if l_yiaddr l = 0 then Some (s, l, [])
      else do {
        (s', l', t) \<leftarrow>
          (if c_remaining (s_cfg s) then
             (if lease_expired s l then do {
                s' \<leftarrow> (if l_expires l \<noteq> 0 then write_to_delta env s (l_chaddr l) (l_yiaddr l) (l_hostname l) 0 LEASE_DEL
                       else Some s);
                Some (s', l\<lparr>l_expires := 0\<rparr>, 0) }
              else Some (s, l, if l_expires l \<noteq> c_inflease_time (s_cfg s) then l_expires l - s_now s
                               else c_inflease_time (s_cfg s)))
           else Some (s, l, l_expires l));
        if length (lease_text l t) < 100 then Some (s', l', lease_text l t) else None })"

fun write_lease_list ::
    "srv_env \<Rightarrow> srv \<Rightarrow> dhcpOfferedAddr list \<Rightarrow> (srv \<times> dhcpOfferedAddr list \<times> bytes) option" where
  "write_lease_list env s [] = Some (s, [], [])"
| "write_lease_list env s (l # ls) = do {
     (s1, l', t) \<leftarrow> write_lease env s l;
     (s2, ls', ts) \<leftarrow> write_lease_list env s1 ls;
     Some (s2, l' # ls', t @ ts) }"

definition write_leases :: "srv_env \<Rightarrow> srv \<Rightarrow> srv option" where
  "write_leases env s =
     (if \<not> e_lease_file env then Some s
      else do {
        (s1, ls, text) \<leftarrow> write_lease_list env s (s_leases s);
        s2 \<leftarrow> Some (emit (set_leases s1 ls) [LeaseFile text]);
        case c_notify_file (s_cfg s) of
          None \<Rightarrow> Some s2
        | Some n \<Rightarrow>
            let buf = n @ [32] @ c_lease_file (s_cfg s) in
            if length buf < 255 then Some (emit s2 [Notify buf]) else None })"

section \<open>Reading the lease file\<close>

text \<open>The variables of \<^verbatim>\<open>read_leases\<close>; \<^term>\<open>None\<close> is an uninitialised one.\<close>

record entry_vars =
  v_macaddr :: "bytes option"
  v_ipaddress :: "bytes option"
  v_leasetime :: "u32 option"
  v_hname :: "bytes option"

definition scan_word :: "bytes \<Rightarrow> bytes \<times> bytes" where
  "scan_word s = (let t = dropWhile isspace s in (takeWhile (\<lambda>c. \<not> isspace c) t, dropWhile (\<lambda>c. \<not> isspace c) t))"

text \<open>
  \<^verbatim>\<open>fscanf(fp, "%s %s %u %s\n", ...)\<close>: the number of conversions or \<^verbatim>\<open>EOF\<close> (\<^term>\<open>- 1 :: int\<close>), the variables and
  the rest of the file.  A conversion that finds no input ends the call; a word that does not fit
  its array is an overflow.
\<close>

definition readentry :: "entry_vars \<Rightarrow> bytes \<Rightarrow> (int \<times> entry_vars \<times> bytes) option" where
  "readentry v s =
     (let (mac, s1) = scan_word s in
      if mac = [] then Some (- 1, v, s1)
      else if 18 \<le> length mac then None
      else let v1 = v\<lparr>v_macaddr := Some mac\<rparr>; (ip, s2) = scan_word s1 in
      if ip = [] then Some (1, v1, s2)
      else if 17 \<le> length ip then None
      else let v2 = v1\<lparr>v_ipaddress := Some ip\<rparr> in
      case scan_number 10 s2 of
        None \<Rightarrow> Some (2, v2, dropWhile isspace s2)
      | Some (neg, n, s3) \<Rightarrow>
          let v3 = v2\<lparr>v_leasetime := Some (clamp_unsigned neg n)\<rparr>; (hname, s4) = scan_word s3 in
          if hname = [] then Some (3, v3, s4)
          else if 50 \<le> length hname then None
          else Some (4, v3\<lparr>v_hname := Some hname\<rparr>, dropWhile isspace s4))"

text \<open>
  \<^verbatim>\<open>sscanf(macaddr, "%x:%x:%x:%x:%x:%x", ...)\<close>: every conversion stores four bytes at its position in
  the hardware address.
\<close>

fun scan_mac :: "nat \<Rightarrow> nat \<Rightarrow> bytes \<Rightarrow> bytes \<Rightarrow> bytes option" where
  "scan_mac 0 k s chaddr = Some chaddr"
| "scan_mac (Suc n) k s chaddr =
     (case scan_number 16 s of
        None \<Rightarrow> Some chaddr
      | Some (neg, v, rest) \<Rightarrow> do {
          chaddr' \<leftarrow> wr_n chaddr k (le32 (clamp_unsigned neg v));
          case rest of
            [] \<Rightarrow> Some chaddr'
          | c # r \<Rightarrow> if n \<noteq> 0 \<and> c = 58 then scan_mac n (k + 1) r chaddr' else Some chaddr' })"

lemma length_scan_word: "fst (scan_word s) \<noteq> [] \<Longrightarrow> length (snd (scan_word s)) < length s"
  "length (snd (scan_word s)) \<le> length s"
proof -
  define t where "t = dropWhile isspace s"
  have t: "length t \<le> length s" unfolding t_def by (rule length_dropWhile_le)
  have tt: "length (takeWhile (\<lambda>c. \<not> isspace c) t) + length (dropWhile (\<lambda>c. \<not> isspace c) t) = length t"
    by (metis length_append takeWhile_dropWhile_id)
  show "length (snd (scan_word s)) < length s" if "fst (scan_word s) \<noteq> []"
    using that t tt unfolding scan_word_def Let_def t_def [symmetric] by (cases "takeWhile (\<lambda>c. \<not> isspace c) t") auto
  show "length (snd (scan_word s)) \<le> length s"
    using t tt unfolding scan_word_def Let_def t_def [symmetric] by simp
qed

lemma length_digits: "length (snd (digits base v s)) \<le> length s"
  by (induction base v s rule: digits.induct) auto

lemma length_scan_number:
  assumes "scan_number base s = Some (neg, v, rest)"
  shows "length rest \<le> length s"
proof -
  define s2 where "s2 = skip_sign (dropWhile isspace s)"
  have "length s2 \<le> length (dropWhile isspace s)" by (simp add: s2_def skip_sign_def)
  also have "\<dots> \<le> length s" by (rule length_dropWhile_le)
  finally have len: "length s2 \<le> length s" .
  define b where
    "b = (if base \<noteq> 0 then base else if has_0x s2 then 16 else if s2 \<noteq> [] \<and> hd s2 = 48 then 8 else 10)"
  define s3 where "s3 = (if b = 16 \<and> has_0x s2 then drop 2 s2 else s2)"
  have "rest = snd (digits b 0 s3)"
    using assms unfolding scan_number_def Let_def s2_def [symmetric] b_def [symmetric] s3_def [symmetric]
    by (simp split: if_split_asm)
  moreover have "length s3 \<le> length s2" by (simp add: s3_def)
  ultimately show ?thesis using len length_digits [of b 0 s3] by simp
qed

lemma readentry_shorter:
  assumes "readentry v s = Some (n, v', s')" "n \<noteq> - 1"
  shows "length s' < length s"
proof -
  obtain mac s1 where w1: "scan_word s = (mac, s1)" by fastforce
  obtain ip s2 where w2: "scan_word s1 = (ip, s2)" by fastforce
  have mac: "mac \<noteq> []" using assms w1 by (auto simp: readentry_def)
  have "length s1 < length s" using length_scan_word(1) [of s] w1 mac by simp
  moreover have "length s2 \<le> length s1" using length_scan_word(2) [of s1] w2 by simp
  moreover have "length s' \<le> length s2"
  proof (cases "scan_number 10 s2")
    case None
    then show ?thesis
      using assms w1 w2 mac by (auto simp: readentry_def Let_def length_dropWhile_le split: if_splits)
  next
    case (Some r)
    obtain neg k s3 where r: "r = (neg, k, s3)" by (cases r)
    obtain h s4 where w3: "scan_word s3 = (h, s4)" by fastforce
    have "length s3 \<le> length s2" using length_scan_number Some r by blast
    moreover have "length s4 \<le> length s3" using length_scan_word(2) [of s3] w3 by simp
    moreover have "length (dropWhile isspace s4) \<le> length s4" by (rule length_dropWhile_le)
    ultimately show ?thesis
      using assms w1 w2 w3 mac Some r by (auto simp: readentry_def Let_def split: if_splits)
  qed
  ultimately show ?thesis by simp
qed

text \<open>
  The range test compares addresses in network byte order as numbers, as the source does.
\<close>

function read_lease_loop :: "srv_env \<Rightarrow> srv \<Rightarrow> entry_vars \<Rightarrow> bytes \<Rightarrow> srv option" where
  "read_lease_loop env s v inp =
     (case readentry v inp of
        None \<Rightarrow> None
      | Some (n, v', rest) \<Rightarrow>
          if n = - 1 then Some s
          else do {
            ip \<leftarrow> v_ipaddress v';
            case inet_aton ip of
              None \<Rightarrow> read_lease_loop env s v' rest
            | Some yiaddr \<Rightarrow> do {
                mac \<leftarrow> v_macaddr v';
                chaddr \<leftarrow> scan_mac 6 0 mac (replicate 16 0);
                leasetime \<leftarrow> v_leasetime v';
                hname \<leftarrow> v_hname v';
                if c_start (s_cfg s) \<le> yiaddr \<and> yiaddr \<le> c_end (s_cfg s) then do {
                  (s', r) \<leftarrow> add_lease env s chaddr yiaddr
                    (if \<not> c_remaining (s_cfg s) then leasetime - s_now s else leasetime) hname;
                  case r of None \<Rightarrow> Some s' | Some i \<Rightarrow> read_lease_loop env s' v' rest }
                else read_lease_loop env s v' rest } })"
  by pat_completeness auto
termination
  by (relation "measure (\<lambda>(env, s, v, inp). length inp)") (auto dest: readentry_shorter)

declare read_lease_loop.simps [simp del]

definition read_leases :: "srv_env \<Rightarrow> bytes option \<Rightarrow> srv \<Rightarrow> srv option" where
  "read_leases env file s =
     (case file of
        None \<Rightarrow> Some s
      | Some inp \<Rightarrow>
          read_lease_loop env s \<lparr> v_macaddr = None, v_ipaddress = None, v_leasetime = None, v_hname = None \<rparr> inp)"

section \<open>Printing and reading hardware addresses\<close>

lemma digit_value_hex_digit:
  assumes "n < 16"
  shows "digit_value (hex_digit n) = unat n" "hex_digit n \<noteq> 120" "hex_digit n \<noteq> 88" "\<not> isspace (hex_digit n)"
    "hex_digit n \<noteq> 45" "hex_digit n \<noteq> 43"
proof -
  have lt: "unat n < 16" using assms by (simp add: word_less_nat_alt)
  then have u: "unat (48 + n) = 48 + unat n" "unat (87 + n) = 87 + unat n"
    by (simp_all add: unat_word_ariths)
  note ws = hex_digit_def digit_value_def isdigit_def islower_def isspace_def word_le_nat_alt word_less_nat_alt
    word_unat_eq_iff u
  show "digit_value (hex_digit n) = unat n"
    using lt u by (cases "n < 10") (simp_all add: ws)
  show "hex_digit n \<noteq> 120" "hex_digit n \<noteq> 88" "\<not> isspace (hex_digit n)" "hex_digit n \<noteq> 45" "hex_digit n \<noteq> 43"
    using lt by (cases "n < 10"; simp add: ws)+
qed

lemma nibble_bounds: "drop_bit 4 (b :: u8) < 16" "b AND 15 < 16"
  and nibble_value: "unat (drop_bit 4 b) * 16 + unat (b AND 15) = unat b"
proof -
  have d: "unat (drop_bit 4 b) = unat b div 16" by (simp add: drop_bit_eq_div unat_div)
  have m: "unat (b AND 15) = unat b mod 16"
  proof -
    have "b AND 15 = take_bit 4 b" by (simp add: take_bit_eq_mask mask_eq_exp_minus_1)
    then show ?thesis by (simp add: take_bit_eq_mod unat_mod)
  qed
  show "drop_bit 4 b < 16" "b AND 15 < 16"
    unfolding word_less_nat_alt d m using unat_u8_le [of b] by simp_all
  show "unat (drop_bit 4 b) * 16 + unat (b AND 15) = unat b" unfolding d m by simp
qed

lemma scan_number_hex2:
  assumes "r = [] \<or> hd r = 58"
  shows "scan_number 16 (hex2 b @ r) = Some (False, unat b, r)"
proof -
  let ?h = "hex_digit (drop_bit 4 b)" and ?l = "hex_digit (b AND 15)"
  note h = digit_value_hex_digit [OF nibble_bounds(1) [of b]] and l = digit_value_hex_digit [OF nibble_bounds(2) [of b]]
  have lt: "unat (drop_bit 4 b) < 16" "unat (b AND 15) < 16"
    using nibble_bounds [of b] by (simp_all add: word_less_nat_alt)
  have "16 \<le> digit_value 58" by (simp add: digit_value_def isdigit_def islower_def isupper_def)
  then have stop: "digits 16 v r = (v, r)" for v using assms by (intro digits_stop) auto
  have "\<not> has_0x (?h # ?l # r)" using l by (simp add: has_0x_def)
  then show ?thesis
    using h l lt by (simp add: hex2_def scan_number_def Let_def skip_sign_def stop nibble_value)
qed

section \<open>The lease file\<close>

lemma zeros16: "replicate 16 (0 :: u8) = [0, 0, 0, 0, 0, 0, 0, 0, 0, 0, 0, 0, 0, 0, 0, 0]"
  by (simp add: numeral_eq_Suc)

lemma le32_byte: "le32 (ucast (b :: u8)) = [b, 0, 0, 0]"
proof -
  have hi: "\<not> bit b (k + n)" if "8 \<le> k" for k n using bit_imp_le_length [of b "k + n"] that by auto
  have "ucast (drop_bit k (ucast b :: u32)) = (0 :: u8)" if "8 \<le> k" for k
    using hi [OF that] by (intro bit_word_eqI) (simp add: bit_simps)
  moreover have "ucast (ucast b :: u32) = b" by (rule bit_word_eqI) (auto simp: bit_simps)
  ultimately show ?thesis by (simp add: le32_def)
qed

lemma clamp_byte: "clamp_unsigned False (unat (b :: u8)) = of_nat (unat b)"
  using unat_u8_le [of b] by (simp add: clamp_unsigned_def)

lemma scan_mac_print_mac:
  assumes "6 \<le> length a"
  shows "scan_mac 6 0 (print_mac a) (replicate 16 0) = Some (take 6 a @ replicate 10 0)"
proof -
  have six: "6 = Suc (Suc (Suc (Suc (Suc (Suc 0)))))" by simp
  obtain a0 a1 a2 a3 a4 a5 r where a: "a = a0 # a1 # a2 # a3 # a4 # a5 # r"
    using assms unfolding six by (auto simp: Suc_le_length_iff)
  have z: "replicate 10 (0 :: u8) = [0, 0, 0, 0, 0, 0, 0, 0, 0, 0]" by (simp add: numeral_eq_Suc)
  show ?thesis
    unfolding zeros16 z unfolding six a print_mac_def
    by (simp add: scan_number_hex2 scan_number_hex2 [where r = "[]", simplified] clamp_byte le32_byte wr_n_def)
qed

lemma scan_word_append:
  assumes "w \<noteq> []" "\<forall>c\<in>set w. \<not> isspace c" "isspace c"
  shows "scan_word (w @ c # r) = (w, c # r)" "scan_word (32 # w @ c # r) = (w, c # r)"
proof -
  have "dropWhile isspace (w @ c # r) = w @ c # r" using assms(1,2) by (cases w) auto
  moreover have "takeWhile (\<lambda>c. \<not> isspace c) (w @ c # r) = w" "dropWhile (\<lambda>c. \<not> isspace c) (w @ c # r) = c # r"
    using assms(2,3) by (auto simp: takeWhile_append2 dropWhile_append2)
  ultimately show "scan_word (w @ c # r) = (w, c # r)" "scan_word (32 # w @ c # r) = (w, c # r)"
    by (simp_all add: scan_word_def Let_def)
qed

lemma print_mac_no_space: "\<forall>c\<in>set (print_mac a). \<not> isspace c" "print_mac a \<noteq> []"
proof -
  have "\<not> isspace c" if "c \<in> set (hex2 b)" for b c
    using that digit_value_hex_digit(4) [OF nibble_bounds(1)] digit_value_hex_digit(4) [OF nibble_bounds(2)]
    by (auto simp: hex2_def)
  moreover have "\<not> isspace 58" by (simp add: isspace_def)
  ultimately show "\<forall>c\<in>set (print_mac a). \<not> isspace c" by (auto simp: print_mac_def)
  show "print_mac a \<noteq> []" by (simp add: print_mac_def hex2_def)
qed

lemma inet_ntoa_no_space: "\<forall>c\<in>set (inet_ntoa w). \<not> isspace c" "inet_ntoa w \<noteq> []"
proof -
  have "\<not> isspace 46" by (simp add: isspace_def)
  then show "\<forall>c\<in>set (inet_ntoa w). \<not> isspace c"
    using dec_digits isdigit_not_isspace by (auto simp: inet_ntoa_def Let_def)
  show "inet_ntoa w \<noteq> []" by (simp add: inet_ntoa_def Let_def)
qed

text \<open>An entry that is written in a form the reader accepts.\<close>

definition host_ok :: "bytes \<Rightarrow> bool" where
  "host_ok h \<longleftrightarrow> h \<noteq> [] \<and> length h \<le> 30 \<and> (\<forall>c\<in>set h. \<not> isspace c)"

lemma readentry_lease_text:
  assumes "host_ok (l_hostname l)" "rest = [] \<or> \<not> isspace (hd rest)"
  shows "readentry v (lease_text l t @ rest) =
    Some (4, \<lparr> v_macaddr = Some (print_mac (l_chaddr l)), v_ipaddress = Some (inet_ntoa (l_yiaddr l)),
      v_leasetime = Some t, v_hname = Some (l_hostname l) \<rparr>, rest)"
proof -
  let ?m = "print_mac (l_chaddr l)" and ?i = "inet_ntoa (l_yiaddr l)" and ?h = "l_hostname l"
  have nl: "isspace 10" by (simp add: isspace_def)
  have h: "?h \<noteq> []" "\<forall>c\<in>set ?h. \<not> isspace c" "length ?h < 50" using assms(1) by (auto simp: host_ok_def)
  have whole: "lease_text l t @ rest = ?m @ 32 # ?i @ 32 # dec_int (sint t) @ 32 # ?h @ 10 # rest"
    by (simp add: lease_text_def)
  have 1: "scan_word (lease_text l t @ rest) = (?m, 32 # ?i @ 32 # dec_int (sint t) @ 32 # ?h @ 10 # rest)"
    unfolding whole by (rule scan_word_append(1)) (use print_mac_no_space in auto)
  have 2: "scan_word (32 # ?i @ 32 # dec_int (sint t) @ 32 # ?h @ 10 # rest) = (?i, 32 # dec_int (sint t) @ 32 # ?h @ 10 # rest)"
    by (rule scan_word_append(2)) (use inet_ntoa_no_space in auto)
  have 3: "scan_number 10 (32 # dec_int (sint t) @ 32 # ?h @ 10 # rest) =
      Some (sint t < 0, nat \<bar>sint t\<bar>, 32 # ?h @ 10 # rest)"
    by (rule scan_number_dec_int)
  have 4: "scan_word (32 # ?h @ 10 # rest) = (?h, 10 # rest)"
    by (rule scan_word_append(2)) (use h nl in auto)
  have "length ?m < 18" "length ?i < 17" using length_inet_ntoa_le [of "l_yiaddr l"] by simp_all
  moreover have "dropWhile isspace (10 # rest) = rest" using assms(2) nl by (cases rest) auto
  ultimately show ?thesis
    using h print_mac_no_space(2) inet_ntoa_no_space(2) unfolding readentry_def 1 prod.case Let_def 2 3 option.case 4
    by (simp add: clamp_sint)
qed

text \<open>
  \<open>saved_ok\<close>: a lease that has not expired, of a client with a 6-byte hardware address and a
  printable host name, for an address the reader's range test accepts, and whose remaining time is
  not by chance the number that stands for an infinite lease.
\<close>

definition remaining_time :: "srv \<Rightarrow> dhcpOfferedAddr \<Rightarrow> u32" where
  "remaining_time s l =
     (if l_expires l \<noteq> c_inflease_time (s_cfg s) then l_expires l - s_now s else c_inflease_time (s_cfg s))"

definition saved_ok :: "srv \<Rightarrow> dhcpOfferedAddr \<Rightarrow> bool" where
  "saved_ok s l \<longleftrightarrow> l_yiaddr l \<noteq> 0 \<and> host_ok (l_hostname l) \<and> \<not> lease_expired s l \<and>
     length (l_chaddr l) = 16 \<and> drop 6 (l_chaddr l) = replicate 10 0 \<and> \<not> zerohwaddr (l_chaddr l) \<and>
     c_start (s_cfg s) \<le> l_yiaddr l \<and> l_yiaddr l \<le> c_end (s_cfg s) \<and>
     (l_expires l \<noteq> c_inflease_time (s_cfg s) \<longrightarrow> l_expires l - s_now s \<noteq> c_inflease_time (s_cfg s))"

definition lease_file_text :: "srv \<Rightarrow> dhcpOfferedAddr list \<Rightarrow> bytes" where
  "lease_file_text s ls = concat (map (\<lambda>l. lease_text l (remaining_time s l)) ls)"

lemma length_lease_text: "length (lease_text l t) \<le> 47 + length (l_hostname l)"
  using length_inet_ntoa_le [of "l_yiaddr l"] length_dec_int32 [of t] by (simp add: lease_text_def)

lemma write_lease_saved:
  assumes "c_remaining (s_cfg s)" "l_yiaddr l = 0 \<or> saved_ok s l"
  shows "write_lease env s l = Some (s, l, if l_yiaddr l = 0 then [] else lease_text l (remaining_time s l))"
proof (cases "l_yiaddr l = 0")
  case True
  then show ?thesis by (simp add: write_lease_def)
next
  case False
  with assms have ok: "saved_ok s l" by simp
  then have "length (lease_text l (remaining_time s l)) < 100"
    using length_lease_text [of l "remaining_time s l"] by (simp add: saved_ok_def host_ok_def)
  with False ok assms(1) show ?thesis
    by (simp add: write_lease_def saved_ok_def remaining_time_def)
qed

lemma write_lease_list_saved:
  assumes "c_remaining (s_cfg s)" "\<forall>l\<in>set ls. l_yiaddr l = 0 \<or> saved_ok s l"
  shows "write_lease_list env s ls = Some (s, ls, lease_file_text s (filter (\<lambda>l. l_yiaddr l \<noteq> 0) ls))"
  using assms by (induction ls) (auto simp: write_lease_saved lease_file_text_def)

lemma lease_file_text_start: "lease_file_text s ls = [] \<or> \<not> isspace (hd (lease_file_text s ls))"
proof (cases ls)
  case (Cons l ls')
  have "hd (print_mac (l_chaddr l) @ r) \<in> set (print_mac (l_chaddr l))" for r
    using print_mac_no_space(2) [of "l_chaddr l"] by (cases "print_mac (l_chaddr l)") auto
  then show ?thesis
    using print_mac_no_space(1) [of "l_chaddr l"] unfolding Cons by (simp add: lease_file_text_def lease_text_def)
qed (simp add: lease_file_text_def)

text \<open>Reading an entry back into a table that has room puts it at the first free place.\<close>

lemma oldest_loop_skip:
  assumes "\<forall>l\<in>set xs. l_expires l = inft \<or> t \<le> l_expires l"
  shows "oldest_loop inft t best k (xs @ ys) = oldest_loop inft t best (k + length xs) ys"
  using assms by (induction xs arbitrary: k) auto

lemma oldest_loop_zero:
  "oldest_loop inft 0 best k ls = best"
  by (induction ls arbitrary: k) auto

lemma add_lease_append:
  assumes ls: "s_leases s = done @ replicate (Suc k) zero_lease"
    and old: "\<forall>l\<in>set done. saved_ok s l"
    and new: "saved_ok s l" "\<forall>x\<in>set done. l_yiaddr x \<noteq> l_yiaddr l \<and> l_chaddr x \<noteq> l_chaddr l"
    and t: "0 < s_now s" "c_inflease_time (s_cfg s) \<noteq> 0"
  shows "\<exists>s'. add_lease env s (l_chaddr l) (l_yiaddr l) (remaining_time s l) (l_hostname l) = Some (s', Some (length done)) \<and>
    s_leases s' = done @ l # replicate k zero_lease \<and> same_cfg s s' \<and> s_now s' = s_now s"
proof -
  have nz: "l_chaddr l \<noteq> replicate 16 0" "l_yiaddr l \<noteq> 0" "\<not> zerohwaddr (l_chaddr l)" "length (l_hostname l) \<le> 30"
    using new(1) by (auto simp: saved_ok_def zerohwaddr_def host_ok_def)
  have "clear_lease (l_chaddr l) (l_yiaddr l) (s_leases s) = s_leases s"
    using new(2) nz unfolding clear_lease_def ls by (auto simp: lease_simps intro!: map_idI)
  then have cl: "set_leases s (clear_lease (l_chaddr l) (l_yiaddr l) (s_leases s)) = s"
    by (simp add: set_leases_def)
  have "\<forall>x\<in>set done. l_expires x = c_inflease_time (s_cfg s) \<or> s_now s \<le> l_expires x"
    using old by (auto simp: saved_ok_def lease_expired_def split: if_splits)
  then have idx: "oldest_expired_lease s = Some (length done)"
    using t unfolding oldest_expired_lease_def ls by (simp add: oldest_loop_skip oldest_loop_zero lease_simps)
  have e: "lease_entry s (l_chaddr l) (l_yiaddr l) (remaining_time s l) (l_hostname l) = l"
    using new(1) by (simp add: lease_entry_def remaining_time_def saved_ok_def)
  obtain s' r where a: "add_lease env s (l_chaddr l) (l_yiaddr l) (remaining_time s l) (l_hostname l) = Some (s', r)"
    using add_lease_returns [OF nz(4)] by blast
  have r: "r = Some (length done)"
    using a idx nz(3) by (simp add: add_lease_def Let_def cl bind_Some_iff split: if_split_asm)
  from a have "s_leases s' = (s_leases s)[length done := l]"
  proof (cases rule: add_lease_cases)
    case full
    with r show ?thesis by simp
  next
    case (added i es)
    have "cleared s (l_chaddr l) (l_yiaddr l) = s" using nz(3) by (simp add: cleared_def cl)
    with added r show ?thesis by (simp add: e lease_simps)
  qed
  then have "s_leases s' = done @ l # replicate k zero_lease" by (simp add: ls list_update_append)
  with a r add_lease_same_cfg [OF a] add_lease_now [OF a] show ?thesis by simp
qed

lemma remaining_time_cong: "same_cfg s s' \<Longrightarrow> s_now s' = s_now s \<Longrightarrow> remaining_time s' l = remaining_time s l"
  by (simp add: remaining_time_def same_cfg_fields(9))

lemma lease_file_text_cong: "same_cfg s s' \<Longrightarrow> s_now s' = s_now s \<Longrightarrow> lease_file_text s' ls = lease_file_text s ls"
  by (simp add: lease_file_text_def remaining_time_cong)

lemma saved_ok_cong: "same_cfg s s' \<Longrightarrow> s_now s' = s_now s \<Longrightarrow> saved_ok s' l = saved_ok s l"
  by (simp add: saved_ok_def lease_expired_def same_cfg_fields(2,3,9))

lemma same_cfg_remaining: "same_cfg s s' \<Longrightarrow> c_remaining (s_cfg s') = c_remaining (s_cfg s)"
  unfolding same_cfg_def by auto

lemma uniq_key_head:
  assumes "uniq_key f z (xs @ l # ys)" "f l \<noteq> z"
  shows "\<forall>x\<in>set xs. f x \<noteq> f l"
proof
  fix x assume "x \<in> set xs"
  moreover have "f l \<notin> f ` set xs" using assms by (auto simp: uniq_key_def)
  ultimately show "f x \<noteq> f l" by (metis imageI)
qed

lemma read_lease_loop_saved:
  assumes "s_leases s = done @ replicate (length ls + k) zero_lease"
    and "\<forall>l\<in>set (done @ ls). saved_ok s l"
    and "uniq_key l_yiaddr 0 (done @ ls)" "uniq_key l_chaddr (replicate 16 0) (done @ ls)"
    and "0 < s_now s" "c_inflease_time (s_cfg s) \<noteq> 0" "c_remaining (s_cfg s)"
  shows "\<exists>s'. read_lease_loop env s v (lease_file_text s ls) = Some s' \<and>
    s_leases s' = done @ ls @ replicate k zero_lease \<and> same_cfg s s'"
  using assms
proof (induction ls arbitrary: s v "done")
  case Nil
  have "readentry v [] = Some (- 1, v, [])" by (simp add: readentry_def scan_word_def)
  with Nil show ?case by (subst read_lease_loop.simps) (simp add: lease_file_text_def)
next
  case (Cons l ls)
  have l: "saved_ok s l" using Cons.prems(2) by simp
  then have nz: "l_yiaddr l \<noteq> 0" "l_chaddr l \<noteq> replicate 16 0" by (auto simp: saved_ok_def zerohwaddr_def)
  let ?v = "\<lparr> v_macaddr = Some (print_mac (l_chaddr l)), v_ipaddress = Some (inet_ntoa (l_yiaddr l)),
      v_leasetime = Some (remaining_time s l), v_hname = Some (l_hostname l) \<rparr>"
  have rd: "readentry v (lease_file_text s (l # ls)) = Some (4, ?v, lease_file_text s ls)"
    using readentry_lease_text [OF _ lease_file_text_start, of l v "remaining_time s l" s ls] l
    by (simp add: saved_ok_def lease_file_text_def)
  have mac: "scan_mac 6 0 (print_mac (l_chaddr l)) (replicate 16 0) = Some (l_chaddr l)"
    using scan_mac_print_mac [of "l_chaddr l"] l append_take_drop_id [of 6 "l_chaddr l"] by (simp add: saved_ok_def)
  have "\<forall>x\<in>set done. l_yiaddr x \<noteq> l_yiaddr l \<and> l_chaddr x \<noteq> l_chaddr l"
    using uniq_key_head [OF Cons.prems(3)] uniq_key_head [OF Cons.prems(4)] nz by blast
  then obtain s' where s': "add_lease env s (l_chaddr l) (l_yiaddr l) (remaining_time s l) (l_hostname l) = Some (s', Some (length done))"
    "s_leases s' = (done @ [l]) @ replicate (length ls + k) zero_lease" "same_cfg s s'" "s_now s' = s_now s"
    using add_lease_append [of s "done" "length ls + k" l env] Cons.prems l by auto
  have step: "read_lease_loop env s v (lease_file_text s (l # ls)) = read_lease_loop env s' ?v (lease_file_text s ls)"
    using rd mac s'(1) l Cons.prems(7)
    by (subst read_lease_loop.simps) (simp add: inet_aton_ntoa saved_ok_def)
  have "\<exists>s''. read_lease_loop env s' ?v (lease_file_text s' ls) = Some s'' \<and>
    s_leases s'' = (done @ [l]) @ ls @ replicate k zero_lease \<and> same_cfg s' s''"
    using Cons.prems s'(2-4)
    by (intro Cons.IH) (simp_all add: saved_ok_cong same_cfg_fields same_cfg_remaining)
  then show ?case
    using same_cfg_trans [OF s'(3)] unfolding step lease_file_text_cong [OF s'(3,4)] by auto
qed

lemma uniq_key_filter: "uniq_key f z xs \<Longrightarrow> uniq_key f z (filter P xs)"
  by (induction xs) (auto simp: uniq_key_def split: if_splits)

lemma write_lease_returns:
  assumes "length (l_hostname l) \<le> 30"
  shows "\<exists>s1 l' t. write_lease env s l = Some (s1, l', t) \<and> s_cfg s1 = s_cfg s"
proof -
  have len: "length (lease_text l t) < 100" for t
    using length_lease_text [of l t] assms by simp
  show ?thesis using assms by (simp add: write_lease_def write_to_delta_fits lease_simps len)
qed

lemma write_lease_list_returns:
  assumes "\<forall>l\<in>set ls. length (l_hostname l) \<le> 30"
  shows "\<exists>s' ls' t. write_lease_list env s ls = Some (s', ls', t) \<and> length ls' = length ls \<and> s_cfg s' = s_cfg s"
  using assms
proof (induction ls arbitrary: s)
  case (Cons l ls)
  obtain s1 l' t where 1: "write_lease env s l = Some (s1, l', t)" "s_cfg s1 = s_cfg s"
    using write_lease_returns [of l env s] Cons.prems by auto
  from Cons.IH [of s1] Cons.prems obtain s2 ls' ts where "write_lease_list env s1 ls = Some (s2, ls', ts)"
    "length ls' = length ls" "s_cfg s2 = s_cfg s1" by auto
  with 1 show ?case by simp
qed simp

section \<open>Properties\<close>

text \<open>C13: A lease table written to the lease file and read back, at the same time, into an empty
  table of the same size yields the same leases in the same order, moved to the front.  Every
  lease must be one the format can carry.\<close>

theorem lease_file_roundtrip:
  assumes "table_ok s" "c_remaining (s_cfg s)" "e_lease_file env" "c_notify_file (s_cfg s) = None"
    and "\<forall>l\<in>set (s_leases s). l_yiaddr l = 0 \<or> saved_ok s l"
    and "0 < s_now s" "c_inflease_time (s_cfg s) \<noteq> 0"
  shows "\<exists>s1 out s2 k. write_leases env s = Some s1 \<and> s_out s1 = s_out s @ [LeaseFile out] \<and>
    s_leases s1 = s_leases s \<and>
    read_leases env (Some out) (set_leases s (replicate (length (s_leases s)) zero_lease)) = Some s2 \<and>
    s_leases s2 = filter (\<lambda>l. l_yiaddr l \<noteq> 0) (s_leases s) @ replicate k zero_lease"
proof -
  let ?ls = "filter (\<lambda>l. l_yiaddr l \<noteq> 0) (s_leases s)"
  let ?s0 = "set_leases s (replicate (length (s_leases s)) zero_lease)"
  let ?k = "length (s_leases s) - length ?ls"
  have cfg: "same_cfg s ?s0" "s_now ?s0 = s_now s" by (simp_all add: same_cfg_set_leases lease_simps)
  have len: "length ?ls + ?k = length (s_leases s)" by (simp add: length_filter_le)
  have saved: "\<forall>l\<in>set ([] @ ?ls). saved_ok ?s0 l" using assms(5) by (auto simp: saved_ok_cong [OF cfg])
  have uniq: "uniq_key l_yiaddr 0 ([] @ ?ls)" "uniq_key l_chaddr (replicate 16 0) ([] @ ?ls)"
    using assms(1) by (simp_all add: table_ok_def uniq_key_filter)
  have room: "s_leases ?s0 = [] @ replicate (length ?ls + ?k) zero_lease" unfolding len by (simp add: lease_simps)
  have "\<exists>s2. read_lease_loop env ?s0 \<lparr> v_macaddr = None, v_ipaddress = None, v_leasetime = None, v_hname = None \<rparr>
      (lease_file_text ?s0 ?ls) = Some s2 \<and> s_leases s2 = [] @ ?ls @ replicate ?k zero_lease \<and> same_cfg ?s0 s2"
    using assms(2,6,7) by (intro read_lease_loop_saved [OF room saved uniq])
      (simp_all add: cfg(2) same_cfg_remaining [OF cfg(1)] same_cfg_fields [OF cfg(1)])
  then obtain s2 where s2: "read_leases env (Some (lease_file_text s ?ls)) ?s0 = Some s2"
    "s_leases s2 = ?ls @ replicate ?k zero_lease"
    unfolding lease_file_text_cong [OF cfg] by (auto simp: read_leases_def)
  have "write_leases env s = Some (emit (set_leases s (s_leases s)) [LeaseFile (lease_file_text s ?ls)])"
    using assms by (simp add: write_leases_def write_lease_list_saved)
  with s2 show ?thesis by (auto simp: lease_simps)
qed

theorem lease_file_roundtrip_witness:
  "\<exists>s1 out s2 k. write_leases quiet_env (set_leases sample_srv [zero_lease,
       \<lparr> l_chaddr = sample_mac, l_yiaddr = htonl 0xC0A80102, l_expires = 5000, l_hostname = cstr ''pc'' \<rparr>]) = Some s1 \<and>
     s_out s1 = [LeaseFile out] \<and> read_leases quiet_env (Some out) sample_srv = Some s2 \<and>
     s_leases s2 = \<lparr> l_chaddr = sample_mac, l_yiaddr = htonl 0xC0A80102, l_expires = 5000, l_hostname = cstr ''pc'' \<rparr> #
       replicate k zero_lease"
proof -
  let ?l = "\<lparr> l_chaddr = sample_mac, l_yiaddr = htonl 0xC0A80102, l_expires = 5000, l_hostname = cstr ''pc'' \<rparr>"
  let ?s = "set_leases sample_srv [zero_lease, ?l]"
  have "zerohwaddr (replicate 16 0)" by (simp add: zerohwaddr_def)
  then have "sample_mac \<noteq> replicate 16 0" using sample_mac_ok(2) by metis
  then have ok: "table_ok ?s"
    by (simp add: table_ok_def lease_simps sample_srv_def sample_cfg_def wf_lease_def uniq_key_def cstr_def)
  have "saved_ok ?s ?l"
    by (simp add: saved_ok_def lease_simps sample_srv_def sample_cfg_def host_ok_def cstr_def isspace_def lease_expired_def
        sample_mac_def zerohwaddr_def ntohl_def of_le32_def)
  then have saved: "\<forall>l\<in>set (s_leases ?s). l_yiaddr l = 0 \<or> saved_ok ?s l" by (simp add: lease_simps)
  have fresh: "set_leases ?s (replicate (length (s_leases ?s)) zero_lease) = sample_srv"
    by (simp add: set_leases_def sample_srv_def sample_cfg_def)
  have p: "c_remaining (s_cfg ?s)" "e_lease_file quiet_env" "c_notify_file (s_cfg ?s) = None" "0 < s_now ?s"
    "c_inflease_time (s_cfg ?s) \<noteq> 0" "s_out ?s = []"
    by (simp_all add: lease_simps sample_srv_def sample_cfg_def quiet_env_def)
  have f: "filter (\<lambda>l. l_yiaddr l \<noteq> 0) (s_leases ?s) = [?l]" by (simp add: lease_simps)
  obtain s1 out s2 k where "write_leases quiet_env ?s = Some s1" "s_out s1 = s_out ?s @ [LeaseFile out]"
    "read_leases quiet_env (Some out) sample_srv = Some s2" "s_leases s2 = [?l] @ replicate k zero_lease"
    using lease_file_roundtrip [OF ok p(1-3) saved p(4,5)] unfolding fresh f by blast
  then show ?thesis unfolding p(6) by (intro exI conjI) simp_all
qed

text \<open>The line buffer of \<^verbatim>\<open>write_leases\<close> is large enough for every table entry: if the host names
  are short enough for the delta file and the notify command is short, writing returns.\<close>

theorem write_leases_returns:
  assumes "\<forall>l\<in>set (s_leases s). length (l_hostname l) \<le> 30"
    and "\<forall>n. c_notify_file (s_cfg s) = Some n \<longrightarrow> length n + length (c_lease_file (s_cfg s)) < 254"
  shows "\<exists>s'. write_leases env s = Some s' \<and> same_cfg s s'"
proof -
  obtain s1 ls t where 1: "write_lease_list env s (s_leases s) = Some (s1, ls, t)" "length ls = length (s_leases s)"
    "s_cfg s1 = s_cfg s" using write_lease_list_returns [OF assms(1)] by blast
  have "same_cfg s (set_leases s1 ls)"
    using same_cfg_trans [of s s1] same_cfg_eqI [OF 1(3)] same_cfg_set_leases [of ls s1] 1 by simp
  then have "same_cfg s (emit (set_leases s1 ls) es)" for es
    using same_cfg_trans same_cfg_eqI by (metis emit_simps(1))
  with 1 assms(2) show ?thesis
    by (cases "c_notify_file (s_cfg s)") (auto simp: write_leases_def Let_def emit_def)
qed

theorem write_leases_returns_witness: "\<exists>s'. write_leases quiet_env sample_srv = Some s' \<and> same_cfg sample_srv s'"
  by (rule write_leases_returns) (simp_all add: sample_srv_def sample_cfg_def lease_simps)

text \<open>C34: An entry without a host name does not survive the file: the reader takes the hardware
  address of the next line as the host name and goes on in the middle of that line.\<close>

theorem nameless_lease_swallows_next:
  assumes "l_hostname l = []"
  shows "readentry v (lease_text l t @ lease_text l2 t2 @ rest) =
    Some (4, \<lparr> v_macaddr = Some (print_mac (l_chaddr l)), v_ipaddress = Some (inet_ntoa (l_yiaddr l)),
      v_leasetime = Some t, v_hname = Some (print_mac (l_chaddr l2)) \<rparr>,
      inet_ntoa (l_yiaddr l2) @ 32 # dec_int (sint t2) @ 32 # l_hostname l2 @ 10 # rest)"
proof -
  let ?m = "print_mac (l_chaddr l)" and ?i = "inet_ntoa (l_yiaddr l)" and ?h = "print_mac (l_chaddr l2)"
  let ?r = "inet_ntoa (l_yiaddr l2) @ 32 # dec_int (sint t2) @ 32 # l_hostname l2 @ 10 # rest"
  have nl: "isspace 10" by (simp add: isspace_def)
  have whole: "lease_text l t @ lease_text l2 t2 @ rest = ?m @ 32 # ?i @ 32 # dec_int (sint t) @ 32 # 10 # ?h @ 32 # ?r"
    using assms by (simp add: lease_text_def)
  have 1: "scan_word (?m @ 32 # ?i @ 32 # dec_int (sint t) @ 32 # 10 # ?h @ 32 # ?r) =
      (?m, 32 # ?i @ 32 # dec_int (sint t) @ 32 # 10 # ?h @ 32 # ?r)"
    by (rule scan_word_append(1)) (use print_mac_no_space in auto)
  have 2: "scan_word (32 # ?i @ 32 # dec_int (sint t) @ 32 # 10 # ?h @ 32 # ?r) =
      (?i, 32 # dec_int (sint t) @ 32 # 10 # ?h @ 32 # ?r)"
    by (rule scan_word_append(2)) (use inet_ntoa_no_space in auto)
  have 3: "scan_number 10 (32 # dec_int (sint t) @ 32 # 10 # ?h @ 32 # ?r) =
      Some (sint t < 0, nat \<bar>sint t\<bar>, 32 # 10 # ?h @ 32 # ?r)"
    by (rule scan_number_dec_int)
  have "scan_word (?h @ 32 # ?r) = (?h, 32 # ?r)"
    by (rule scan_word_append(1)) (use print_mac_no_space in auto)
  then have 4: "scan_word (32 # 10 # ?h @ 32 # ?r) = (?h, 32 # ?r)" using nl by (simp add: scan_word_def)
  have "length ?m < 18" "length ?i < 17" using length_inet_ntoa_le [of "l_yiaddr l"] by simp_all
  moreover have "dropWhile isspace (32 # ?r) = ?r"
    using inet_ntoa_no_space [of "l_yiaddr l2"] by (cases "inet_ntoa (l_yiaddr l2)") auto
  ultimately show ?thesis
    using print_mac_no_space(2) inet_ntoa_no_space(2) unfolding whole readentry_def 1 prod.case Let_def 2 3 option.case 4
    by (simp add: clamp_sint)
qed

theorem nameless_lease_swallows_next_witness:
  "\<exists>rest. readentry \<lparr> v_macaddr = None, v_ipaddress = None, v_leasetime = None, v_hname = None \<rparr>
     (lease_text zero_lease 60 @ lease_text zero_lease 60) =
    Some (4, \<lparr> v_macaddr = Some (print_mac (replicate 16 0)), v_ipaddress = Some (inet_ntoa 0),
      v_leasetime = Some 60, v_hname = Some (print_mac (replicate 16 0)) \<rparr>, rest)"
  using nameless_lease_swallows_next [of zero_lease _ 60 zero_lease 60 "[]"] by (simp add: lease_simps)

subsection \<open>The sections of the configuration file\<close>

lemma read_opt_values_returns: "\<exists>r. read_opt_values resolve q retval toks opt_list = Some r"
proof (induction resolve q retval toks opt_list rule: read_opt_values.induct)
  case (1 resolve q retval toks opt_list)
  have "\<exists>l. attach_option opt_list q data (length data) = Some l" for data
    by (simp add: attach_option_def rd_n_def Let_def split: option.split)
  note attached = this
  obtain v toks1 where v: "strtok toks (cstr '', '' @ [9]) = (v, toks1)" by fastforce
  show ?case
  proof (cases v)
    case None
    with v show ?thesis by (simp add: read_opt_values.simps)
  next
    case (Some val)
    obtain d toks2 where d: "opt_value resolve (o_flags q) val toks1 = (d, toks2)" by fastforce
    show ?thesis
    proof (cases d)
      case None
      with v d Some show ?thesis by (subst read_opt_values.simps) auto
    next
      case (Some data)
      obtain l where l: "attach_option opt_list q data (length data) = Some l" using attached by blast
      have "\<exists>r. read_opt_values resolve q True toks2 l = Some r" if "o_flags q AND OPTION_LIST \<noteq> 0"
        by (rule 1 [OF v [symmetric] \<open>v = Some val\<close> d [symmetric] Some l that])
      with v d l Some \<open>v = Some val\<close> show ?thesis by (subst read_opt_values.simps) auto
    qed
  qed
qed

lemma call_handler_returns: "\<exists>r. call_handler resolve k line c = Some r"
proof -
  have "\<exists>r. read_opt resolve line l = Some r" for l
    using read_opt_values_returns by (auto simp: read_opt_def split: prod.split option.split)
  then obtain r where r: "read_opt resolve line (c_options c) = Some r" by blast
  then show ?thesis by (cases k; cases r) (auto simp: call_handler_def)
qed

lemma set_defaults_returns: "\<exists>c'. set_defaults resolve ks c = Some c'"
proof (induction ks arbitrary: c)
  case (Cons x ks)
  obtain w k d where x: "x = (w, k, d)" by (cases x)
  obtain r where "call_handler resolve k d c = Some r" using call_handler_returns by blast
  with Cons.IH show ?case by (cases r) (simp add: x)
qed simp

text \<open>The keywords of the lines that have one, in order.\<close>

function config_keywords :: "bytes \<Rightarrow> bytes list" where
  "config_keywords inp =
     (if inp = [] then []
      else (case split_line (fst (fgets 80 inp)) of None \<Rightarrow> [] | Some (token, line) \<Rightarrow> [token]) @ config_keywords (snd (fgets 80 inp)))"
  by pat_completeness auto
termination
  by (relation "measure length") (auto simp: fgets_shorter)

declare config_keywords.simps [simp del]

abbreviation is_start :: "bytes \<Rightarrow> bool" where
  "is_start w \<equiv> strcaseeq w (cstr ''start'')"

definition sections :: "bytes list \<Rightarrow> nat" where
  "sections ws = length (filter is_start ws)"

text \<open>The keywords can be read from the interface \<open>index\<close> on.\<close>

definition sections_fit :: "int \<Rightarrow> bytes list \<Rightarrow> bool" where
  "sections_fit index ws \<longleftrightarrow> (case ws of [] \<Rightarrow> True | w # ws' \<Rightarrow> 0 \<le> index \<or> is_start w) \<and> index + int (sections ws) < int MAX_INTERFACES"

lemma config_line_keyword:
  assumes "split_line buffer = Some (token, line)" "length cs = MAX_INTERFACES"
    and "i = (if is_start token then index + 1 else index)"
  shows "if 0 \<le> i \<and> i < int MAX_INTERFACES then \<exists>cs'. config_line resolve buffer index cs = Some (i, cs') \<and> length cs' = MAX_INTERFACES
    else config_line resolve buffer index cs = None"
proof -
  note line = config_line_def [of resolve buffer index cs, unfolded assms(1) option.case prod.case Let_def assms(3) [symmetric]]
  show ?thesis
  proof (cases "0 \<le> i \<and> i < int MAX_INTERFACES")
    case False
    then have "i < 0 \<or> int MAX_INTERFACES \<le> i" by auto
    with False show ?thesis unfolding line by auto
  next
    case True
    then have ni: "nat i < length cs" using assms(2) by (simp add: nat_less_iff)
    show ?thesis
    proof (cases "find (\<lambda>(w, k, def). strcaseeq token w) (k_arr (nat i))")
      case None
      with True assms(2) show ?thesis by (simp add: line)
    next
      case (Some x)
      obtain w k d where x: "x = (w, k, d)" by (cases x)
      obtain c1 ok where c1: "call_handler resolve k line (cs ! nat i) = Some (c1, ok)" using call_handler_returns by (metis prod.exhaust)
      obtain c2 ok2 where c2: "call_handler resolve k d c1 = Some (c2, ok2)" using call_handler_returns by (metis prod.exhaust)
      have "config_line resolve buffer index cs = Some (i, cs[nat i := if ok then c1 else c2])"
        using True Some ni c1 c2 by (simp add: line x rd_def wr_def)
      with True assms(2) show ?thesis by simp
    qed
  qed
qed

lemma config_lines_sections:
  assumes "- 1 \<le> index" "index < int MAX_INTERFACES" "length cs = MAX_INTERFACES"
  shows "if sections_fit index (config_keywords inp)
    then \<exists>cs'. config_lines resolve inp index cs = Some (index + int (sections (config_keywords inp)), cs') \<and> length cs' = MAX_INTERFACES
    else config_lines resolve inp index cs = None"
  using assms
proof (induction resolve inp index cs rule: config_lines.induct)
  case (1 resolve inp index cs)
  show ?case
  proof (cases "inp = []")
    case True
    with 1(2-4) show ?thesis by (simp add: config_lines.simps [of resolve "[]"] config_keywords.simps [of "[]"] sections_fit_def sections_def)
  next
    case False
    note k = config_keywords.simps [of inp] and l = config_lines.simps [of resolve inp index cs]
    show ?thesis
    proof (cases "split_line (fst (fgets 80 inp))")
      case None
      then have "config_line resolve (fst (fgets 80 inp)) index cs = Some (index, cs)" by (simp add: config_line_def)
      note same = this
      have "config_lines resolve inp index cs = config_lines resolve (snd (fgets 80 inp)) index cs" using False same by (simp add: l)
      moreover have "config_keywords inp = config_keywords (snd (fgets 80 inp))" using False None by (simp add: k)
      ultimately show ?thesis using 1(1) [OF False same refl 1(2-4)] by (simp only:)
    next
      case (Some x)
      obtain token line where x: "x = (token, line)" by (cases x)
      define i where "i = (if is_start token then index + 1 else index)"
      have kw: "config_keywords inp = token # config_keywords (snd (fgets 80 inp))" using False Some by (simp add: k x)
      note step = config_line_keyword [OF Some [unfolded x] 1(4) i_def, of resolve]
      show ?thesis
      proof (cases "0 \<le> i \<and> i < int MAX_INTERFACES")
        case True
        with step obtain cs' where cs': "config_line resolve (fst (fgets 80 inp)) index cs = Some (i, cs')" "length cs' = MAX_INTERFACES" by auto
        have "sections_fit index (config_keywords inp) = sections_fit i (config_keywords (snd (fgets 80 inp)))"
          "index + int (sections (config_keywords inp)) = i + int (sections (config_keywords (snd (fgets 80 inp))))"
          using True 1(2) unfolding kw by (auto simp: sections_fit_def sections_def i_def split: list.split if_split_asm)
        moreover have "config_lines resolve inp index cs = config_lines resolve (snd (fgets 80 inp)) i cs'" using \<open>inp \<noteq> []\<close> cs'(1) by (simp add: l)
        moreover have "- 1 \<le> i" "i < int MAX_INTERFACES" using True by simp_all
        note 1(1) [OF \<open>inp \<noteq> []\<close> cs'(1) refl this cs'(2)]
        ultimately show ?thesis by (simp only:)
      next
        case out: False
        from out have "\<not> sections_fit index (config_keywords inp)" using 1(2) unfolding kw
          by (auto simp: sections_fit_def sections_def i_def split: if_split_asm)
        moreover have "config_lines resolve inp index cs = None" using \<open>inp \<noteq> []\<close> out step by (auto simp: l)
        ultimately show ?thesis by simp
      qed
    qed
  qed
qed

text \<open>C35: The configuration reader returns exactly if the first keyword of the file is \<^verbatim>\<open>start\<close>, in any case of
  letters, or no line has a keyword with an argument, and \<^verbatim>\<open>start\<close> occurs at most six times.  Then it has counted as many
  interfaces as there are \<^verbatim>\<open>start\<close> lines.  In every other file some keyword indexes the array of keyword tables
  outside its six entries.\<close>

theorem config_sections:
  "case read_config resolve (Some inp) of
     None \<Rightarrow> \<not> sections_fit (- 1) (config_keywords inp)
   | Some (cs, n) \<Rightarrow> sections_fit (- 1) (config_keywords inp) \<and> n = sections (config_keywords inp) \<and> length cs = MAX_INTERFACES"
proof -
  define f where "f = (\<lambda>index. set_defaults resolve (k_arr index) zero_config)"
  have "\<exists>cs. those (map f ns) = Some cs \<and> length cs = length ns" for ns
  proof (induction ns)
    case (Cons n ns)
    then show ?case using set_defaults_returns [of resolve "k_arr n" zero_config] by (auto simp: f_def)
  qed simp
  from this [of "[0..<MAX_INTERFACES]"] obtain cs where cs: "those (map f [0..<MAX_INTERFACES]) = Some cs" "length cs = MAX_INTERFACES" by auto
  have r: "read_config resolve (Some inp) = do { (index, cs') \<leftarrow> config_lines resolve inp (- 1) cs; Some (cs', nat (index + 1)) }"
    using cs(1) unfolding read_config_def f_def by simp
  from config_lines_sections [of "- 1" cs inp resolve] cs(2) show ?thesis unfolding r by (auto split: if_split_asm)
qed

definition wide_srv :: srv where
  "wide_srv = sample_srv\<lparr>s_cfg := sample_cfg\<lparr>c_start := htonl 0xC0A801C8, c_end := htonl 0xC0A80232\<rparr>\<rparr>"

definition wide_lease :: dhcpOfferedAddr where
  "wide_lease = \<lparr> l_chaddr = sample_mac, l_yiaddr = htonl 0xC0A801D2, l_expires = 5000, l_hostname = cstr ''pc'' \<rparr>"

text \<open>The lease file reader compares addresses in network byte order as little-endian numbers:
  an address inside a range that crosses a multiple of 256 fails the test.\<close>

theorem lease_range_test_byte_order:
  "ntohl (c_start (s_cfg wide_srv)) \<le> ntohl (l_yiaddr wide_lease) \<and>
   ntohl (l_yiaddr wide_lease) \<le> ntohl (c_end (s_cfg wide_srv)) \<and>
   read_leases env (Some (lease_text wide_lease t)) wide_srv = Some wide_srv"
proof -
  have host: "host_ok (l_hostname wide_lease)" by (simp add: host_ok_def wide_lease_def cstr_def isspace_def)
  have "scan_mac 6 0 (print_mac sample_mac) (replicate 16 0) = Some (take 6 sample_mac @ replicate 10 0)"
    by (rule scan_mac_print_mac) simp
  moreover have "\<not> l_yiaddr wide_lease \<le> c_end (s_cfg wide_srv)"
    by (simp add: wide_srv_def wide_lease_def ntohl_def of_le32_def)
  moreover have eof: "readentry v [] = Some (- 1, v, [])" for v by (simp add: readentry_def scan_word_def)
  moreover note readentry_lease_text [OF host, of "[]"]
  ultimately have "read_leases env (Some (lease_text wide_lease t)) wide_srv = Some wide_srv"
    unfolding read_leases_def option.case
    by (subst read_lease_loop.simps, simp add: inet_aton_ntoa wide_lease_def)
       (subst read_lease_loop.simps, simp)
  then show ?thesis by (simp add: wide_srv_def wide_lease_def)
qed

end
