(* ===== verification/Dhcp_Server.thy ===== *)
theory Dhcp_Server
  imports Dhcp_Files
begin

text \<open>
  \<^verbatim>\<open>src/udhcp/serverpacket.c\<close>, \<^verbatim>\<open>src/udhcp/dhcpd.c\<close> and \<^verbatim>\<open>src/udhcp/socket.c\<close>: building and sending the
  replies of the server, the dispatch on the message type, the service loop and the start of the
  daemon.  Every function works on the state \<open>srv\<close> of one interface; sent packets are
  appended to its effects.
\<close>

section \<open>Host names\<close>

text \<open>
  \<^verbatim>\<open>copy_till\<close> copies from the message into the 50-byte array \<^verbatim>\<open>hostname\<close> up to a NUL, the separator or
  the given length, testing the character before the length.  The statement
  \<^verbatim>\<open>*(dest + i) = inp[i++]\<close> is read as writing position \<open>i\<close> before the increment.
\<close>

function copy_till_loop :: "bytes \<Rightarrow> nat \<Rightarrow> bytes \<Rightarrow> u8 \<Rightarrow> nat \<Rightarrow> nat \<Rightarrow> bytes option" where
  "copy_till_loop m off dest sep len i = do {
     c \<leftarrow> rd m (off + i);
     if c \<noteq> 0 \<and> c \<noteq> sep \<and> i < len then do {
       dest' \<leftarrow> wr dest i c;
       copy_till_loop m off dest' sep len (i + 1) }
     else wr dest i 0 }"
  by pat_completeness auto
termination
  by (relation "measure (\<lambda>(m, off, dest, sep, len, i). len - i)") auto

declare copy_till_loop.simps [simp del]

definition copy_till :: "bytes \<Rightarrow> nat \<Rightarrow> bytes \<Rightarrow> u8 \<Rightarrow> nat \<Rightarrow> bytes option" where
  "copy_till m off dest sep len = copy_till_loop m off dest sep len 0"

section \<open>Sending\<close>

definition send_packet_to_relay :: "srv_env \<Rightarrow> srv \<Rightarrow> dhcpMessage \<Rightarrow> srv \<times> int" where
  "send_packet_to_relay env s payload =
     (let (r, txs) = kernel_packet (e_tx env) payload (c_server (s_cfg s)) SERVER_PORT (m_giaddr payload) SERVER_PORT in
      (emit s (map Tx txs), r))"

definition send_packet_to_client :: "srv_env \<Rightarrow> srv \<Rightarrow> dhcpMessage \<Rightarrow> bool \<Rightarrow> (srv \<times> int) option" where
  "send_packet_to_client env s payload force_broadcast =
     (let (ciaddr, chaddr) =
        (if force_broadcast then (INADDR_BROADCAST, MAC_BCAST_ADDR)
         else if m_ciaddr payload \<noteq> 0 then (m_ciaddr payload, m_chaddr payload)
         else if ntohs (m_flags payload) AND BROADCAST_FLAG \<noteq> 0 then (INADDR_BROADCAST, MAC_BCAST_ADDR)
         else (m_yiaddr payload, m_chaddr payload)) in
      do {
        (r, txs) \<leftarrow> raw_packet (e_tx env) payload (c_server (s_cfg s)) SERVER_PORT ciaddr CLIENT_PORT chaddr (c_ifindex (s_cfg s));
        Some (emit s (map Tx txs), r) })"

definition send_packet :: "srv_env \<Rightarrow> srv \<Rightarrow> dhcpMessage \<Rightarrow> bool \<Rightarrow> (srv \<times> int) option" where
  "send_packet env s payload force_broadcast =
     (if m_giaddr payload \<noteq> 0 then Some (send_packet_to_relay env s payload)
      else send_packet_to_client env s payload force_broadcast)"

definition server_init_packet :: "srv \<Rightarrow> dhcpMessage \<Rightarrow> u8 \<Rightarrow> dhcpMessage option" where
  "server_init_packet s oldpacket type = do {
     p \<leftarrow> init_header type;
     msg_add_simple (p\<lparr> m_xid := m_xid oldpacket, m_chaddr := m_chaddr oldpacket, m_flags := m_flags oldpacket,
       m_giaddr := m_giaddr oldpacket, m_ciaddr := m_ciaddr oldpacket \<rparr>) DHCP_SERVER_ID (c_server (s_cfg s)) }"

definition add_bootp_options :: "srv \<Rightarrow> dhcpMessage \<Rightarrow> dhcpMessage" where
  "add_bootp_options s p =
     p\<lparr> m_siaddr := c_siaddr (s_cfg s),
       m_sname := (case c_sname (s_cfg s) of None \<Rightarrow> m_sname p | Some n \<Rightarrow> strncpy (m_sname p) n 63),
       m_file := (case c_boot_file (s_cfg s) of None \<Rightarrow> m_file p | Some f \<Rightarrow> strncpy (m_file p) f 127) \<rparr>"

text \<open>The loop over the configured options, which leaves out the lease time.\<close>

definition add_config_options :: "srv \<Rightarrow> dhcpMessage \<Rightarrow> dhcpMessage option" where
  "add_config_options s p = add_all msg_add p (filter (\<lambda>d. d ! 0 \<noteq> DHCP_LEASE_TIME) (c_options (s_cfg s)))"

text \<open>The host name option of the client is echoed and its text kept for the lease.\<close>

definition echo_hostname :: "dhcpMessage \<Rightarrow> dhcpMessage \<Rightarrow> bytes \<Rightarrow> (dhcpMessage \<times> bytes) option" where
  "echo_hostname oldpacket p dflt = do {
     hname \<leftarrow> get_option oldpacket DHCP_HOST_NAME;
     case hname of
       None \<Rightarrow> Some (p, dflt)
     | Some off \<Rightarrow> do {
         p' \<leftarrow> msg_add p (drop (off - 2) (msg_bytes oldpacket));
         len \<leftarrow> get_option_length oldpacket DHCP_HOST_NAME;
         buf \<leftarrow> copy_till (msg_bytes oldpacket) off (replicate 50 0) 46 len;
         hostname \<leftarrow> c_string_at buf 0;
         Some (p', hostname) } }"

section \<open>DISCOVER\<close>

definition free_address :: "srv_env \<Rightarrow> srv \<Rightarrow> (srv \<times> u32) option" where
  "free_address env s = do {
     (s1, a) \<leftarrow> find_address env False s;
     if a = 0 then find_address env True s1 else Some (s1, a) }"

text \<open>The address to offer and the value of \<^verbatim>\<open>lease_time_align\<close> so far.\<close>

definition offer_address :: "srv_env \<Rightarrow> srv \<Rightarrow> dhcpMessage \<Rightarrow> (srv \<times> u32 \<times> u32) option" where
  "offer_address env s oldpacket =
     (case find_lease_by_chaddr s (m_chaddr oldpacket) of
        Some i \<Rightarrow>
          let l = s_leases s ! i in
          Some (s, l_yiaddr l,
            if \<not> lease_expired s l then
              (if l_expires l = c_inflease_time (s_cfg s) then c_inflease_time (s_cfg s) else l_expires l - s_now s)
            else c_lease (s_cfg s))
      | None \<Rightarrow> do {
          req \<leftarrow> get_option oldpacket DHCP_REQUESTED_IP;
          (s', a) \<leftarrow> (case req of
             None \<Rightarrow> free_address env s
           | Some off \<Rightarrow> do {
               req_align \<leftarrow> rd32 (msg_bytes oldpacket) off;
               if ntohl (c_start (s_cfg s)) \<le> ntohl req_align \<and> ntohl req_align \<le> ntohl (c_end (s_cfg s)) \<and>
                  (case find_lease_by_yiaddr s req_align of
                     None \<Rightarrow> True
                   | Some i \<Rightarrow> lease_expired s (s_leases s ! i))
               then do {
                 (s1, taken) \<leftarrow> check_ip env s req_align;
                 if \<not> taken then Some (s1, req_align) else free_address env s1 }
               else free_address env s });
          Some (s', a, c_lease (s_cfg s)) })"

text \<open>How long the offered address is reserved: an infinite lease stays infinite.\<close>

definition offer_leasetime :: "srv \<Rightarrow> dhcpMessage \<Rightarrow> u32" where
  "offer_leasetime s oldpacket =
     (case find_lease_by_chaddr s (m_chaddr oldpacket) of
        Some i \<Rightarrow> if l_expires (s_leases s ! i) = c_inflease_time (s_cfg s) then c_inflease_time (s_cfg s)
                   else c_offer_time (s_cfg s)
      | None \<Rightarrow> c_offer_time (s_cfg s))"

definition offer_lease_time :: "srv \<Rightarrow> dhcpMessage \<Rightarrow> u32 \<Rightarrow> u32 \<Rightarrow> u32 option" where
  "offer_lease_time s oldpacket lease_time_align leasetime = do {
     lt \<leftarrow> get_option oldpacket DHCP_LEASE_TIME;
     t1 \<leftarrow> (case lt of
        None \<Rightarrow> Some lease_time_align
      | Some off \<Rightarrow> do {
          v \<leftarrow> rd32 (msg_bytes oldpacket) off;
          Some (if c_lease (s_cfg s) < ntohl v then c_lease (s_cfg s) else ntohl v) });
     let t2 = (if t1 < c_min_lease (s_cfg s) then c_lease (s_cfg s) else t1) in
     Some (if leasetime = c_inflease_time (s_cfg s) then leasetime else t2) }"

definition sendOffer :: "srv_env \<Rightarrow> srv \<Rightarrow> dhcpMessage \<Rightarrow> (srv \<times> int) option" where
  "sendOffer env s oldpacket = do {
     p0 \<leftarrow> server_init_packet s oldpacket DHCPOFFER;
     (s1, yiaddr, lease_time_align) \<leftarrow> offer_address env s oldpacket;
     let p1 = p0\<lparr>m_yiaddr := yiaddr\<rparr> in
     if yiaddr = 0 then Some (s1, - 1)
     else do {
       (p2, hostname) \<leftarrow> echo_hostname oldpacket p1 (cstr ''unknown'');
       let leasetime = offer_leasetime s1 oldpacket in
       do {
         (s2, r) \<leftarrow> add_lease env s1 (m_chaddr p2) (m_yiaddr p2) leasetime hostname;
         case r of
           None \<Rightarrow> Some (s2, - 1)
         | Some i \<Rightarrow> do {
             t \<leftarrow> offer_lease_time s2 oldpacket lease_time_align leasetime;
             p3 \<leftarrow> msg_add_simple p2 DHCP_LEASE_TIME (htonl t);
             p4 \<leftarrow> add_config_options s2 p3;
             send_packet env s2 (add_bootp_options s2 p4) False } } } }"

section \<open>NAK, ACK and INFORM\<close>

definition sendNAK :: "srv_env \<Rightarrow> srv \<Rightarrow> dhcpMessage \<Rightarrow> (srv \<times> int) option" where
  "sendNAK env s oldpacket = do {
     p \<leftarrow> server_init_packet s oldpacket DHCPNAK;
     send_packet env s p True }"

definition ack_lease_time :: "srv \<Rightarrow> dhcpMessage \<Rightarrow> u32 option" where
  "ack_lease_time s oldpacket = do {
     lt \<leftarrow> get_option oldpacket DHCP_LEASE_TIME;
     t1 \<leftarrow> (case lt of
        None \<Rightarrow> Some (c_lease (s_cfg s))
      | Some off \<Rightarrow> do {
          v \<leftarrow> rd32 (msg_bytes oldpacket) off;
          Some (if c_lease (s_cfg s) < ntohl v then c_lease (s_cfg s)
                else if ntohl v < c_min_lease (s_cfg s) then c_lease (s_cfg s) else ntohl v) });
     Some (case find_lease_by_chaddr s (m_chaddr oldpacket) of
        Some i \<Rightarrow> if l_expires (s_leases s ! i) = c_inflease_time (s_cfg s) then c_inflease_time (s_cfg s) else t1
      | None \<Rightarrow> t1) }"

definition ack_packet :: "srv \<Rightarrow> dhcpMessage \<Rightarrow> u32 \<Rightarrow> (dhcpMessage \<times> u32 \<times> bytes) option" where
  "ack_packet s oldpacket yiaddr = do {
     p0 \<leftarrow> server_init_packet s oldpacket DHCPACK;
     t \<leftarrow> ack_lease_time s oldpacket;
     p1 \<leftarrow> msg_add_simple (p0\<lparr>m_yiaddr := yiaddr\<rparr>) DHCP_LEASE_TIME (htonl t);
     (p2, hostname) \<leftarrow> echo_hostname oldpacket p1 [];
     p3 \<leftarrow> add_config_options s p2;
     Some (add_bootp_options s p3, t, hostname) }"

definition sendACK :: "srv_env \<Rightarrow> srv \<Rightarrow> dhcpMessage \<Rightarrow> u32 \<Rightarrow> (srv \<times> int) option" where
  "sendACK env s oldpacket yiaddr = do {
     (p, t, hostname) \<leftarrow> ack_packet s oldpacket yiaddr;
     (s1, r) \<leftarrow> send_packet env s p False;
     if r < 0 then Some (s1, - 1)
     else do {
       (s2, i) \<leftarrow> add_lease env s1 (m_chaddr p) (m_yiaddr p) t hostname;
       Some (s2, 0) } }"

definition send_inform :: "srv_env \<Rightarrow> srv \<Rightarrow> dhcpMessage \<Rightarrow> (srv \<times> int) option" where
  "send_inform env s oldpacket = do {
     p0 \<leftarrow> server_init_packet s oldpacket DHCPACK;
     p1 \<leftarrow> add_config_options s p0;
     send_packet env s (add_bootp_options s p1) False }"

section \<open>Dispatch\<close>

definition opt_u32 :: "dhcpMessage \<Rightarrow> u8 \<Rightarrow> u32 option option" where
  "opt_u32 packet code = do {
     r \<leftarrow> get_option packet code;
     case r of None \<Rightarrow> Some None | Some off \<Rightarrow> do { v \<leftarrow> rd32 (msg_bytes packet) off; Some (Some v) } }"

definition update_lease :: "srv \<Rightarrow> nat \<Rightarrow> (dhcpOfferedAddr \<Rightarrow> dhcpOfferedAddr) \<Rightarrow> srv" where
  "update_lease s i f = set_leases s ((s_leases s)[i := f (s_leases s ! i)])"

definition do_request :: "srv_env \<Rightarrow> srv \<Rightarrow> dhcpMessage \<Rightarrow> srv option" where
  "do_request env s packet = do {
     requested \<leftarrow> opt_u32 packet DHCP_REQUESTED_IP;
     server_id \<leftarrow> opt_u32 packet DHCP_SERVER_ID;
     case find_lease_by_chaddr s (m_chaddr packet) of
       Some i \<Rightarrow>
         let yiaddr = l_yiaddr (s_leases s ! i) in
         (case server_id of
            Some sid \<Rightarrow>
              if sid = c_server (s_cfg s) \<and> requested = Some yiaddr
              then map_option fst (sendACK env s packet yiaddr) else Some s
          | None \<Rightarrow>
              (case requested of
                 Some a \<Rightarrow>
                   if yiaddr = a then map_option fst (sendACK env s packet yiaddr)
                   else map_option fst (sendNAK env s packet)
               | None \<Rightarrow>
                   if yiaddr = m_ciaddr packet then map_option fst (sendACK env s packet yiaddr)
                   else map_option fst (sendNAK env s packet)))
     | None \<Rightarrow>
         (case (server_id, requested) of
            (Some sid, _) \<Rightarrow> map_option fst (sendNAK env s packet)
          | (None, Some a) \<Rightarrow>
              (case find_lease_by_yiaddr s a of
                 Some i \<Rightarrow>
                   if lease_expired s (s_leases s ! i)
                   then Some (update_lease s i (\<lambda>l. l\<lparr>l_chaddr := replicate 16 0\<rparr>))
                   else map_option fst (sendNAK env s packet)
               | None \<Rightarrow>
                   if a < c_start (s_cfg s) \<or> c_end (s_cfg s) < a then map_option fst (sendNAK env s packet)
                   else map_option fst (sendNAK env s packet))
          | (None, None) \<Rightarrow> map_option fst (sendNAK env s packet)) }"

definition do_decline :: "srv \<Rightarrow> dhcpMessage \<Rightarrow> srv" where
  "do_decline s packet =
     (case find_lease_by_chaddr s (m_chaddr packet) of
        None \<Rightarrow> s
      | Some i \<Rightarrow> update_lease s i (\<lambda>l. l\<lparr>l_chaddr := replicate 16 0, l_expires := s_now s + c_decline_time (s_cfg s)\<rparr>))"

definition do_release :: "srv_env \<Rightarrow> srv \<Rightarrow> dhcpMessage \<Rightarrow> srv option" where
  "do_release env s packet =
     (case find_lease_by_chaddr s (m_chaddr packet) of
        None \<Rightarrow> Some s
      | Some i \<Rightarrow>
          let l = s_leases s ! i in
          if l_expires l \<noteq> c_inflease_time (s_cfg s)
          then write_to_delta env (update_lease s i (\<lambda>l. l\<lparr>l_expires := s_now s\<rparr>)) (l_chaddr l) (l_yiaddr l)
                 (l_hostname l) 0 LEASE_DEL
          else Some s)"

definition handle_packet :: "srv_env \<Rightarrow> srv \<Rightarrow> dhcpMessage \<Rightarrow> srv option" where
  "handle_packet env s packet = do {
     state \<leftarrow> get_option packet DHCP_MESSAGE_TYPE;
     case state of
       None \<Rightarrow> Some s
     | Some off \<Rightarrow> do {
         t \<leftarrow> rd (msg_bytes packet) off;
         if t = DHCPDISCOVER then map_option fst (sendOffer env s packet)
         else if t = DHCPREQUEST then do_request env s packet
         else if t = DHCPDECLINE then Some (do_decline s packet)
         else if t = DHCPRELEASE then do_release env s packet
         else if t = DHCPINFORM then map_option fst (send_inform env s packet)
         else Some s } }"

section \<open>The service loop\<close>

text \<open>
  One round for one interface.  The inputs are the clock before and after the wait, the results of
  \<^verbatim>\<open>listen_socket\<close>, \<^verbatim>\<open>select\<close> and \<^verbatim>\<open>read\<close>, and whether \<^verbatim>\<open>errno\<close> is \<^verbatim>\<open>EINTR\<close> after a failed read.
\<close>

record iface =
  i_srv :: srv
  i_open :: bool
  i_timeout_end :: u32

record loop_io =
  lp_before :: u32
  lp_after :: u32
  lp_listen :: bool
  lp_select :: int
  lp_read :: "bytes option"
  lp_eintr :: bool

datatype round_result = Exit | Next iface

definition auto_write :: "srv_env \<Rightarrow> iface \<Rightarrow> iface option" where
  "auto_write env it =
     (let s = i_srv it; c = s_cfg s in
      if c_auto_time c \<noteq> 0 \<and> sint (i_timeout_end it - s_now s) \<le> 0 then do {
        s' \<leftarrow> write_leases env s;
        Some (it\<lparr>i_srv := s', i_timeout_end := s_now s + c_auto_time c\<rparr>) }
      else Some it)"

definition at_time :: "u32 \<Rightarrow> iface \<Rightarrow> iface" where
  "at_time t it = it\<lparr>i_srv := (i_srv it)\<lparr>s_now := t\<rparr>\<rparr>"

definition serve :: "srv_env \<Rightarrow> loop_io \<Rightarrow> iface \<Rightarrow> round_result option" where
  "serve env io it0 =
     (if \<not> c_active (s_cfg (i_srv it0)) then Some (Next it0)
      else if \<not> i_open it0 \<and> \<not> lp_listen io then Some Exit
      else do {
        it1 \<leftarrow> auto_write env (at_time (lp_before io) (it0\<lparr>i_open := True\<rparr>));
        let it = at_time (lp_after io) it1 in
        if lp_select io = 0 then do {
          s' \<leftarrow> write_leases env (i_srv it);
          Some (Next (it\<lparr>i_srv := s', i_timeout_end := s_now s' + c_auto_time (s_cfg s')\<rparr>)) }
        else if lp_select io < 0 then Some (Next it)
        else do {
          rx \<leftarrow> get_packet (lp_read io);
          case rx of
            RxError e \<Rightarrow> Some (Next (if e = - 1 \<and> \<not> lp_eintr io then it\<lparr>i_open := False\<rparr> else it))
          | Got n packet \<Rightarrow> do {
              s' \<leftarrow> handle_packet env (i_srv it) packet;
              Some (Next (it\<lparr>i_srv := s'\<rparr>)) } } })"

section \<open>Starting the server\<close>

record ifreq_io =
  ii_socket :: bool
  ii_addr :: "u32 option"
  ii_index :: "int option"
  ii_hwaddr :: "bytes option"

definition read_interface :: "ifreq_io \<Rightarrow> server_config_t \<Rightarrow> (server_config_t \<times> int) option" where
  "read_interface io c =
     (if \<not> ii_socket io then Some (c, - 1)
      else if 16 \<le> length (c_interface c) then None
      else case ii_addr io of
        None \<Rightarrow> Some (c, - 1)
      | Some a \<Rightarrow>
          let c1 = c\<lparr>c_server := a\<rparr> in
          (case ii_index io of
             None \<Rightarrow> Some (c1, - 1)
           | Some ix \<Rightarrow>
               let c2 = c1\<lparr>c_ifindex := ix\<rparr> in
               (case ii_hwaddr io of
                  None \<Rightarrow> Some (c2, - 1)
                | Some h \<Rightarrow> Some (c2\<lparr>c_arp := take 6 h\<rparr>, 0))))"

abbreviation (input) LEASE_TIME :: u32 where "LEASE_TIME \<equiv> 864000"

definition lease_option :: "server_config_t \<Rightarrow> u32 option" where
  "lease_option c =
     (case find_option (c_options c) DHCP_LEASE_TIME of
        None \<Rightarrow> Some LEASE_TIME
      | Some k \<Rightarrow> map_option ntohl (rd32 (c_options c ! k) 2))"

text \<open>One interface: the lease time, an empty table, the saved leases and the interface data.\<close>

definition start_iface ::
    "srv_env \<Rightarrow> u32 \<Rightarrow> bytes option \<Rightarrow> ifreq_io \<Rightarrow> server_config_t \<Rightarrow> iface option" where
  "start_iface env now file io c = do {
     lease \<leftarrow> lease_option c;
     s \<leftarrow> read_leases env file
       \<lparr> s_cfg = c\<lparr>c_lease := lease, c_leases := replicate (unat (c_max_leases c)) zero_lease\<rparr>, s_now = now, s_out = [] \<rparr>;
     (c', r) \<leftarrow> read_interface io (s_cfg s);
     Some \<lparr> i_srv = s\<lparr>s_cfg := c'\<lparr>c_active := (0 \<le> r)\<rparr>\<rparr>, i_open = False,
       i_timeout_end = now + c_auto_time c \<rparr> }"

text \<open>\<open>Some None\<close>: no interface is configured and the program exits.\<close>

definition udhcpd_start ::
    "(bytes \<Rightarrow> u32 option) \<Rightarrow> srv_env \<Rightarrow> u32 \<Rightarrow> bytes option \<Rightarrow> (nat \<Rightarrow> bytes option) \<Rightarrow> (nat \<Rightarrow> ifreq_io) \<Rightarrow>
       iface list option option" where
  "udhcpd_start resolve env now conf lease_files ios = do {
     (cs, n) \<leftarrow> read_config resolve conf;
     if n = 0 then Some None
     else do {
       its \<leftarrow> those (map (\<lambda>i. start_iface env now (lease_files i) (ios i) (cs ! i)) [0..<n]);
       Some (Some its) } }"

section \<open>Facts about replies\<close>

text \<open>The header fields of a reply of type \<open>t\<close> to \<open>old\<close>.\<close>

definition reply_to :: "dhcpMessage \<Rightarrow> u8 \<Rightarrow> dhcpMessage \<Rightarrow> bool" where
  "reply_to old t p \<longleftrightarrow> m_op p = init_op t \<and> m_xid p = m_xid old \<and> m_chaddr p = m_chaddr old \<and>
     m_flags p = m_flags old \<and> m_giaddr p = m_giaddr old \<and> m_ciaddr p = m_ciaddr old \<and>
     m_cookie p = htonl DHCP_MAGIC"

text \<open>The options of a reply: its type and the server come first, and overload is not used.\<close>

definition reply_items :: "srv \<Rightarrow> u8 \<Rightarrow> opt_item list \<Rightarrow> bool" where
  "reply_items s t ts \<longleftrightarrow> no_overload ts \<and>
     (\<exists>ts'. ts = Opt DHCP_MESSAGE_TYPE [t] # Opt DHCP_SERVER_ID (le32 (c_server (s_cfg s))) # ts')"

lemma reply_to_simps [simp]:
  "reply_to old t (p\<lparr>m_options := x\<rparr>) = reply_to old t p" "reply_to old t (p\<lparr>m_yiaddr := y\<rparr>) = reply_to old t p"
  by (simp_all add: reply_to_def)

lemma reply_to_bootp [simp]: "reply_to old t (add_bootp_options s p) = reply_to old t p"
  by (simp add: reply_to_def add_bootp_options_def)

lemma msg_items_yiaddr [simp]: "msg_items (p\<lparr>m_yiaddr := y\<rparr>) ts = msg_items p ts"
  by (simp add: msg_items_def)

lemma msg_items_bootp [simp]: "msg_items p ts \<Longrightarrow> msg_items (add_bootp_options s p) ts"
  by (auto simp: msg_items_def wf_msg_def add_bootp_options_def length_strncpy split: option.split)

lemma yiaddr_bootp [simp]: "m_yiaddr (add_bootp_options s p) = m_yiaddr p"
  by (simp add: add_bootp_options_def)

lemma msg_add_options_only: "msg_add p b = Some p' \<Longrightarrow> \<exists>x. p' = p\<lparr>m_options := x\<rparr>"
  by (auto simp: msg_add_def bind_Some_iff split: prod.splits)

lemma msg_add_fields:
  assumes "msg_add p b = Some p'"
  shows "reply_to old t p' = reply_to old t p" "m_yiaddr p' = m_yiaddr p" "m_chaddr p' = m_chaddr p"
  using msg_add_options_only [OF assms] by auto

lemma add_all_fields:
  "add_all msg_add p bs = Some p' \<Longrightarrow>
     reply_to old t p' = reply_to old t p \<and> m_yiaddr p' = m_yiaddr p \<and> m_chaddr p' = m_chaddr p"
proof (induction bs arbitrary: p)
  case (Cons b bs)
  then obtain q where "msg_add p b = Some q" "add_all msg_add q bs = Some p'" by (auto simp: bind_Some_iff)
  with Cons.IH [of q] msg_add_fields [of p b q] show ?case by simp
qed simp

lemma reply_items_push: "reply_items s t ts \<Longrightarrow> no_overload [x] \<Longrightarrow> reply_items s t (push_item ts x)"
  by (auto simp: reply_items_def push_item_def no_overload_def)

lemma reply_items_pushes: "reply_items s t ts \<Longrightarrow> no_overload xs \<Longrightarrow> reply_items s t (foldl push_item ts xs)"
proof (induction xs arbitrary: ts)
  case (Cons x xs)
  have "no_overload [x]" "no_overload xs" using Cons.prems(2) by (auto simp: no_overload_def)
  with Cons show ?case by (simp add: reply_items_push)
qed simp

lemma reply_items_values:
  assumes "msg_items p ts" "reply_items s t ts"
  shows "option_value p DHCP_MESSAGE_TYPE = Some (Some [t])"
    "option_value p DHCP_SERVER_ID = Some (Some (le32 (c_server (s_cfg s))))"
  using dhcp_msg.lookup_law [OF assms(1), of DHCP_MESSAGE_TYPE] dhcp_msg.lookup_law [OF assms(1), of DHCP_SERVER_ID]
    assms(2) by (auto simp: reply_items_def)

subsection \<open>Initialising a reply\<close>

lemma push_blob: "length d \<le> 255 \<Longrightarrow> blob_item (c # of_nat (length d) # d) = Opt c d"
  by (simp add: blob_item_def)

lemma msg_add_simple4:
  assumes "msg_items p ts" "simple_option_length code = Some 4" "code \<noteq> DHCP_PADDING" "code \<noteq> DHCP_END"
  shows "\<exists>p'. msg_add_simple p code v = Some p' \<and> msg_items p' (push_item ts (Opt code (le32 v))) \<and>
    (\<exists>x. p' = p\<lparr>m_options := x\<rparr>)"
proof -
  let ?b = "code # 4 # le32 v"
  have eq: "msg_add_simple p code v = msg_add p ?b"
    using msg_add_simple_eq [OF assms(2), of p v] by simp
  have ok: "blob_ok ?b" using assms(3,4) by (simp add: blob_ok_def)
  have item: "blob_item ?b = Opt code (le32 v)" by (simp add: blob_item_def)
  from dhcp_msg.add_law [OF assms(1) ok] obtain p' where p': "msg_add p ?b = Some p'" "msg_items p' (push_item ts (blob_item ?b))"
    by blast
  with msg_add_options_only [OF p'(1)] show ?thesis unfolding eq item by blast
qed

lemma server_init_packet_items:
  assumes "length (m_chaddr old) = 16"
  shows "\<exists>p. server_init_packet s old t = Some p \<and> reply_to old t p \<and> m_yiaddr p = 0 \<and>
    msg_items p [Opt DHCP_MESSAGE_TYPE [t], Opt DHCP_SERVER_ID (le32 (c_server (s_cfg s)))]"
proof -
  obtain p0 opts where p0: "init_header t = Some p0" "msg_items p0 [Opt DHCP_MESSAGE_TYPE [t]]"
    "p0 = zero_msg\<lparr> m_op := init_op t, m_htype := ETH_10MB, m_hlen := ETH_10MB_LEN,
          m_cookie := htonl DHCP_MAGIC, m_options := opts \<rparr>"
    using init_header_items [of t] by blast
  let ?p = "p0\<lparr> m_xid := m_xid old, m_chaddr := m_chaddr old, m_flags := m_flags old,
       m_giaddr := m_giaddr old, m_ciaddr := m_ciaddr old \<rparr>"
  have "msg_items ?p [Opt DHCP_MESSAGE_TYPE [t]]" using p0(2) assms by (simp add: msg_items_def wf_msg_def)
  moreover have "DHCP_SERVER_ID \<noteq> DHCP_PADDING" "DHCP_SERVER_ID \<noteq> DHCP_END" by simp_all
  ultimately obtain p' x where
    "msg_add_simple ?p DHCP_SERVER_ID (c_server (s_cfg s)) = Some p'" "p' = ?p\<lparr>m_options := x\<rparr>"
    "msg_items p' (push_item [Opt DHCP_MESSAGE_TYPE [t]] (Opt DHCP_SERVER_ID (le32 (c_server (s_cfg s)))))"
    using msg_add_simple4 [OF _ simple_option_lengths(2), of ?p "[Opt DHCP_MESSAGE_TYPE [t]]" "c_server (s_cfg s)"] by blast
  moreover have "reply_to old t ?p" "m_yiaddr ?p = 0" by (simp_all add: reply_to_def p0(3) zero_msg_def)
  ultimately show ?thesis using p0(1) by (auto simp: server_init_packet_def push_item_def)
qed

subsection \<open>What a receiver sees\<close>

text \<open>The message a client or relay decodes from a sent frame or datagram.\<close>

definition event_msg :: "srv_event \<Rightarrow> dhcpMessage option" where
  "event_msg e =
     (case e of
        Tx (KernelTx src sport dst dport b) \<Rightarrow> Some (bytes_msg b)
      | Tx (RawTx mac ix f) \<Rightarrow> (case get_raw_packet zero_msg (Some f) of Some (Got n p) \<Rightarrow> Some p | _ \<Rightarrow> None)
      | _ \<Rightarrow> None)"

lemma send_packet_out:
  assumes "send_packet env s p f = Some (s', r)" "wf_msg p" "m_cookie p = htonl DHCP_MAGIC"
  shows "\<exists>es. s' = emit s es \<and> (\<forall>e\<in>set es. event_msg e = Some p)"
proof -
  have raw: "get_raw_packet zero_msg (Some (raw_frame p src sport dst CLIENT_PORT)) = Some (Got msg_size p)" for src sport dst
    using get_raw_packet_raw_frame [OF assms(2,3) wf_zero_msg] .
  show ?thesis
  proof (cases "m_giaddr p = 0")
    case True
    with assms(1) raw show ?thesis
      by (auto simp: send_packet_def send_packet_to_client_def raw_packet_def bind_Some_iff event_msg_def
          split: if_splits prod.splits)
  next
    case False
    with assms show ?thesis
      by (auto simp: send_packet_def send_packet_to_relay_def kernel_packet_def event_msg_def bytes_msg_bytes Let_def
          split: if_splits prod.splits)
  qed
qed

lemma send_packet_returns: "wf_msg p \<Longrightarrow> \<exists>s' r. send_packet env s p f = Some (s', r)"
  by (auto simp: send_packet_def send_packet_to_client_def send_packet_to_relay_def raw_packet_def rd_n_def wf_msg_def
      MAC_BCAST_ADDR_def Let_def split: prod.splits)

subsection \<open>The options of a reply\<close>

text \<open>Configured options are well formed and do not use overload, which is not in the option table.\<close>

definition conf_opts_ok :: "bytes list \<Rightarrow> bool" where
  "conf_opts_ok ds \<longleftrightarrow> conf_ok ds \<and> (\<forall>d\<in>set ds. d ! 0 \<noteq> DHCP_OPTION_OVER)"

lemma conf_blobs:
  assumes "conf_opts_ok ds"
  shows "list_all blob_ok (filter P ds)" "no_overload (map blob_item (filter P ds))"
proof -
  have "blob_ok d" if "d \<in> set ds" for d
    using assms that by (auto simp: conf_opts_ok_def conf_ok_def blob_ok_def)
  then show "list_all blob_ok (filter P ds)" by (simp add: list_all_iff)
  show "no_overload (map blob_item (filter P ds))"
    using assms by (auto simp: conf_opts_ok_def no_overload_def blob_item_def)
qed

lemma add_config_options_items:
  assumes "conf_opts_ok (c_options (s_cfg s))" "msg_items p ts" "reply_items s t ts" "find_item ts code = Some x"
  shows "\<exists>p' ts'. add_config_options s p = Some p' \<and> msg_items p' ts' \<and> reply_items s t ts' \<and>
    find_item ts' code = Some x"
proof -
  let ?bs = "filter (\<lambda>d. d ! 0 \<noteq> DHCP_LEASE_TIME) (c_options (s_cfg s))"
  note ok = conf_blobs [OF assms(1), of "\<lambda>d. d ! 0 \<noteq> DHCP_LEASE_TIME"]
  obtain p' where p': "add_all msg_add p ?bs = Some p'" "msg_items p' (foldl push_item ts (map blob_item ?bs))"
    using dhcp_msg.add_all_law [OF assms(2) ok(1)] by blast
  with reply_items_pushes [OF assms(3) ok(2)] dhcp_msg.find_item_pushes [OF assms(4)] show ?thesis
    unfolding add_config_options_def by blast
qed

lemma add_config_options_fields:
  "add_config_options s p = Some p' \<Longrightarrow>
     reply_to old t p' = reply_to old t p \<and> m_yiaddr p' = m_yiaddr p \<and> m_chaddr p' = m_chaddr p"
  unfolding add_config_options_def by (rule add_all_fields)

lemma get_option_found:
  assumes "wf_msg p" "get_option p code = Some (Some off)"
  obtains l where "2 \<le> off" "msg_bytes p ! (off - 2) = code" "msg_bytes p ! (off - 1) = l" "off + unat l \<le> 548"
proof -
  from assms(2) have "get_option_loop (msg_bytes p) code OPTION_FIELD 0 0 = Some (Some off)" by (simp add: get_option_def)
  from get_option_loop_in_field [OF this] obtain f l where f: "field_base f + 2 \<le> off" "rd (msg_bytes p) (off - 2) = Some code"
    "rd (msg_bytes p) (off - 1) = Some l" "off + unat l \<le> field_base f + field_len f" by blast
  have "field_base f + field_len f \<le> 548" by (cases f) auto
  with f show thesis by (intro that) (auto simp: mem_simps)
qed

lemma copy_till_loop_length: "copy_till_loop m off dest sep len i = Some b \<Longrightarrow> length b = length dest \<and> 0 \<in> set b"
proof (induction "len - i" arbitrary: i dest rule: less_induct)
  case less
  from less.prems obtain c where c: "rd m (off + i) = Some c"
    "(if c \<noteq> 0 \<and> c \<noteq> sep \<and> i < len then do { dest' \<leftarrow> wr dest i c; copy_till_loop m off dest' sep len (i + 1) }
      else wr dest i 0) = Some b"
    by (subst (asm) copy_till_loop.simps) (auto simp: bind_Some_iff)
  show ?case
  proof (cases "c \<noteq> 0 \<and> c \<noteq> sep \<and> i < len")
    case True
    with c obtain dest' where "wr dest i c = Some dest'" "copy_till_loop m off dest' sep len (i + 1) = Some b"
      by (auto simp: bind_Some_iff)
    with less.hyps [of "i + 1" dest'] True wr_length show ?thesis by force
  next
    case False
    with c have "wr dest i 0 = Some b" by simp
    then show ?thesis by (auto simp: mem_simps set_update_memI)
  qed
qed

lemma echo_hostname_items:
  assumes "echo_hostname old p dflt = Some (p', h)" "wf_msg old" "msg_items p ts" "reply_items s t ts" "length dflt < 50"
  shows "reply_to o2 t2 p' = reply_to o2 t2 p" "m_yiaddr p' = m_yiaddr p" "m_chaddr p' = m_chaddr p" "length h < 50"
    "\<exists>ts'. msg_items p' ts' \<and> reply_items s t ts' \<and> (ts' = ts \<or> (\<exists>d. length d \<le> 255 \<and> ts' = ts @ [Opt DHCP_HOST_NAME d]))"
proof -
  obtain r where r: "get_option old DHCP_HOST_NAME = Some r"
    using assms(1) by (auto simp: echo_hostname_def bind_Some_iff)
  have "(reply_to o2 t2 p' = reply_to o2 t2 p \<and> m_yiaddr p' = m_yiaddr p \<and> m_chaddr p' = m_chaddr p \<and> length h < 50) \<and>
    (\<exists>ts'. msg_items p' ts' \<and> reply_items s t ts' \<and> (ts' = ts \<or> (\<exists>d. length d \<le> 255 \<and> ts' = ts @ [Opt DHCP_HOST_NAME d])))"
  proof (cases r)
    case None
    with r assms show ?thesis by (auto simp: echo_hostname_def)
  next
    case (Some off)
    let ?b = "drop (off - 2) (msg_bytes old)"
    obtain l where l: "2 \<le> off" "msg_bytes old ! (off - 2) = DHCP_HOST_NAME" "msg_bytes old ! (off - 1) = l" "off + unat l \<le> 548"
      using get_option_found [OF assms(2)] r Some by metis
    have "off < length (msg_bytes old) + 1" using l(4) assms(2) by simp
    moreover have "off - 2 + 1 = off - 1" using l(1) by simp
    ultimately have b: "?b ! 0 = DHCP_HOST_NAME" "?b ! 1 = l" "length ?b = 550 - off"
      using l assms(2) by (simp_all add: nth_drop)
    have "2 \<le> 550 - off" "unat l + 2 \<le> 550 - off" using l(4) by linarith+
    then have ok: "blob_ok ?b" unfolding blob_ok_def b by simp
    from assms(1) r Some obtain len buf where p': "msg_add p ?b = Some p'"
      and buf: "copy_till (msg_bytes old) off (replicate 50 0) 46 len = Some buf" "c_string_at buf 0 = Some h"
      by (auto simp: echo_hostname_def bind_Some_iff)
    have "length buf = 50" "0 \<in> set buf" using copy_till_loop_length buf(1) by (fastforce simp: copy_till_def)+
    moreover have "length (takeWhile (\<lambda>c. c \<noteq> 0) buf) < length buf"
      using \<open>0 \<in> set buf\<close> by (metis (mono_tags) le_neq_implies_less length_takeWhile_le takeWhile_eq_all_conv takeWhile_eq_take take_all_iff order_refl)
    ultimately have h: "length h < 50" using buf(2) by (auto simp: c_string_at_def split: if_splits)
    obtain q where "msg_add p ?b = Some q" "msg_items q (push_item ts (blob_item ?b))"
      using dhcp_msg.add_law [OF assms(3) ok] by blast
    with p' have items: "msg_items p' (push_item ts (blob_item ?b))" by simp
    define d where "d = take (unat (?b ! 1)) (drop 2 ?b)"
    have d: "blob_item ?b = Opt DHCP_HOST_NAME d" using b(1) by (simp add: blob_item_def d_def)
    have "length d \<le> 255" using unat_u8_le [of "?b ! 1"] by (simp add: d_def)
    moreover have "push_item ts (blob_item ?b) = ts \<or> push_item ts (blob_item ?b) = ts @ [Opt DHCP_HOST_NAME d]"
      by (simp add: push_item_def d)
    moreover have "reply_items s t (push_item ts (blob_item ?b))"
      using assms(4) by (intro reply_items_push) (simp_all add: no_overload_def d)
    ultimately show ?thesis using items msg_add_fields [OF p'] h by blast
  qed
  then show "reply_to o2 t2 p' = reply_to o2 t2 p" "m_yiaddr p' = m_yiaddr p" "m_chaddr p' = m_chaddr p" "length h < 50"
    "\<exists>ts'. msg_items p' ts' \<and> reply_items s t ts' \<and> (ts' = ts \<or> (\<exists>d. length d \<le> 255 \<and> ts' = ts @ [Opt DHCP_HOST_NAME d]))"
    by blast+
qed

subsection \<open>The lease time option\<close>

lemma add_lease_time_items:
  assumes "msg_items p ts" "reply_items s t ts" "length (enc_items ts) \<le> 270" "find_item ts DHCP_LEASE_TIME = None"
  shows "\<exists>p' k. msg_add_simple p DHCP_LEASE_TIME v = Some p' \<and> (\<exists>x. p' = p\<lparr>m_options := x\<rparr>) \<and>
    msg_items p' (ts @ [Opt DHCP_LEASE_TIME (le32 v)]) \<and> reply_items s t (ts @ [Opt DHCP_LEASE_TIME (le32 v)]) \<and>
    find_item (ts @ [Opt DHCP_LEASE_TIME (le32 v)]) DHCP_LEASE_TIME = Some (k, le32 v)"
proof -
  have c: "DHCP_LEASE_TIME \<noteq> DHCP_PADDING" "DHCP_LEASE_TIME \<noteq> DHCP_END" by simp_all
  have push: "push_item ts (Opt DHCP_LEASE_TIME (le32 v)) = ts @ [Opt DHCP_LEASE_TIME (le32 v)]"
    using assms(3) by (simp add: push_item_def)
  have "reply_items s t (ts @ [Opt DHCP_LEASE_TIME (le32 v)])"
    using reply_items_push [OF assms(2), of "Opt DHCP_LEASE_TIME (le32 v)"] unfolding push by (simp add: no_overload_def)
  with msg_add_simple4 [OF assms(1) simple_option_lengths(3) c, of v] push assms(4) show ?thesis
    by (auto simp: find_item_append)
qed

definition opens_reply :: "srv \<Rightarrow> u8 \<Rightarrow> opt_item list" where
  "opens_reply s t = [Opt DHCP_MESSAGE_TYPE [t], Opt DHCP_SERVER_ID (le32 (c_server (s_cfg s)))]"

lemma opens_reply_simps:
  "reply_items s t (opens_reply s t)" "length (enc_items (opens_reply s t)) = 9" "find_item (opens_reply s t) DHCP_LEASE_TIME = None"
  by (simp_all add: opens_reply_def reply_items_def no_overload_def)

text \<open>What an acknowledgement holds.\<close>

definition lease_reply :: "srv \<Rightarrow> dhcpMessage \<Rightarrow> u8 \<Rightarrow> u32 \<Rightarrow> u32 \<Rightarrow> dhcpMessage \<Rightarrow> bool" where
  "lease_reply s old type yiaddr t p \<longleftrightarrow> wf_msg p \<and> reply_to old type p \<and> m_yiaddr p = yiaddr \<and>
     option_value p DHCP_MESSAGE_TYPE = Some (Some [type]) \<and>
     option_value p DHCP_SERVER_ID = Some (Some (le32 (c_server (s_cfg s)))) \<and>
     option_value p DHCP_LEASE_TIME = Some (Some (le32 (htonl t)))"

lemma lease_reply_items:
  assumes "msg_items p ts" "reply_items s type ts" "find_item ts DHCP_LEASE_TIME = Some (k, le32 (htonl t))"
    and "reply_to old type p" "m_yiaddr p = yiaddr"
  shows "lease_reply s old type yiaddr t p"
  using assms reply_items_values [OF assms(1,2)] dhcp_msg.lookup_law [OF assms(1), of DHCP_LEASE_TIME]
  by (auto simp: lease_reply_def reply_items_def msg_items_def)

lemma ack_packet_contents:
  assumes "ack_packet s old yiaddr = Some (p, t, h)" "wf_msg old" "conf_opts_ok (c_options (s_cfg s))"
  shows "lease_reply s old DHCPACK yiaddr t p" "ack_lease_time s old = Some t" "length h < 50"
proof -
  from assms(1) obtain p0 p1 p2 p3 where p0: "server_init_packet s old DHCPACK = Some p0"
    and t: "ack_lease_time s old = Some t"
    and p1: "msg_add_simple (p0\<lparr>m_yiaddr := yiaddr\<rparr>) DHCP_LEASE_TIME (htonl t) = Some p1"
    and p2: "echo_hostname old p1 [] = Some (p2, h)"
    and p3: "add_config_options s p2 = Some p3" and p: "p = add_bootp_options s p3"
    by (auto simp: ack_packet_def bind_Some_iff)
  show "ack_lease_time s old = Some t" by (fact t)
  have "length (m_chaddr old) = 16" using assms(2) by (simp add: wf_msg_def)
  from server_init_packet_items [OF this, of s DHCPACK] p0 have 0: "reply_to old DHCPACK p0" "msg_items p0 (opens_reply s DHCPACK)"
    by (auto simp: opens_reply_def)
  let ?ts = "opens_reply s DHCPACK @ [Opt DHCP_LEASE_TIME (le32 (htonl t))]"
  have "msg_items (p0\<lparr>m_yiaddr := yiaddr\<rparr>) (opens_reply s DHCPACK)" using 0 by simp
  from add_lease_time_items [OF this opens_reply_simps(1) _ opens_reply_simps(3), of "htonl t"] p1
  obtain k x where 1: "p1 = p0\<lparr>m_yiaddr := yiaddr, m_options := x\<rparr>" "msg_items p1 ?ts" "reply_items s DHCPACK ?ts"
    "find_item ?ts DHCP_LEASE_TIME = Some (k, le32 (htonl t))"
    by (auto simp: opens_reply_simps)
  note 2 = echo_hostname_items [OF p2 assms(2) 1(2,3)]
  show "length h < 50" using 2(4) by simp
  obtain ts' where ts': "msg_items p2 ts'" "reply_items s DHCPACK ts'" "ts' = ?ts \<or> (\<exists>d. ts' = ?ts @ [Opt DHCP_HOST_NAME d])"
    using 2(5) by auto
  then have "find_item ts' DHCP_LEASE_TIME = Some (k, le32 (htonl t))" using 1(4)
    by (elim disjE exE) (simp_all only: find_item_append [of ?ts] option.case)
  from add_config_options_items [OF assms(3) ts'(1,2) this] p3 obtain ts'' where
    3: "msg_items p3 ts''" "reply_items s DHCPACK ts''" "find_item ts'' DHCP_LEASE_TIME = Some (k, le32 (htonl t))" by auto
  have "reply_to old DHCPACK p3" "m_yiaddr p3 = yiaddr"
    using add_config_options_fields [OF p3] 2(1,2) 0(1) 1(1) by auto
  then show "lease_reply s old DHCPACK yiaddr t p"
    unfolding p using 3 by (intro lease_reply_items [of _ ts'']) simp_all
qed

subsection \<open>Choosing an address\<close>

text \<open>
  An address the server may hand to a client in a state: every entry that holds the address is the
  client's own or has expired.
\<close>

definition may_offer :: "srv \<Rightarrow> bytes \<Rightarrow> u32 \<Rightarrow> bool" where
  "may_offer s chaddr y \<longleftrightarrow> (\<forall>l\<in>set (s_leases s). l_yiaddr l = y \<longrightarrow> l_chaddr l = chaddr \<or> lease_expired s l)"

lemma may_offer_by_yiaddr:
  assumes "table_ok s" "y \<noteq> 0" "case find_lease_by_yiaddr s y of None \<Rightarrow> True | Some i \<Rightarrow> lease_expired s (s_leases s ! i)"
  shows "may_offer s chaddr y"
  unfolding may_offer_def
proof (intro ballI impI)
  fix l
  assume l: "l \<in> set (s_leases s)" "l_yiaddr l = y"
  then obtain j where j: "j < length (s_leases s)" "s_leases s ! j = l" by (auto simp: in_set_conv_nth)
  with l assms(1,2) have "find_lease_by_yiaddr s y = Some j"
    unfolding find_lease_by_yiaddr_def by (intro first_idx_uniq [of l_yiaddr 0]) (auto simp: table_ok_def)
  with assms(3) j show "l_chaddr l = chaddr \<or> lease_expired s l" by simp
qed

lemma may_offer_usable:
  assumes "table_ok s" "a \<noteq> 0" "usable ce s (ntohl a)"
  shows "may_offer s chaddr a"
  using assms by (intro may_offer_by_yiaddr) (auto simp: usable_def split: option.splits)

lemma may_offer_own:
  assumes "table_ok s" "find_lease_by_chaddr s chaddr = Some i" "l_yiaddr (s_leases s ! i) = y" "y \<noteq> 0"
  shows "may_offer s chaddr y"
  unfolding may_offer_def
proof (intro ballI impI)
  fix l
  assume l: "l \<in> set (s_leases s)" "l_yiaddr l = y"
  then obtain j where j: "j < length (s_leases s)" "s_leases s ! j = l" by (auto simp: in_set_conv_nth)
  have i: "i < length (s_leases s)" "l_chaddr (s_leases s ! i) = chaddr"
    using first_idx_SomeD [OF assms(2) [unfolded find_lease_by_chaddr_def]] by auto
  have "i = j" using assms(1,3,4) i(1) j l(2) unfolding table_ok_def uniq_key_nth by metis
  with i j show "l_chaddr l = chaddr \<or> lease_expired s l" by simp
qed

text \<open>
  \<open>picked\<close>: what choosing an address may do.  The address is one the server may hand out in the state \<open>s0\<close> in
  which it was probed; nobody answered, and only the time that the probe took has passed since.
\<close>

definition picked :: "srv_env \<Rightarrow> srv \<Rightarrow> bytes \<Rightarrow> srv \<Rightarrow> u32 \<Rightarrow> bool" where
  "picked env s chaddr s' a \<longleftrightarrow> same_cfg s s' \<and> delta_ext s s' \<and>
     (net_ok env (s_cfg s) \<longrightarrow> table_ok s \<longrightarrow>
        table_ok s' \<and> (a \<noteq> 0 \<longrightarrow> (\<exists>s0 rv reply d. s' = tick d s0 \<and> may_offer s0 chaddr a \<and> rv \<noteq> 0 \<and>
          arpping (e_arp env a (s_now s0)) a (c_server (s_cfg s)) (c_arp (s_cfg s)) (c_interface (s_cfg s)) = Some (rv, reply, d))))"

lemma picked_trans:
  assumes "picked env s1 chaddr s' a" "same_cfg s s1" "delta_ext s s1" "net_ok env (s_cfg s) \<longrightarrow> table_ok s \<longrightarrow> table_ok s1"
  shows "picked env s chaddr s' a"
  using assms same_cfg_trans [OF assms(2)] delta_ext_trans [OF assms(3)]
  by (auto simp: picked_def net_ok_same_cfg [OF assms(2)] same_cfg_fields [OF assms(2)])

lemma picked_find_address:
  assumes "find_address env ce s = Some (s', a)"
  shows "picked env s chaddr s' a"
proof -
  have r: "search_result env ce s (ntohl (c_start (s_cfg s))) (s', a)"
    using find_address_loop_sound assms unfolding find_address_def by blast
  show ?thesis
    unfolding picked_def
  proof (intro conjI impI)
    show "same_cfg s s'" "delta_ext s s'" using r by (auto simp: search_result_def)
    assume ok: "net_ok env (s_cfg s)" "table_ok s"
    then show "table_ok s'" using r by (auto simp: search_result_def)
    assume "a \<noteq> 0"
    with r obtain s0 rv reply d where s0: "s' = tick d s0" "usable ce s0 (ntohl a)" "rv \<noteq> 0"
      "arpping (e_arp env a (s_now s0)) a (c_server (s_cfg s)) (c_arp (s_cfg s)) (c_interface (s_cfg s)) = Some (rv, reply, d)" by (auto simp: search_result_def)
    with \<open>table_ok s'\<close> \<open>a \<noteq> 0\<close> have "may_offer s0 chaddr a" by (intro may_offer_usable) simp_all
    with s0 show "\<exists>s0 rv reply d. s' = tick d s0 \<and> may_offer s0 chaddr a \<and> rv \<noteq> 0 \<and>
      arpping (e_arp env a (s_now s0)) a (c_server (s_cfg s)) (c_arp (s_cfg s)) (c_interface (s_cfg s)) = Some (rv, reply, d)" by blast
  qed
qed

lemma picked_free_address:
  assumes "free_address env s = Some (s', a)"
  shows "picked env s chaddr s' a"
proof -
  from assms obtain s1 a1 where 1: "find_address env False s = Some (s1, a1)"
    "(if a1 = 0 then find_address env True s1 else Some (s1, a1)) = Some (s', a)"
    by (auto simp: free_address_def bind_Some_iff)
  note p = picked_find_address [OF 1(1), of chaddr]
  show ?thesis
  proof (cases "a1 = 0")
    case True
    with 1(2) have "find_address env True s1 = Some (s', a)" by simp
    from picked_trans [OF picked_find_address [OF this]] p show ?thesis by (auto simp: picked_def)
  next
    case False
    with 1(2) p show ?thesis by simp
  qed
qed

lemma tick_0 [simp]: "tick 0 s = s"
  by (simp add: tick_def)

lemma offer_address_own:
  assumes "offer_address env s old = Some (s', y, t)" "find_lease_by_chaddr s (m_chaddr old) = Some i"
  shows "s' = s" "y = l_yiaddr (s_leases s ! i)"
  using assms by (auto simp: offer_address_def Let_def)

lemma offer_address_picked:
  assumes "offer_address env s old = Some (s', y, t)" "find_lease_by_chaddr s (m_chaddr old) = None"
  shows "picked env s (m_chaddr old) s' y"
proof -
  from assms obtain req where req: "get_option old DHCP_REQUESTED_IP = Some req"
    and r: "(case req of
             None \<Rightarrow> free_address env s
           | Some off \<Rightarrow> do {
               req_align \<leftarrow> rd32 (msg_bytes old) off;
               if ntohl (c_start (s_cfg s)) \<le> ntohl req_align \<and> ntohl req_align \<le> ntohl (c_end (s_cfg s)) \<and>
                  (case find_lease_by_yiaddr s req_align of
                     None \<Rightarrow> True
                   | Some i \<Rightarrow> lease_expired s (s_leases s ! i))
               then do {
                 (s1, taken) \<leftarrow> check_ip env s req_align;
                 if \<not> taken then Some (s1, req_align) else free_address env s1 }
               else free_address env s }) = Some (s', y)"
    by (auto simp: offer_address_def bind_Some_iff)
  show ?thesis
  proof (cases "free_address env s = Some (s', y)")
    case True
    then show ?thesis by (rule picked_free_address)
  next
    case False
    with r obtain off ra s1 taken where ra:
      "case find_lease_by_yiaddr s ra of None \<Rightarrow> True | Some i \<Rightarrow> lease_expired s (s_leases s ! i)"
      "check_ip env s ra = Some (s1, taken)" "(if \<not> taken then Some (s1, ra) else free_address env s1) = Some (s', y)"
      by (cases req) (auto simp: bind_Some_iff split: if_split_asm)
    note c = check_ip_same_cfg [OF ra(2)] check_ip_delta_ext [OF ra(2)] check_ip_table_ok [OF ra(2)]
    show ?thesis
    proof (cases taken)
      case True
      with ra(3) have "free_address env s1 = Some (s', y)" by simp
      from picked_trans [OF picked_free_address [OF this]] c show ?thesis by blast
    next
      case False
      with ra(3) have eq: "s' = s1" "y = ra" by auto
      from ra(2) False obtain rv reply d where "s1 = tick d s" "rv \<noteq> 0"
        "arpping (e_arp env ra (s_now s)) ra (c_server (s_cfg s)) (c_arp (s_cfg s)) (c_interface (s_cfg s)) = Some (rv, reply, d)"
        by (auto elim: check_ip_cases)
      with c eq may_offer_by_yiaddr [OF _ _ ra(1)] show ?thesis unfolding picked_def by blast
    qed
  qed
qed

lemma offer_address_keeps:
  assumes "offer_address env s old = Some (s', y, t)"
  shows "same_cfg s s'" "delta_ext s s'" "net_ok env (s_cfg s) \<Longrightarrow> table_ok s \<Longrightarrow> table_ok s'"
  using offer_address_own [OF assms] offer_address_picked [OF assms]
  by (cases "find_lease_by_chaddr s (m_chaddr old)"; auto simp: picked_def delta_ext_eqI)+

subsection \<open>The handlers\<close>

text \<open>
  \<open>handled\<close> collects what every handler guarantees: the configuration stays, the table invariant
  is kept, and every message a receiver can decode from the new effects satisfies \<open>P\<close>.
\<close>

definition handled :: "(dhcpMessage \<Rightarrow> bool) \<Rightarrow> srv \<Rightarrow> srv \<Rightarrow> bool" where
  "handled P s s' \<longleftrightarrow> same_cfg s s' \<and> table_ok s' \<and>
     (\<exists>es. s_out s' = s_out s @ es \<and> (\<forall>e\<in>set es. \<forall>p. event_msg e = Some p \<longrightarrow> P p))"

lemma handled_mono: "handled P s s' \<Longrightarrow> (\<And>p. P p \<Longrightarrow> Q p) \<Longrightarrow> handled Q s s'"
  unfolding handled_def by blast

lemma handled_trans:
  assumes "handled P s s'" "handled P s' s''"
  shows "handled P s s''"
proof -
  from assms(1) obtain es where es: "s_out s' = s_out s @ es" "\<forall>e\<in>set es. \<forall>p. event_msg e = Some p \<longrightarrow> P p"
    unfolding handled_def by blast
  from assms(2) obtain fs where fs: "s_out s'' = s_out s' @ fs" "\<forall>e\<in>set fs. \<forall>p. event_msg e = Some p \<longrightarrow> P p"
    unfolding handled_def by blast
  have "s_out s'' = s_out s @ (es @ fs)" "\<forall>e\<in>set (es @ fs). \<forall>p. event_msg e = Some p \<longrightarrow> P p"
    using es fs by auto
  moreover have "same_cfg s s''" "table_ok s''" using assms same_cfg_trans unfolding handled_def by blast+
  ultimately show ?thesis unfolding handled_def by blast
qed

lemma handled_delta:
  assumes "same_cfg s s'" "table_ok s'" "delta_ext s s'"
  shows "handled P s s'"
proof -
  from assms(3) obtain ds where "s_out s' = s_out s @ map Delta ds" by (auto simp: delta_ext_def)
  moreover have "\<forall>e\<in>set (map Delta ds). \<forall>p. event_msg e = Some p \<longrightarrow> P p" by (auto simp: event_msg_def)
  ultimately show ?thesis using assms(1,2) unfolding handled_def by blast
qed

lemma handled_send:
  assumes "send_packet env s p f = Some (s', r)" "wf_msg p" "m_cookie p = htonl DHCP_MAGIC" "table_ok s" "P p"
  shows "handled P s s'"
proof -
  obtain es where es: "s' = emit s es" "\<forall>e\<in>set es. event_msg e = Some p"
    using send_packet_out [OF assms(1-3)] by blast
  then have "table_ok s'" "same_cfg s s'" "s_out s' = s_out s @ es"
    using assms(4) by (simp_all add: table_ok_def lease_simps same_cfg_eqI)
  moreover have "\<forall>e\<in>set es. \<forall>q. event_msg e = Some q \<longrightarrow> P q" using es(2) assms(5) by auto
  ultimately show ?thesis unfolding handled_def by blast
qed

lemma handled_add_lease:
  assumes "add_lease env s chaddr yiaddr lease hname = Some (s', r)" "table_ok s" "length chaddr = 16" "\<not> zerohwaddr chaddr"
  shows "handled P s s'"
  using add_lease_table_ok [OF assms(2,1,3,4)] add_lease_same_cfg [OF assms(1)] add_lease_delta_ext [OF assms(1)]
  by (blast intro: handled_delta)

lemma sendOffer_handled:
  assumes "sendOffer env s old = Some (s', r)" "wf_msg old" "conf_opts_ok (c_options (s_cfg s))" "table_ok s"
    and "net_ok env (s_cfg s)" "\<not> zerohwaddr (m_chaddr old)"
  shows "handled (\<lambda>p. m_yiaddr p \<noteq> 0 \<and> (\<exists>t. lease_reply s old DHCPOFFER (m_yiaddr p) t p) \<and>
    lease_address s' (m_chaddr old) = Some (m_yiaddr p)) s s'"
proof -
  have len: "length (m_chaddr old) = 16" using assms(2) by (simp add: wf_msg_def)
  obtain p0 where p0: "server_init_packet s old DHCPOFFER = Some p0" "reply_to old DHCPOFFER p0"
      "msg_items p0 (opens_reply s DHCPOFFER)"
    using server_init_packet_items [OF len, of s DHCPOFFER] by (auto simp: opens_reply_def)
  from assms(1) p0(1) obtain s1 y t0 where oa: "offer_address env s old = Some (s1, y, t0)"
    by (auto simp: sendOffer_def bind_Some_iff)
  note pk = offer_address_keeps [OF oa]
  have s1: "handled P s s1" "table_ok s1" "same_cfg s s1" for P using pk assms(4,5) by (auto intro: handled_delta)
  show ?thesis
  proof (cases "y = 0")
    case True
    with assms(1) p0(1) oa have "s' = s1" by (simp add: sendOffer_def Let_def)
    with s1 show ?thesis by simp
  next
    case False
    let ?p1 = "p0\<lparr>m_yiaddr := y\<rparr>"
    let ?lt = "offer_leasetime s1 old"
    from assms(1) p0(1) oa False obtain p2 h s2 i where p2: "echo_hostname old ?p1 (cstr ''unknown'') = Some (p2, h)"
      and al: "add_lease env s1 (m_chaddr p2) (m_yiaddr p2) ?lt h = Some (s2, i)"
      and rest: "(case i of
           None \<Rightarrow> Some (s2, - 1)
         | Some i \<Rightarrow> do {
             t \<leftarrow> offer_lease_time s2 old t0 ?lt;
             p3 \<leftarrow> msg_add_simple p2 DHCP_LEASE_TIME (htonl t);
             p4 \<leftarrow> add_config_options s2 p3;
             send_packet env s2 (add_bootp_options s2 p4) False }) = Some (s', r)"
      by (auto simp: sendOffer_def bind_Some_iff Let_def)
    have p1: "msg_items ?p1 (opens_reply s DHCPOFFER)" using p0(3) by simp
    have unk: "length (cstr ''unknown'') < 50" by (simp add: cstr_def)
    note e = echo_hostname_items [OF p2 assms(2) p1 opens_reply_simps(1) unk]
    obtain ts' where ts': "msg_items p2 ts'" "reply_items s DHCPOFFER ts'"
      "ts' = opens_reply s DHCPOFFER \<or> (\<exists>d. length d \<le> 255 \<and> ts' = opens_reply s DHCPOFFER @ [Opt DHCP_HOST_NAME d])"
      using e(5) by blast
    have ch: "m_chaddr p2 = m_chaddr old" "m_yiaddr p2 = y" "reply_to old DHCPOFFER p2"
      using e(1-3) p0(2) by (auto simp: reply_to_def)
    note s2 = handled_add_lease [OF al s1(2), unfolded ch(1), OF len assms(6)]
    have ok2: "table_ok s2" "same_cfg s1 s2" using s2 [of "\<lambda>_. True"] by (auto simp: handled_def)
    note cfg2 = same_cfg_trans [OF s1(3) ok2(2)]
    show ?thesis
    proof (cases i)
      case None
      with rest have "s' = s2" by simp
      with handled_trans [OF s1(1) s2] show ?thesis by simp
    next
      case (Some k)
      with rest obtain t p3 p4 where p3: "msg_add_simple p2 DHCP_LEASE_TIME (htonl t) = Some p3"
        and p4: "add_config_options s2 p3 = Some p4"
        and sp: "send_packet env s2 (add_bootp_options s2 p4) False = Some (s', r)"
        by (auto simp: bind_Some_iff)
      let ?ts = "ts' @ [Opt DHCP_LEASE_TIME (le32 (htonl t))]"
      have enc: "length (enc_items ts') \<le> 270" "find_item ts' DHCP_LEASE_TIME = None"
        using ts'(3) opens_reply_simps [of s DHCPOFFER] by (auto simp: find_item_append)
      from add_lease_time_items [OF ts'(1,2) enc, of "htonl t"] p3 obtain x j where
        3: "p3 = p2\<lparr>m_options := x\<rparr>" "msg_items p3 ?ts" "reply_items s DHCPOFFER ?ts"
        "find_item ?ts DHCP_LEASE_TIME = Some (j, le32 (htonl t))" by auto
      have rs: "reply_items s2 u vs = reply_items s u vs" for u vs
        by (simp add: reply_items_def same_cfg_fields(1) [OF cfg2])
      have co: "conf_opts_ok (c_options (s_cfg s2))" using assms(3) same_cfg_fields(4) [OF cfg2] by simp
      from add_config_options_items [OF co 3(2) _ 3(4), unfolded rs, OF 3(3)] p4 obtain vs where
        4: "msg_items p4 vs" "reply_items s DHCPOFFER vs" "find_item vs DHCP_LEASE_TIME = Some (j, le32 (htonl t))" by auto
      let ?q = "add_bootp_options s2 p4"
      have f4: "reply_to old DHCPOFFER p4" "m_yiaddr p4 = y" using add_config_options_fields [OF p4] 3(1) ch by auto
      then have lr: "lease_reply s old DHCPOFFER y t ?q"
        using 4 by (intro lease_reply_items [of _ vs]) simp_all
      have la: "lease_address s2 (m_chaddr old) = Some y"
        using add_lease_found(1,3) [OF al [unfolded Some]] ch len assms(6) by (simp add: lease_address_def lease_entry_def)
      have sl: "s_leases s' = s_leases s2"
        using send_packet_out [OF sp] lr by (auto simp: lease_reply_def reply_to_def lease_simps)
      then have la': "lease_address s' (m_chaddr old) = Some y"
        using la by (simp add: lease_address_def find_lease_by_chaddr_def)
      have "handled (\<lambda>p. m_yiaddr p \<noteq> 0 \<and> (\<exists>t. lease_reply s old DHCPOFFER (m_yiaddr p) t p) \<and>
          lease_address s' (m_chaddr old) = Some (m_yiaddr p)) s2 s'"
        using lr False la' f4 by (intro handled_send [OF sp _ _ ok2(1)]) (auto simp: lease_reply_def reply_to_def)
      then show ?thesis using handled_trans [OF handled_trans [OF s1(1) s2]] by blast
    qed
  qed
qed

lemma sendACK_handled:
  assumes "sendACK env s old yiaddr = Some (s', r)" "wf_msg old" "conf_opts_ok (c_options (s_cfg s))" "table_ok s"
    and "\<not> zerohwaddr (m_chaddr old)"
  shows "handled (\<lambda>p. \<exists>t. lease_reply s old DHCPACK yiaddr t p \<and> ack_lease_time s old = Some t) s s'"
proof -
  from assms(1) obtain p t h s1 r1 where p: "ack_packet s old yiaddr = Some (p, t, h)"
    and sp: "send_packet env s p False = Some (s1, r1)"
    and rest: "(if r1 < 0 then Some (s1, - 1)
      else do { (s2, i) \<leftarrow> add_lease env s1 (m_chaddr p) (m_yiaddr p) t h; Some (s2, 0) }) = Some (s', r)"
    by (auto simp: sendACK_def bind_Some_iff)
  note c = ack_packet_contents [OF p assms(2,3)]
  have len: "length (m_chaddr old) = 16" "m_chaddr p = m_chaddr old"
    using assms(2) c(1) by (simp_all add: wf_msg_def lease_reply_def reply_to_def)
  have 1: "handled (\<lambda>p. \<exists>t. lease_reply s old DHCPACK yiaddr t p \<and> ack_lease_time s old = Some t) s s1"
    using c assms(4) by (intro handled_send [OF sp]) (auto simp: lease_reply_def reply_to_def)
  show ?thesis
  proof (cases "r1 < 0")
    case True
    with rest 1 show ?thesis by simp
  next
    case False
    with rest obtain i where al: "add_lease env s1 (m_chaddr p) (m_yiaddr p) t h = Some (s', i)"
      by (auto simp: bind_Some_iff)
    have "table_ok s1" using 1 by (simp add: handled_def)
    from handled_trans [OF 1 handled_add_lease [OF al this]] len assms(5) show ?thesis by simp
  qed
qed

text \<open>A reply that assigns no address: a NAK or the answer to an INFORM.\<close>

definition bare_reply :: "srv \<Rightarrow> dhcpMessage \<Rightarrow> u8 \<Rightarrow> dhcpMessage \<Rightarrow> bool" where
  "bare_reply s old type p \<longleftrightarrow> wf_msg p \<and> reply_to old type p \<and> m_yiaddr p = 0 \<and>
     option_value p DHCP_MESSAGE_TYPE = Some (Some [type]) \<and>
     option_value p DHCP_SERVER_ID = Some (Some (le32 (c_server (s_cfg s))))"

lemma bare_reply_items:
  assumes "msg_items p ts" "reply_items s type ts" "reply_to old type p" "m_yiaddr p = 0"
  shows "bare_reply s old type p"
  using assms reply_items_values [OF assms(1,2)] by (simp add: bare_reply_def msg_items_def)

lemma bare_reply_send:
  assumes "send_packet env s p f = Some (s', r)" "table_ok s" "bare_reply s old type p"
  shows "handled (bare_reply s old type) s s'"
  using assms by (intro handled_send [OF assms(1)]) (auto simp: bare_reply_def reply_to_def)

lemma sendNAK_handled:
  assumes "sendNAK env s old = Some (s', r)" "wf_msg old" "table_ok s"
  shows "handled (bare_reply s old DHCPNAK) s s'"
proof -
  have "length (m_chaddr old) = 16" using assms(2) by (simp add: wf_msg_def)
  from server_init_packet_items [OF this, of s DHCPNAK] assms(1) obtain p where
    p: "reply_to old DHCPNAK p" "m_yiaddr p = 0" "msg_items p (opens_reply s DHCPNAK)" "send_packet env s p True = Some (s', r)"
    by (auto simp: sendNAK_def opens_reply_def)
  show ?thesis using bare_reply_send [OF p(4) assms(3) bare_reply_items [OF p(3) opens_reply_simps(1) p(1,2)]] .
qed

lemma send_inform_handled:
  assumes "send_inform env s old = Some (s', r)" "wf_msg old" "conf_opts_ok (c_options (s_cfg s))" "table_ok s"
  shows "handled (bare_reply s old DHCPACK) s s'"
proof -
  have "length (m_chaddr old) = 16" using assms(2) by (simp add: wf_msg_def)
  from server_init_packet_items [OF this, of s DHCPACK] assms(1) obtain p q where
    p: "reply_to old DHCPACK p" "m_yiaddr p = 0" "msg_items p (opens_reply s DHCPACK)" "add_config_options s p = Some q"
    and sp: "send_packet env s (add_bootp_options s q) False = Some (s', r)"
    by (auto simp: send_inform_def opens_reply_def bind_Some_iff)
  have "find_item (opens_reply s DHCPACK) DHCP_MESSAGE_TYPE = Some (2, [DHCPACK])" by (simp add: opens_reply_def)
  from add_config_options_items [OF assms(3) p(3) opens_reply_simps(1) this] p(4) obtain ts
    where ts: "msg_items q ts" "reply_items s DHCPACK ts" by auto
  have "reply_to old DHCPACK (add_bootp_options s q)" "m_yiaddr (add_bootp_options s q) = 0"
    using add_config_options_fields [OF p(4)] p by simp_all
  from bare_reply_send [OF sp assms(4) bare_reply_items [OF msg_items_bootp [OF ts(1)] ts(2) this]] show ?thesis .
qed

lemma uniq_key_keep:
  assumes "uniq_key f z ls" "f new = f (ls ! i) \<or> f new = z"
  shows "uniq_key f z (ls[i := new])"
proof (cases "f new = z")
  case True
  with assms(1) show ?thesis by (intro uniq_key_update) simp_all
next
  case False
  with assms(2) have "f new = f (ls ! i)" by simp
  then have "map f (ls[i := new]) = map f ls" by (metis list_update_id map_update)
  with assms(1) show ?thesis by (simp add: uniq_key_def)
qed

text \<open>Changing an entry without giving it a new address or client.\<close>

lemma update_lease_ok:
  assumes "table_ok s" "\<And>l. l_yiaddr (f l) = l_yiaddr l" "\<And>l. l_chaddr (f l) = l_chaddr l \<or> l_chaddr (f l) = replicate 16 0"
    and "\<And>l. l_hostname (f l) = l_hostname l"
  shows "table_ok (update_lease s i f)" "same_cfg s (update_lease s i f)"
proof -
  let ?ls = "(s_leases s)[i := f (s_leases s ! i)]"
  have "uniq_key l_yiaddr 0 ?ls" "uniq_key l_chaddr (replicate 16 0) ?ls"
    using assms(1) assms(2,3) [of "s_leases s ! i"] by (simp_all add: table_ok_def uniq_key_keep)
  moreover have "list_all wf_lease ?ls"
  proof (cases "i < length (s_leases s)")
    case True
    then have "wf_lease (s_leases s ! i)" using assms(1) by (simp add: table_ok_def list_all_length)
    then have "wf_lease (f (s_leases s ! i))" using assms(3,4) [of "s_leases s ! i"] by (auto simp: wf_lease_def)
    then show ?thesis using assms(1) by (intro list_all_update) (simp_all add: table_ok_def)
  next
    case False
    then show ?thesis using assms(1) by (simp add: list_update_beyond table_ok_def)
  qed
  ultimately show "table_ok (update_lease s i f)"
    using assms(1) by (simp add: update_lease_def table_ok_def lease_simps)
  show "same_cfg s (update_lease s i f)" by (simp add: update_lease_def same_cfg_set_leases)
qed

lemma handled_update_lease:
  assumes "table_ok s" "\<And>l. l_yiaddr (f l) = l_yiaddr l" "\<And>l. l_chaddr (f l) = l_chaddr l \<or> l_chaddr (f l) = replicate 16 0"
    and "\<And>l. l_hostname (f l) = l_hostname l"
  shows "handled P s (update_lease s i f)"
  using update_lease_ok [OF assms] by (intro handled_delta delta_ext_eqI) (simp_all add: update_lease_def lease_simps)

lemma do_decline_handled: "table_ok s \<Longrightarrow> handled P s (do_decline s old)"
proof -
  assume ok: "table_ok s"
  then have "handled P s s" by (intro handled_delta) (simp_all add: delta_ext_eqI)
  with handled_update_lease [OF ok] show ?thesis by (auto simp: do_decline_def split: option.split)
qed

lemma write_to_delta_handled:
  "write_to_delta env s chaddr yiaddr hname t a = Some s' \<Longrightarrow> table_ok s \<Longrightarrow> handled P s s'"
  by (intro handled_delta)
     (auto simp: write_to_delta_def Let_def same_cfg_eqI table_ok_def lease_simps delta_ext_def
       intro: exI [of _ "[]"] exI [of _ "[delta_line chaddr yiaddr hname t a]"] split: if_splits)

lemma do_release_handled:
  assumes "do_release env s old = Some s'" "table_ok s"
  shows "handled P s s'"
proof -
  have refl: "handled P s s" using assms(2) by (intro handled_delta) (simp_all add: delta_ext_eqI)
  have up: "handled P s (update_lease s i (\<lambda>l. l\<lparr>l_expires := s_now s\<rparr>))" for i
    using assms(2) by (intro handled_update_lease) simp_all
  show ?thesis
  proof (cases "find_lease_by_chaddr s (m_chaddr old)")
    case None
    with assms refl show ?thesis by (simp add: do_release_def)
  next
    case (Some i)
    show ?thesis
    proof (cases "l_expires (s_leases s ! i) = c_inflease_time (s_cfg s)")
      case True
      with Some assms refl show ?thesis by (simp add: do_release_def Let_def)
    next
      case False
      with Some assms(1) have w: "write_to_delta env (update_lease s i (\<lambda>l. l\<lparr>l_expires := s_now s\<rparr>))
          (l_chaddr (s_leases s ! i)) (l_yiaddr (s_leases s ! i)) (l_hostname (s_leases s ! i)) 0 LEASE_DEL = Some s'"
        by (simp add: do_release_def Let_def)
      have "table_ok (update_lease s i (\<lambda>l. l\<lparr>l_expires := s_now s\<rparr>))"
        using up [of i] by (simp add: handled_def)
      from handled_trans [OF up write_to_delta_handled [OF w this]] show ?thesis .
    qed
  qed
qed

text \<open>The messages a REQUEST may cause.\<close>

definition request_answer :: "srv \<Rightarrow> dhcpMessage \<Rightarrow> dhcpMessage \<Rightarrow> bool" where
  "request_answer s old p \<longleftrightarrow>
     (\<exists>y t. lease_address s (m_chaddr old) = Some y \<and> lease_reply s old DHCPACK y t p \<and> ack_lease_time s old = Some t) \<or>
     bare_reply s old DHCPNAK p"

lemma do_request_handled:
  assumes "do_request env s old = Some s'" "wf_msg old" "conf_opts_ok (c_options (s_cfg s))" "table_ok s"
    and "\<not> zerohwaddr (m_chaddr old)"
  shows "handled (request_answer s old) s s'"
proof -
  have refl: "handled (request_answer s old) s s" using assms(4) by (intro handled_delta) (simp_all add: delta_ext_eqI)
  have nak: "handled (request_answer s old) s s'" if "map_option fst (sendNAK env s old) = Some s'"
  proof -
    from that obtain b where "sendNAK env s old = Some (s', b)" by auto
    from handled_mono [OF sendNAK_handled [OF this assms(2,4)]] show ?thesis by (simp add: request_answer_def)
  qed
  have ack: "handled (request_answer s old) s s'"
    if "map_option fst (sendACK env s old (l_yiaddr (s_leases s ! i))) = Some s'" "find_lease_by_chaddr s (m_chaddr old) = Some i" for i
  proof -
    have "lease_address s (m_chaddr old) = Some (l_yiaddr (s_leases s ! i))" using that(2) by (simp add: lease_address_def)
    then have "request_answer s old p"
      if "\<exists>t. lease_reply s old DHCPACK (l_yiaddr (s_leases s ! i)) t p \<and> ack_lease_time s old = Some t" for p
      using that by (simp add: request_answer_def)
    moreover from that(1) obtain b where "sendACK env s old (l_yiaddr (s_leases s ! i)) = Some (s', b)" by auto
    ultimately show ?thesis using handled_mono [OF sendACK_handled [OF _ assms(2-5)]] by simp
  qed
  have up: "handled (request_answer s old) s (update_lease s i (\<lambda>l. l\<lparr>l_chaddr := replicate 16 0\<rparr>))" for i
    using assms(4) by (intro handled_update_lease) simp_all
  from assms(1) obtain requested server_id where o: "opt_u32 old DHCP_REQUESTED_IP = Some requested"
    "opt_u32 old DHCP_SERVER_ID = Some server_id" by (auto simp: do_request_def bind_Some_iff)
  show ?thesis
  proof (cases "find_lease_by_chaddr s (m_chaddr old)")
    case None
    with assms(1) o have "map_option fst (sendNAK env s old) = Some s' \<or>
        (\<exists>i. s' = update_lease s i (\<lambda>l. l\<lparr>l_chaddr := replicate 16 0\<rparr>))"
      by (auto simp: do_request_def split: option.split_asm if_split_asm)
    then show ?thesis using nak up by blast
  next
    case (Some i)
    note * = nak ack [OF _ Some]
    from assms(1) o Some have "s' = s \<or> map_option fst (sendNAK env s old) = Some s' \<or>
        map_option fst (sendACK env s old (l_yiaddr (s_leases s ! i))) = Some s'"
      by (simp add: do_request_def Let_def split: option.split_asm if_split_asm)
    then show ?thesis using * refl by blast
  qed
qed

text \<open>The type of a message, as the server reads it, and the messages it sends in answer to each type.\<close>

definition msg_type :: "dhcpMessage \<Rightarrow> u8 option" where
  "msg_type p = do { r \<leftarrow> get_option p DHCP_MESSAGE_TYPE; off \<leftarrow> r; rd (msg_bytes p) off }"

definition server_answer :: "srv \<Rightarrow> srv \<Rightarrow> dhcpMessage \<Rightarrow> dhcpMessage \<Rightarrow> bool" where
  "server_answer s s' old p \<longleftrightarrow>
     msg_type old = Some DHCPDISCOVER \<and> m_yiaddr p \<noteq> 0 \<and> (\<exists>t. lease_reply s old DHCPOFFER (m_yiaddr p) t p) \<and>
       lease_address s' (m_chaddr old) = Some (m_yiaddr p) \<or>
     msg_type old = Some DHCPREQUEST \<and> request_answer s old p \<or>
     msg_type old = Some DHCPINFORM \<and> bare_reply s old DHCPACK p"

lemma handle_packet_handled:
  assumes "handle_packet env s old = Some s'" "wf_msg old" "conf_opts_ok (c_options (s_cfg s))" "table_ok s"
    and "net_ok env (s_cfg s)" "\<not> zerohwaddr (m_chaddr old)"
  shows "handled (server_answer s s' old) s s'"
proof -
  have refl: "handled (server_answer s s' old) s s" using assms(4) by (intro handled_delta) (simp_all add: delta_ext_eqI)
  from assms(1) obtain r where r: "get_option old DHCP_MESSAGE_TYPE = Some r"
    by (auto simp: handle_packet_def bind_Some_iff)
  show ?thesis
  proof (cases r)
    case None
    with assms(1) r refl show ?thesis by (simp add: handle_packet_def)
  next
    case (Some off)
    with assms(1) r obtain t where mt: "msg_type old = Some t" and t: "(if t = DHCPDISCOVER then map_option fst (sendOffer env s old)
         else if t = DHCPREQUEST then do_request env s old
         else if t = DHCPDECLINE then Some (do_decline s old)
         else if t = DHCPRELEASE then do_release env s old
         else if t = DHCPINFORM then map_option fst (send_inform env s old)
         else Some s) = Some s'" by (auto simp: handle_packet_def msg_type_def bind_Some_iff)
    have offer: ?thesis if "map_option fst (sendOffer env s old) = Some s'" "t = DHCPDISCOVER"
    proof -
      from that(1) obtain b where "sendOffer env s old = Some (s', b)" by auto
      from handled_mono [OF sendOffer_handled [OF this assms(2-6)]] show ?thesis using mt that(2) by (simp add: server_answer_def)
    qed
    have request: ?thesis if "do_request env s old = Some s'" "t = DHCPREQUEST"
      using mt that(2) by (intro handled_mono [OF do_request_handled [OF that(1) assms(2-4,6)]]) (simp add: server_answer_def)
    have inform: ?thesis if "map_option fst (send_inform env s old) = Some s'" "t = DHCPINFORM"
    proof -
      from that(1) obtain b where "send_inform env s old = Some (s', b)" by auto
      from handled_mono [OF send_inform_handled [OF this assms(2-4)]] show ?thesis using mt that(2) by (simp add: server_answer_def)
    qed
    have release: ?thesis if "do_release env s old = Some s'" using do_release_handled [OF that assms(4)] .
    have decline: ?thesis if "s' = do_decline s old" using do_decline_handled [OF assms(4)] that by simp
    from t show ?thesis
      using refl by (simp split: if_split_asm add: offer request inform decline release)
  qed
qed

subsection \<open>Answering always ends\<close>

text \<open>
  Messages whose handling stays inside memory: the last eight option bytes are zero, as they are for
  every datagram of at most 540 bytes, and a host name has at most 30 characters.
\<close>

definition calm_msg :: "dhcpMessage \<Rightarrow> bool" where
  "calm_msg p \<longleftrightarrow> wf_msg p \<and> drop 300 (m_options p) = replicate 8 0 \<and>
     (\<forall>n. get_option_length p DHCP_HOST_NAME = Some n \<longrightarrow> n \<le> 30)"

lemma calm_tail: "calm_msg p \<Longrightarrow> 540 \<le> j \<Longrightarrow> j < 548 \<Longrightarrow> msg_bytes p ! j = 0"
proof -
  assume p: "calm_msg p" and j: "540 \<le> j" "j < 548"
  have "drop 300 (drop 240 (msg_bytes p)) = replicate 8 0"
    using p drop_msg_bytes(1) [of p] by (simp add: calm_msg_def)
  then have "drop 540 (msg_bytes p) ! (j - 540) = replicate 8 0 ! (j - 540)" by simp
  with j p show ?thesis by (simp add: calm_msg_def)
qed

lemma calm_option:
  assumes "calm_msg p" "code \<noteq> DHCP_PADDING"
  shows "\<exists>r. get_option p code = Some r" "get_option p code = Some (Some off) \<Longrightarrow> 2 \<le> off \<and> off \<le> 541"
proof -
  have "drop 305 (m_options p) = drop 5 (drop 300 (m_options p))" by simp
  also have "\<dots> = [0, 0, 0]" using assms(1) by (simp add: calm_msg_def numeral_3_eq_3)
  finally show "\<exists>r. get_option p code = Some r" using assms get_option_stays by (simp add: calm_msg_def)
  assume o: "get_option p code = Some (Some off)"
  have "wf_msg p" using assms(1) by (simp add: calm_msg_def)
  then obtain l where l: "2 \<le> off" "msg_bytes p ! (off - 2) = code" "msg_bytes p ! (off - 1) = l" "off + unat l \<le> 548"
    using o by (rule get_option_found)
  have "\<not> 540 \<le> off - 2"
  proof
    assume "540 \<le> off - 2"
    then have "msg_bytes p ! (off - 2) = 0" using calm_tail [OF assms(1), of "off - 2"] l(1,4) by linarith
    with l(2) assms(2) show False by simp
  qed
  then show "2 \<le> off \<and> off \<le> 541" using l(1) by linarith
qed

lemma calm_rd32:
  assumes "calm_msg p" "get_option p code = Some (Some off)" "code \<noteq> DHCP_PADDING"
  shows "\<exists>v. rd32 (msg_bytes p) off = Some v"
proof -
  have "length (msg_bytes p) = 548" using assms(1) by (simp add: calm_msg_def)
  with calm_option(2) [OF assms(1,3,2)] show ?thesis by (simp add: rd32_Some_iff)
qed


lemma copy_till_loop_returns:
  assumes "off \<le> 541" "\<And>j. 540 \<le> j \<Longrightarrow> j < 548 \<Longrightarrow> m ! j = 0" "length m = 548" "len < length dest" "i \<le> len"
    and "off + i \<le> 541"
  shows "\<exists>b k. copy_till_loop m off dest sep len i = Some b \<and> k \<le> len \<and> k < length b \<and> b ! k = 0"
  using assms(4-6)
proof (induction "len - i" arbitrary: i dest rule: less_induct)
  case less
  have rd: "rd m (off + i) = Some (m ! (off + i))" using less.prems assms(3) by (simp add: rd_def)
  show ?case
  proof (cases "m ! (off + i) \<noteq> 0 \<and> m ! (off + i) \<noteq> sep \<and> i < len")
    case True
    then have "\<not> 540 \<le> off + i" using assms(2) [of "off + i"] less.prems by auto
    with True less.prems have "\<exists>b k. copy_till_loop m off (dest[i := m ! (off + i)]) sep len (i + 1) = Some b \<and>
        k \<le> len \<and> k < length b \<and> b ! k = 0"
      by (intro less.hyps) auto
    moreover have "copy_till_loop m off dest sep len i = copy_till_loop m off (dest[i := m ! (off + i)]) sep len (i + 1)"
      using True less.prems by (subst copy_till_loop.simps) (simp add: rd wr_def)
    ultimately show ?thesis by simp
  next
    case False
    then have "copy_till_loop m off dest sep len i = Some (dest[i := 0])"
      using less.prems by (subst copy_till_loop.simps) (auto simp: rd wr_def)
    then show ?thesis using less.prems by (intro exI [of _ "dest[i := 0]"] exI [of _ i]) simp
  qed
qed

lemma takeWhile_nz_le: "k < length b \<Longrightarrow> b ! k = (0 :: u8) \<Longrightarrow> length (takeWhile (\<lambda>c. c \<noteq> 0) b) \<le> k"
  by (metis (mono_tags, lifting) leI nth_mem set_takeWhileD takeWhile_nth)

lemma echo_hostname_returns:
  assumes "calm_msg old" "msg_items p ts" "length dflt \<le> 30"
  shows "\<exists>p' h. echo_hostname old p dflt = Some (p', h) \<and> length h \<le> 30"
proof -
  obtain r where r: "get_option old DHCP_HOST_NAME = Some r" using calm_option(1) [OF assms(1)] by fastforce
  have wf: "wf_msg old" "length (msg_bytes old) = 548" using assms(1) by (simp_all add: calm_msg_def)
  show ?thesis
  proof (cases r)
    case None
    with r assms show ?thesis by (simp add: echo_hostname_def)
  next
    case (Some off)
    let ?b = "drop (off - 2) (msg_bytes old)"
    obtain l where l: "2 \<le> off" "msg_bytes old ! (off - 2) = DHCP_HOST_NAME" "msg_bytes old ! (off - 1) = l" "off + unat l \<le> 548"
      using get_option_found [OF wf(1)] r Some by metis
    have off: "off \<le> 541" using calm_option(2) [OF assms(1), of DHCP_HOST_NAME off] r Some by simp
    have "off - 2 + 1 = off - 1" using l(1) by simp
    then have b: "?b ! 0 = DHCP_HOST_NAME" "?b ! 1 = l" "length ?b = 550 - off"
      using l wf off by (simp_all add: nth_drop)
    have "2 \<le> 550 - off" "unat l + 2 \<le> 550 - off" using l(4) by linarith+
    then have "blob_ok ?b" unfolding blob_ok_def b by simp
    from dhcp_msg.add_law [OF assms(2) this] obtain q where q: "msg_add p ?b = Some q" by blast
    have "rd (msg_bytes old) (off - 1) = Some l" using l wf off by (simp add: rd_def)
    then have len: "get_option_length old DHCP_HOST_NAME = Some (unat l)"
      using r Some get_option_length_loop_eq by (simp add: get_option_length_def get_option_def)
    then have "unat l \<le> 30" using assms(1) by (simp add: calm_msg_def)
    with copy_till_loop_returns [of off "msg_bytes old" "unat l" "replicate 50 0" 0 46] off calm_tail [OF assms(1)] wf(2)
    obtain buf k where buf: "copy_till (msg_bytes old) off (replicate 50 0) 46 (unat l) = Some buf"
      "k \<le> unat l" "k < length buf" "buf ! k = 0" by (auto simp: copy_till_def)
    have "0 \<in> set buf" using buf(3,4) by (metis nth_mem)
    with takeWhile_nz_le [OF buf(3,4)] buf(2) \<open>unat l \<le> 30\<close> have "\<exists>h. c_string_at buf 0 = Some h \<and> length h \<le> 30"
      by (simp add: c_string_at_def)
    with r Some q len buf(1) show ?thesis by (auto simp: echo_hostname_def)
  qed
qed

lemma ack_lease_time_returns: "calm_msg old \<Longrightarrow> \<exists>t. ack_lease_time s old = Some t"
proof -
  assume p: "calm_msg old"
  from calm_option(1) [OF p, of DHCP_LEASE_TIME] obtain r where r: "get_option old DHCP_LEASE_TIME = Some r" by auto
  show ?thesis
  proof (cases r)
    case (Some off)
    with r calm_rd32 [OF p] obtain v where "rd32 (msg_bytes old) off = Some v" by fastforce
    with r Some show ?thesis by (simp add: ack_lease_time_def)
  qed (simp add: ack_lease_time_def r)
qed




lemma finish_reply_returns:
  assumes "msg_items p ts" "reply_items s t ts" "conf_opts_ok (c_options (s_cfg s))"
  shows "\<exists>q. add_config_options s p = Some q \<and> wf_msg (add_bootp_options s q)"
proof -
  obtain x where "find_item ts DHCP_MESSAGE_TYPE = Some x" using assms(2) by (auto simp: reply_items_def)
  from add_config_options_items [OF assms(3,1,2) this] obtain q ts' where "add_config_options s p = Some q" "msg_items q ts'"
    by blast
  moreover from this(2) have "wf_msg (add_bootp_options s q)" using msg_items_bootp by (auto simp: msg_items_def)
  ultimately show ?thesis by blast
qed



lemma ack_packet_returns:
  assumes "calm_msg old" "conf_opts_ok (c_options (s_cfg s))"
  shows "\<exists>p t h. ack_packet s old yiaddr = Some (p, t, h) \<and> wf_msg p \<and> length h \<le> 30"
proof -
  have wf: "wf_msg old" "length (m_chaddr old) = 16" using assms(1) by (simp_all add: calm_msg_def wf_msg_def)
  from server_init_packet_items [OF wf(2), of s DHCPACK] obtain p0 where
    p0: "server_init_packet s old DHCPACK = Some p0" "msg_items p0 (opens_reply s DHCPACK)" by (auto simp: opens_reply_def)
  obtain t where t: "ack_lease_time s old = Some t" using ack_lease_time_returns [OF assms(1)] by blast
  have "msg_items (p0\<lparr>m_yiaddr := yiaddr\<rparr>) (opens_reply s DHCPACK)" using p0(2) by simp
  from add_lease_time_items [OF this opens_reply_simps(1), of "htonl t"] obtain p1 ts where
    p1: "msg_add_simple (p0\<lparr>m_yiaddr := yiaddr\<rparr>) DHCP_LEASE_TIME (htonl t) = Some p1" "msg_items p1 ts" "reply_items s DHCPACK ts"
    by (auto simp: opens_reply_simps)
  obtain p2 h where p2: "echo_hostname old p1 [] = Some (p2, h)" "length h \<le> 30"
    using echo_hostname_returns [OF assms(1) p1(2), of "[]"] by auto
  from echo_hostname_items(5) [OF p2(1) wf(1) p1(2,3)] obtain ts2 where "msg_items p2 ts2" "reply_items s DHCPACK ts2" by auto
  from finish_reply_returns [OF this assms(2)] obtain q where "add_config_options s p2 = Some q" "wf_msg (add_bootp_options s q)"
    by blast
  with p0(1) t p1(1) p2 show ?thesis by (simp add: ack_packet_def)
qed






subsection \<open>Runs of the server\<close>

lemma write_lease_keeps:
  "write_lease env s l = Some (s', l', t) \<Longrightarrow>
     s_cfg s' = s_cfg s \<and> l_yiaddr l' = l_yiaddr l \<and> l_chaddr l' = l_chaddr l \<and> l_hostname l' = l_hostname l"
  by (auto simp: write_lease_def write_to_delta_def Let_def bind_Some_iff emit_def split: if_split_asm)

lemma write_lease_list_keeps:
  "write_lease_list env s ls = Some (s', ls', t) \<Longrightarrow>
     s_cfg s' = s_cfg s \<and> map l_yiaddr ls' = map l_yiaddr ls \<and> map l_chaddr ls' = map l_chaddr ls \<and>
     map l_hostname ls' = map l_hostname ls"
proof (induction ls arbitrary: s s' ls' t)
  case (Cons l ls)
  from Cons.prems obtain s1 l' t1 ls2 ts where "write_lease env s l = Some (s1, l', t1)"
    "write_lease_list env s1 ls = Some (s', ls2, ts)" "ls' = l' # ls2" by (auto simp: bind_Some_iff)
  with Cons.IH [of s1 s' ls2 ts] write_lease_keeps [of env s l s1 l' t1] show ?case by simp
qed simp

lemma same_keys_table_ok:
  assumes "table_ok s" "map l_yiaddr ls = map l_yiaddr (s_leases s)" "map l_chaddr ls = map l_chaddr (s_leases s)"
    and "map l_hostname ls = map l_hostname (s_leases s)"
  shows "table_ok (set_leases s ls)"
proof -
  have len: "length ls = length (s_leases s)" using assms(2) by (metis length_map)
  have "wf_lease (ls ! i)" if "i < length ls" for i
  proof -
    have "wf_lease (s_leases s ! i)" using assms(1) that len by (simp add: table_ok_def list_all_length)
    moreover have "l_chaddr (ls ! i) = l_chaddr (s_leases s ! i)" "l_hostname (ls ! i) = l_hostname (s_leases s ! i)"
      using assms(3,4) that len by (metis nth_map)+
    ultimately show ?thesis by (simp add: wf_lease_def)
  qed
  with assms len show ?thesis by (simp add: table_ok_def lease_simps uniq_key_def list_all_length)
qed

lemma write_leases_ok:
  assumes "write_leases env s = Some s'" "table_ok s"
  shows "table_ok s'" "same_cfg s s'"
proof -
  have "table_ok s' \<and> same_cfg s s'"
  proof (cases "e_lease_file env")
    case True
    with assms(1) obtain s1 ls t where 1: "write_lease_list env s (s_leases s) = Some (s1, ls, t)"
      and c: "(case c_notify_file (s_cfg s) of
          None \<Rightarrow> Some (emit (set_leases s1 ls) [LeaseFile t])
        | Some n \<Rightarrow>
            let buf = n @ [32] @ c_lease_file (s_cfg s) in
            if length buf < 255 then Some (emit (emit (set_leases s1 ls) [LeaseFile t]) [Notify buf]) else None) = Some s'"
      by (auto simp: write_leases_def bind_Some_iff simp del: append.simps)
    have "emit (emit x a) b = emit x (a @ b)" for x a b by (simp add: emit_def)
    with c have s': "\<exists>es. s' = emit (set_leases s1 ls) es"
      by (auto simp: Let_def split: option.split_asm if_split_asm)
    note k = write_lease_list_keeps [OF 1]
    have t1: "table_ok s1" "same_cfg s s1" using assms(2) k by (simp_all add: table_ok_def same_cfg_eqI)
    have "table_ok (set_leases s1 ls)" using k by (intro same_keys_table_ok t1) simp_all
    moreover have "length ls = length (s_leases s1)" using k by (metis length_map)
    then have "same_cfg s (set_leases s1 ls)" using same_cfg_trans [OF t1(2) same_cfg_set_leases] by simp
    moreover obtain es where "s' = emit (set_leases s1 ls) es" using s' by blast
    ultimately show ?thesis using same_cfg_trans [OF _ same_cfg_eqI] by (auto simp: table_ok_def lease_simps)
  qed (use assms in \<open>simp add: write_leases_def\<close>)
  then show "table_ok s'" "same_cfg s s'" by blast+
qed

text \<open>
  What a round relies on: probes end, a host that answers one has a hardware address, and a received
  message names its sender.
\<close>

definition round_ok :: "server_config_t \<Rightarrow> srv_env \<times> loop_io \<Rightarrow> bool" where
  "round_ok c r \<longleftrightarrow> net_ok (fst r) c \<and>
     (\<forall>n p. get_packet (lp_read (snd r)) = Some (Got n p) \<longrightarrow> \<not> zerohwaddr (m_chaddr p))"

definition iface_ok :: "iface \<Rightarrow> bool" where
  "iface_ok it \<longleftrightarrow> table_ok (i_srv it) \<and> conf_opts_ok (c_options (s_cfg (i_srv it)))"

lemma at_time_simps [simp]:
  "table_ok (i_srv (at_time t it)) = table_ok (i_srv it)" "s_cfg (i_srv (at_time t it)) = s_cfg (i_srv it)"
  "same_cfg s (i_srv (at_time t it)) = same_cfg s (i_srv it)"
  by (simp_all add: at_time_def table_ok_def same_cfg_def)

lemma auto_write_ok:
  assumes "auto_write env it = Some it'" "table_ok (i_srv it)"
  shows "table_ok (i_srv it')" "same_cfg (i_srv it) (i_srv it')"
  using assms write_leases_ok [of env "i_srv it"]
  by (auto simp: auto_write_def Let_def bind_Some_iff split: if_split_asm)

lemma get_packet_wf: "get_packet rx = Some (Got n p) \<Longrightarrow> wf_msg p"
proof -
  assume a: "get_packet rx = Some (Got n p)"
  then obtain data where rx: "rx = Some data" by (cases rx) (auto simp: get_packet_def)
  define q where "q = bytes_msg (fill_msg data)"
  have q: "wf_msg q" unfolding q_def by (rule wf_bytes_msg) (simp add: fill_msg_def)
  have "p = q \<or> p = q\<lparr>m_flags := m_flags q OR htons BROADCAST_FLAG\<rparr>"
    using a unfolding rx get_packet_def option.case Let_def q_def [symmetric]
    by (auto simp: bind_Some_iff split: if_split_asm option.split_asm)
  with q show ?thesis by (auto simp: wf_msg_def)
qed

lemma serve_ok:
  assumes "serve env io it = Some (Next it')" "iface_ok it" "round_ok (s_cfg (i_srv it)) (env, io)"
  shows "iface_ok it' \<and> same_cfg (i_srv it) (i_srv it')"
proof (cases "c_active (s_cfg (i_srv it)) \<and> (i_open it \<or> lp_listen io)")
  case False
  with assms show ?thesis by (auto simp: serve_def split: if_split_asm)
next
  case True
  let ?st = "at_time (lp_before io) (it\<lparr>i_open := True\<rparr>)"
  from True assms(1) obtain it1 where it1: "auto_write env ?st = Some it1"
    and r: "(let it = at_time (lp_after io) it1 in
        if lp_select io = 0 then do {
          s' \<leftarrow> write_leases env (i_srv it);
          Some (Next (it\<lparr>i_srv := s', i_timeout_end := s_now s' + c_auto_time (s_cfg s')\<rparr>)) }
        else if lp_select io < 0 then Some (Next it)
        else do {
          rx \<leftarrow> get_packet (lp_read io);
          case rx of
            RxError e \<Rightarrow> Some (Next (if e = - 1 \<and> \<not> lp_eintr io then it\<lparr>i_open := False\<rparr> else it))
          | Got n packet \<Rightarrow> do {
              s' \<leftarrow> handle_packet env (i_srv it) packet;
              Some (Next (it\<lparr>i_srv := s'\<rparr>)) } }) = Some (Next it')"
    by (auto simp: serve_def bind_Some_iff split: if_split_asm)
  let ?it = "at_time (lp_after io) it1"
  have t0: "table_ok (i_srv ?st)" using assms(2) by (simp add: iface_ok_def)
  have "same_cfg (i_srv it) (i_srv ?st)" by (simp add: same_cfg_eqI)
  with auto_write_ok [OF it1 t0] have ok: "table_ok (i_srv ?it)" "same_cfg (i_srv it) (i_srv ?it)"
    using same_cfg_trans by (simp, metis at_time_simps(3))
  have sent: "table_ok s' \<and> same_cfg (i_srv it) s'"
    if "get_packet (lp_read io) = Some (Got n p)" "handle_packet env (i_srv ?it) p = Some s'" for n p s'
  proof -
    have "net_ok env (s_cfg (i_srv ?it))" "\<not> zerohwaddr (m_chaddr p)" "conf_opts_ok (c_options (s_cfg (i_srv ?it)))"
      using assms(2,3) that(1) net_ok_same_cfg [OF ok(2)] same_cfg_fields [OF ok(2)]
      by (auto simp: round_ok_def iface_ok_def)
    with handle_packet_handled [OF that(2) get_packet_wf [OF that(1)] _ ok(1)] same_cfg_trans [OF ok(2)] show ?thesis
      by (simp add: handled_def)
  qed
  have "i_srv it' = i_srv ?it \<or> write_leases env (i_srv ?it) = Some (i_srv it') \<or>
      (\<exists>n p. get_packet (lp_read io) = Some (Got n p) \<and> handle_packet env (i_srv ?it) p = Some (i_srv it'))"
  proof (cases "get_packet (lp_read io)")
    case None
    with r show ?thesis by (auto simp: Let_def bind_Some_iff split: if_split_asm)
  next
    case (Some rx)
    with r show ?thesis by (cases rx) (auto simp: Let_def bind_Some_iff split: if_split_asm)
  qed
  then have "table_ok (i_srv it') \<and> same_cfg (i_srv it) (i_srv it')"
    using ok sent write_leases_ok [OF _ ok(1), of env] same_cfg_trans [OF ok(2)] by auto
  then show ?thesis using assms(2) same_cfg_fields by (auto simp: iface_ok_def)
qed

inductive serving :: "iface \<Rightarrow> (srv_env \<times> loop_io) list \<Rightarrow> iface \<Rightarrow> bool" where
  start: "serving it [] it"
| round: "serving it rs it1 \<Longrightarrow> serve env io it1 = Some (Next it2) \<Longrightarrow> serving it (rs @ [(env, io)]) it2"

lemma serving_ok:
  assumes "serving it rs it'" "iface_ok it" "\<forall>r\<in>set rs. round_ok (s_cfg (i_srv it)) r"
  shows "iface_ok it' \<and> same_cfg (i_srv it) (i_srv it')"
  using assms
proof (induction rule: serving.induct)
  case (round it rs it1 env io it2)
  then have 1: "iface_ok it1" "same_cfg (i_srv it) (i_srv it1)" by simp_all
  have "round_ok (s_cfg (i_srv it1)) (env, io)"
    using round.prems(2) net_ok_same_cfg [OF 1(2)] by (simp add: round_ok_def)
  with serve_ok [OF round.hyps(2) 1(1)] same_cfg_trans [OF 1(2)] show ?case by blast
qed simp

subsection \<open>Copying a host name\<close>

lemma copy_till_loop_spec:
  assumes "off + len < length m" "i \<le> len"
  shows "copy_till_loop m off dest sep len i =
    (let h = takeWhile (\<lambda>c. c \<noteq> 0 \<and> c \<noteq> sep) (take (len - i) (drop (off + i) m)) in
     if i + length h < length dest then Some (take i dest @ h @ 0 # drop (i + length h + 1) dest) else None)"
  using assms(2)
proof (induction "len - i" arbitrary: i dest)
  case 0
  have "rd m (off + i) = Some (m ! (off + i))" using 0 assms(1) by (simp add: rd_def)
  with 0 show ?case by (subst copy_till_loop.simps) (auto simp: wr_def upd_conv_take_nth_drop)
next
  case (Suc k)
  let ?c = "m ! (off + i)"
  have rd: "rd m (off + i) = Some ?c" and lt: "off + i < length m" using Suc assms(1) by (auto simp: rd_def)
  have k: "len - i = Suc k" "len - (i + 1) = k" "i < len" using Suc by auto
  have t: "take (len - i) (drop (off + i) m) = ?c # take (len - (i + 1)) (drop (off + (i + 1)) m)"
    unfolding k using Cons_nth_drop_Suc [OF lt] by (metis add_Suc_right Suc_eq_plus1 take_Suc_Cons)
  show ?case
  proof (cases "?c \<noteq> 0 \<and> ?c \<noteq> sep")
    case False
    then show ?thesis unfolding t using k
      by (subst copy_till_loop.simps) (auto simp: rd wr_def upd_conv_take_nth_drop Let_def)
  next
    case True
    show ?thesis
    proof (cases "i < length dest")
      case False
      then show ?thesis unfolding t using True k by (subst copy_till_loop.simps) (auto simp: rd wr_def Let_def)
    next
      case i: True
      have "copy_till_loop m off dest sep len i = copy_till_loop m off (dest[i := ?c]) sep len (i + 1)"
        using True k i by (subst copy_till_loop.simps) (simp add: rd wr_def)
      also have "\<dots> = (let h = takeWhile (\<lambda>c. c \<noteq> 0 \<and> c \<noteq> sep) (take (len - (i + 1)) (drop (off + (i + 1)) m)) in
         if i + 1 + length h < length (dest[i := ?c])
         then Some (take (i + 1) (dest[i := ?c]) @ h @ 0 # drop (i + 1 + length h + 1) (dest[i := ?c])) else None)"
        using Suc.hyps(1) [of "i + 1" "dest[i := ?c]"] k by simp
      also have "take (i + 1) (dest[i := ?c]) = take i dest @ [?c]" using i by (simp add: take_Suc_conv_app_nth)
      finally show ?thesis unfolding t using True by (simp add: Let_def)
    qed
  qed
qed

subsection \<open>Reading options by value\<close>

lemma option_value_off:
  assumes "option_value p code = Some (Some d)"
  obtains off where "get_option p code = Some (Some off)" "rd_n (msg_bytes p) off (length d) = Some d"
  using assms by (auto simp: option_value_def bind_Some_iff rd_n_def split: option.split_asm if_split_asm)

lemma rd_n_split: "rd_n m off (length d) = Some d \<Longrightarrow> \<exists>x y. m = x @ d @ y \<and> length x = off"
proof -
  assume "rd_n m off (length d) = Some d"
  then have d: "off + length d \<le> length m" "take (length d) (drop off m) = d"
    by (auto simp: rd_n_def split: if_split_asm)
  have "m = take off m @ take (length d) (drop off m) @ drop (length d) (drop off m)"
    by (simp only: append_take_drop_id)
  then have "m = take off m @ d @ drop (length d) (drop off m)" unfolding d(2) .
  moreover have "length (take off m) = off" using d(1) by simp
  ultimately show ?thesis by blast
qed

lemma opt_u32_value: "option_value p code = Some (Some (le32 v)) \<Longrightarrow> opt_u32 p code = Some (Some v)"
proof (erule option_value_off)
  fix off
  assume o: "get_option p code = Some (Some off)" "rd_n (msg_bytes p) off (length (le32 v)) = Some (le32 v)"
  from rd_n_split [OF o(2)] have "rd32 (msg_bytes p) off = Some v" using rd32_le32 by auto
  with o(1) show ?thesis by (simp add: opt_u32_def)
qed

lemma message_type_value:
  assumes "option_value p DHCP_MESSAGE_TYPE = Some (Some [t])"
  shows "\<exists>off. get_option p DHCP_MESSAGE_TYPE = Some (Some off) \<and> rd (msg_bytes p) off = Some t"
proof -
  obtain off where o: "get_option p DHCP_MESSAGE_TYPE = Some (Some off)" "rd_n (msg_bytes p) off (length [t]) = Some [t]"
    using assms by (rule option_value_off)
  from rd_n_split [OF o(2)] have "rd (msg_bytes p) off = Some t" by (auto simp: rd_def)
  with o(1) show ?thesis by blast
qed

subsection \<open>A client that renews is recorded\<close>

lemma add_lease_renews:
  assumes "add_lease env s chaddr yiaddr lease hname = Some (s', r)" "lease_address s chaddr = Some yiaddr"
    and "\<not> zerohwaddr chaddr" "0 < s_now s" "c_inflease_time (s_cfg s) \<noteq> 0" "length chaddr = 16"
  shows "\<exists>i. r = Some i"
  using assms(1)
proof (cases rule: add_lease_cases)
  case full
  from assms(2) obtain i where i: "find_lease_by_chaddr s chaddr = Some i" by (auto simp: lease_address_def)
  then have *: "i < length (s_leases s)" "l_chaddr (s_leases s ! i) = chaddr"
    using first_idx_SomeD by (auto simp: find_lease_by_chaddr_def)
  have "\<exists>b\<in>set chaddr. b \<noteq> 0" using assms(3,6) by (auto simp: zerohwaddr_def dest: in_set_takeD)
  with * have "clear_lease chaddr yiaddr (s_leases s) ! i = zero_lease" by (simp add: clear_lease_def)
  moreover have "i < length (clear_lease chaddr yiaddr (s_leases s))" using * by (simp add: clear_lease_def)
  ultimately have "zero_lease \<in> set (clear_lease chaddr yiaddr (s_leases s))" by (metis nth_mem)
  then have "zero_lease \<in> set (s_leases s')" using full(2) assms(3) by (simp add: cleared_def lease_simps)
  moreover have "lease_expired s zero_lease" using assms(4,5) by (simp add: lease_expired_def zero_lease_def)
  ultimately show ?thesis using full(3) by blast
qed simp

text \<open>The packet socket takes the reply.\<close>

definition tx_works :: "srv_env \<Rightarrow> bool" where
  "tx_works env \<longleftrightarrow> tx_socket (e_tx env) \<and> tx_setsockopt (e_tx env) \<and> tx_bind (e_tx env) \<and> tx_connect (e_tx env) \<and>
     0 \<le> tx_result (e_tx env)"

lemma send_packet_sends:
  assumes "wf_msg p" "m_cookie p = htonl DHCP_MAGIC" "tx_works env"
  shows "\<exists>e. send_packet env s p f = Some (emit s [e], tx_result (e_tx env)) \<and> event_msg e = Some p"
proof -
  obtain s' r where sp: "send_packet env s p f = Some (s', r)" using send_packet_returns [OF assms(1)] by blast
  then obtain e where e: "r = tx_result (e_tx env)" "s' = emit s [e]"
    using assms(3) by (auto simp: tx_works_def send_packet_def send_packet_to_client_def send_packet_to_relay_def raw_packet_def
        kernel_packet_def bind_Some_iff split: if_split_asm)
  obtain es where es: "s' = emit s es" "\<forall>e\<in>set es. event_msg e = Some p"
    using send_packet_out [OF sp assms(1,2)] by blast
  have "s_out (emit s es) = s_out (emit s [e])" using e(2) es(1) by simp
  then have "es = [e]" by (simp add: emit_def)
  then have "event_msg e = Some p" using es(2) by simp
  with sp e show ?thesis by (intro exI [of _ e]) simp
qed

lemma sendACK_records:
  assumes "calm_msg old" "conf_opts_ok (c_options (s_cfg s))" "table_ok s" "\<not> zerohwaddr (m_chaddr old)" "tx_works env"
    and "lease_address s (m_chaddr old) = Some y" "0 < s_now s" "c_inflease_time (s_cfg s) \<noteq> 0"
  shows "\<exists>s' e p t i h. sendACK env s old y = Some (s', 0) \<and> e \<in> set (s_out s') \<and> event_msg e = Some p \<and>
    lease_reply s old DHCPACK y t p \<and> ack_lease_time s old = Some t \<and>
    find_lease_by_chaddr s' (m_chaddr old) = Some i \<and> s_leases s' ! i = lease_entry s (m_chaddr old) y t h"
proof -
  have wf: "wf_msg old" "length (m_chaddr old) = 16" using assms(1) by (simp_all add: calm_msg_def wf_msg_def)
  obtain p t h where p: "ack_packet s old y = Some (p, t, h)" "wf_msg p" "length h \<le> 30"
    using ack_packet_returns [OF assms(1,2)] by blast
  note c = ack_packet_contents [OF p(1) wf(1) assms(2)]
  then have f: "m_chaddr p = m_chaddr old" "m_yiaddr p = y" "m_cookie p = htonl DHCP_MAGIC"
    by (simp_all add: lease_reply_def reply_to_def)
  obtain e where e: "send_packet env s p False = Some (emit s [e], tx_result (e_tx env))" "event_msg e = Some p"
    using send_packet_sends [OF p(2) f(3) assms(5)] by blast
  let ?s1 = "emit s [e]"
  obtain s' r where al: "add_lease env ?s1 (m_chaddr old) y t h = Some (s', r)" using add_lease_returns [OF p(3)] by blast
  have "lease_address ?s1 (m_chaddr old) = Some y" using assms(6) by (simp add: lease_address_def find_lease_by_chaddr_def lease_simps)
  with add_lease_renews [OF al _ assms(4)] assms(7,8) wf(2) obtain i where i: "r = Some i" by (auto simp: lease_simps)
  note found = add_lease_found [OF al [unfolded i] wf(2) assms(4)]
  have "lease_entry ?s1 (m_chaddr old) y t h = lease_entry s (m_chaddr old) y t h" by (simp add: lease_entry_def lease_simps)
  moreover have "e \<in> set (s_out s')" using add_lease_delta_ext [OF al] by (auto simp: delta_ext_def lease_simps)
  moreover have "sendACK env s old y = Some (s', 0)" using p(1) e(1) al f assms(5) by (simp add: sendACK_def tx_works_def)
  ultimately show ?thesis using found c e(2) by metis
qed

lemma selection_acked:
  assumes "calm_msg old" "conf_opts_ok (c_options (s_cfg s))" "table_ok s" "\<not> zerohwaddr (m_chaddr old)" "tx_works env"
    and "option_value old DHCP_MESSAGE_TYPE = Some (Some [DHCPREQUEST])"
    and "option_value old DHCP_SERVER_ID = Some (Some (le32 (c_server (s_cfg s))))"
    and "option_value old DHCP_REQUESTED_IP = Some (Some (le32 y))" "lease_address s (m_chaddr old) = Some y"
    and "0 < s_now s" "c_inflease_time (s_cfg s) \<noteq> 0"
  shows "\<exists>s' e p t i h. handle_packet env s old = Some s' \<and> e \<in> set (s_out s') \<and> event_msg e = Some p \<and>
    lease_reply s old DHCPACK y t p \<and> ack_lease_time s old = Some t \<and>
    find_lease_by_chaddr s' (m_chaddr old) = Some i \<and> s_leases s' ! i = lease_entry s (m_chaddr old) y t h"
proof -
  from sendACK_records [OF assms(1-5,9-11)] obtain s' e p t i h where
    a: "sendACK env s old y = Some (s', 0)" "e \<in> set (s_out s') \<and> event_msg e = Some p \<and>
    lease_reply s old DHCPACK y t p \<and> ack_lease_time s old = Some t \<and>
    find_lease_by_chaddr s' (m_chaddr old) = Some i \<and> s_leases s' ! i = lease_entry s (m_chaddr old) y t h" by blast
  from message_type_value [OF assms(6)] obtain off where
    o: "get_option old DHCP_MESSAGE_TYPE = Some (Some off)" "rd (msg_bytes old) off = Some DHCPREQUEST" by blast
  from assms(9) obtain k where k: "find_lease_by_chaddr s (m_chaddr old) = Some k" "l_yiaddr (s_leases s ! k) = y"
    by (auto simp: lease_address_def)
  have "do_request env s old = Some s'"
    using opt_u32_value [OF assms(7)] opt_u32_value [OF assms(8)] k a(1) by (simp add: do_request_def Let_def)
  with o have "handle_packet env s old = Some s'" by (simp add: handle_packet_def)
  with a(2) show ?thesis by blast
qed

lemma ack_lease_time_range:
  assumes "ack_lease_time s old = Some t"
  shows "t = c_inflease_time (s_cfg s) \<or> t = c_lease (s_cfg s) \<or> c_min_lease (s_cfg s) \<le> t \<and> t \<le> c_lease (s_cfg s)"
proof -
  from assms obtain lt where "get_option old DHCP_LEASE_TIME = Some lt" by (auto simp: ack_lease_time_def bind_Some_iff)
  with assms show ?thesis
    by (cases lt) (auto simp: ack_lease_time_def bind_Some_iff split: option.split_asm if_split_asm)
qed

section \<open>Properties\<close>

text \<open>A client with a lease asks to keep it.\<close>

definition sample_request :: dhcpMessage where
  "sample_request = zero_msg\<lparr> m_op := 1, m_cookie := htonl DHCP_MAGIC, m_chaddr := sample_mac,
     m_options := [53, 1, 3, 50, 4, 192, 168, 1, 2, 54, 4, 192, 168, 1, 1, 255] @ replicate 292 0 \<rparr>"

definition leased_srv :: srv where
  "leased_srv = set_leases sample_srv
     [\<lparr> l_chaddr = sample_mac, l_yiaddr = htonl 0xC0A80102, l_expires = 5000, l_hostname = cstr ''pc'' \<rparr>, zero_lease]"

lemma sample_request_items:
  "msg_items sample_request [Opt 53 [3], Opt 50 [192, 168, 1, 2], Opt 54 [192, 168, 1, 1]]"
  by (simp add: msg_items_def sample_request_def wf_msg_def opts_are_def zero_msg_def)

lemma sample_request_options:
  "option_value sample_request DHCP_MESSAGE_TYPE = Some (Some [DHCPREQUEST])"
  "option_value sample_request DHCP_REQUESTED_IP = Some (Some [192, 168, 1, 2])"
  "option_value sample_request DHCP_SERVER_ID = Some (Some [192, 168, 1, 1])"
  "option_value sample_request DHCP_HOST_NAME = Some None"
  using dhcp_msg.lookup_law [OF sample_request_items] by (simp_all add: no_overload_def)

lemma sample_addresses: "le32 (htonl 0xC0A80102) = [192, 168, 1, 2]" "le32 (htonl 0xC0A80101) = [192, 168, 1, 1]"
  by code_simp+

lemma sample_request_ok [simp]:
  "wf_msg sample_request" "m_chaddr sample_request = sample_mac" "calm_msg sample_request"
proof -
  show wf: "wf_msg sample_request" using sample_request_items by (simp add: msg_items_def)
  show "m_chaddr sample_request = sample_mac" by (simp add: sample_request_def)
  have "get_option sample_request DHCP_HOST_NAME = Some None"
    using sample_request_options(4) by (auto simp: option_value_def bind_Some_iff split: option.split_asm)
  then have "get_option_length sample_request DHCP_HOST_NAME = Some 0"
    unfolding get_option_length_def get_option_def by (simp add: get_option_length_loop_eq)
  moreover have "drop 300 (m_options sample_request) = replicate 8 0" by (simp add: sample_request_def)
  ultimately show "calm_msg sample_request" using wf by (simp add: calm_msg_def)
qed

lemma leased_srv_ok [simp]:
  "table_ok leased_srv" "conf_opts_ok (c_options (s_cfg leased_srv))" "net_ok quiet_env (s_cfg leased_srv)"
  "c_end (s_cfg leased_srv) \<noteq> - 1" "lease_address leased_srv sample_mac = Some (htonl 0xC0A80102)"
  "list_all (\<lambda>l. length (l_hostname l) \<le> 30) (s_leases leased_srv)"
proof -
  have z: "sample_mac \<noteq> replicate 16 0" by (auto simp: sample_mac_def dest: arg_cong [of _ _ hd])
  then show "table_ok leased_srv"
    by (simp add: table_ok_def leased_srv_def lease_simps sample_srv_def sample_cfg_def wf_lease_def zero_lease_def uniq_key_def cstr_def)
  show "conf_opts_ok (c_options (s_cfg leased_srv))"
    by (simp add: leased_srv_def set_leases_def sample_srv_def sample_cfg_def conf_opts_ok_def conf_ok_def)
  have "same_cfg sample_srv leased_srv" unfolding leased_srv_def
    by (intro same_cfg_set_leases) (simp add: sample_srv_def sample_cfg_def lease_simps)
  then show "net_ok quiet_env (s_cfg leased_srv)" "c_end (s_cfg leased_srv) \<noteq> - 1"
    using quiet_net_ok by (simp_all add: net_ok_same_cfg same_cfg_fields sample_srv_def sample_cfg_def ntohl_minus_1)
  show "lease_address leased_srv sample_mac = Some (htonl 0xC0A80102)"
    by (simp add: lease_address_def find_lease_by_chaddr_def leased_srv_def lease_simps)
  show "list_all (\<lambda>l. length (l_hostname l) \<le> 30) (s_leases leased_srv)"
    by (simp add: leased_srv_def lease_simps zero_lease_def cstr_def)
qed

lemma leased_srv_fields [simp]:
  "c_server (s_cfg leased_srv) = htonl 0xC0A80101" "s_now leased_srv = 1000" "c_inflease_time (s_cfg leased_srv) = 0xFFFFFFFF"
  by (simp_all add: leased_srv_def set_leases_def sample_srv_def sample_cfg_def)

text \<open>What the server sends to a client that asks to keep its lease.\<close>

lemma sample_request_acked:
  "\<exists>s' e p. handle_packet quiet_env leased_srv sample_request = Some s' \<and> e \<in> set (s_out s') \<and> event_msg e = Some p \<and>
     m_yiaddr p = htonl 0xC0A80102"
proof -
  have "tx_works quiet_env" by (simp add: tx_works_def quiet_env_def)
  with selection_acked [of sample_request leased_srv quiet_env "htonl 0xC0A80102"]
  show ?thesis by (auto simp: sample_request_options sample_addresses lease_reply_def)
qed

text \<open>C3: Handling a message whose hardware address is not all zero leaves the configuration and the table
  invariant intact, and every DHCP message it sends answers it: a DISCOVER with an OFFER of a nonzero
  address that the table then holds for that client, a REQUEST with an ACK of the address that the
  table holds for the client, with the lease time computed for it, or with a NAK, an INFORM with an ACK
  that assigns no address.  Other types, and messages without a type, are not answered.  All answers carry
  their type and the server's address as options and repeat the transaction id, the hardware address and
  the relay of the request.  The configured options are well formed, probes end, and a host that answers
  one has a hardware address.\<close>

theorem server_answers:
  assumes "handle_packet env s old = Some s'" "wf_msg old" "conf_opts_ok (c_options (s_cfg s))" "table_ok s"
    and "net_ok env (s_cfg s)" "\<not> zerohwaddr (m_chaddr old)"
  shows "same_cfg s s' \<and> table_ok s' \<and>
    (\<exists>es. s_out s' = s_out s @ es \<and> (\<forall>e\<in>set es. \<forall>p. event_msg e = Some p \<longrightarrow> server_answer s s' old p))"
  using handle_packet_handled [OF assms] unfolding handled_def .

theorem server_answers_witness:
  "\<exists>s' e p. handle_packet quiet_env leased_srv sample_request = Some s' \<and> e \<in> set (s_out s') \<and> event_msg e = Some p \<and>
     m_yiaddr p = htonl 0xC0A80102 \<and> server_answer leased_srv s' sample_request p"
proof -
  obtain s' e p where s': "handle_packet quiet_env leased_srv sample_request = Some s'"
    and e: "e \<in> set (s_out s')" "event_msg e = Some p" "m_yiaddr p = htonl 0xC0A80102"
    using sample_request_acked by blast
  have "s_out leased_srv = []" by (simp add: leased_srv_def set_leases_def sample_srv_def)
  with server_answers [OF s' sample_request_ok(1) leased_srv_ok(2,1,3)] e
  have "server_answer leased_srv s' sample_request p" by auto
  with s' e show ?thesis by blast
qed



text \<open>C16: A client that selects this server and asks for the address the table holds for it gets it:
  when the reply can be sent, an ACK of that address goes out and the table records the lease for
  the time the ACK grants, counted from now.\<close>

theorem selecting_request_acked:
  assumes "calm_msg old" "conf_opts_ok (c_options (s_cfg s))" "table_ok s" "\<not> zerohwaddr (m_chaddr old)" "tx_works env"
    and "option_value old DHCP_MESSAGE_TYPE = Some (Some [DHCPREQUEST])"
    and "option_value old DHCP_SERVER_ID = Some (Some (le32 (c_server (s_cfg s))))"
    and "option_value old DHCP_REQUESTED_IP = Some (Some (le32 y))" "lease_address s (m_chaddr old) = Some y"
    and "0 < s_now s" "c_inflease_time (s_cfg s) \<noteq> 0"
  shows "\<exists>s' e p t i h. handle_packet env s old = Some s' \<and> e \<in> set (s_out s') \<and> event_msg e = Some p \<and>
    lease_reply s old DHCPACK y t p \<and> ack_lease_time s old = Some t \<and>
    find_lease_by_chaddr s' (m_chaddr old) = Some i \<and> s_leases s' ! i = lease_entry s (m_chaddr old) y t h"
  using assms by (rule selection_acked)

theorem selecting_request_acked_witness:
  "\<exists>s' e p. handle_packet quiet_env leased_srv sample_request = Some s' \<and> e \<in> set (s_out s') \<and> event_msg e = Some p \<and>
     m_yiaddr p = htonl 0xC0A80102"
proof -
  have "tx_works quiet_env" by (simp add: tx_works_def quiet_env_def)
  with selecting_request_acked [of sample_request leased_srv quiet_env "htonl 0xC0A80102"]
  show ?thesis by (auto simp: sample_request_options sample_addresses lease_reply_def)
qed

text \<open>C24: An offered address is either the one the table holds for the client, or, for a client without an
  entry, one that was probed: nobody answered the probe, and in the state in which it was sent every
  entry of the table with that address was the client's own or had expired.  Only the time that the
  probe took has passed since then.\<close>

theorem offer_not_taken:
  assumes "offer_address env s old = Some (s', y, t)" "table_ok s" "net_ok env (s_cfg s)" "y \<noteq> 0"
  shows "table_ok s' \<and>
    (case lease_address s (m_chaddr old) of
       Some a \<Rightarrow> s' = s \<and> y = a \<and> may_offer s (m_chaddr old) y
     | None \<Rightarrow> \<exists>s0 rv reply d. s' = tick d s0 \<and> may_offer s0 (m_chaddr old) y \<and> rv \<noteq> 0 \<and>
         arpping (e_arp env y (s_now s0)) y (c_server (s_cfg s)) (c_arp (s_cfg s)) (c_interface (s_cfg s)) = Some (rv, reply, d))"
proof (cases "find_lease_by_chaddr s (m_chaddr old)")
  case None
  with offer_address_picked [OF assms(1) None] assms(2-4) show ?thesis by (simp add: picked_def lease_address_def)
next
  case (Some i)
  note o = offer_address_own [OF assms(1) Some]
  with may_offer_own [OF assms(2) Some _ assms(4)] assms(2) Some show ?thesis by (simp add: lease_address_def)
qed

theorem offer_not_taken_witness:
  "\<exists>s' y t. offer_address quiet_env leased_srv sample_request = Some (s', y, t) \<and> y \<noteq> 0 \<and> may_offer leased_srv sample_mac y"
proof -
  have y: "htonl 0xC0A80102 \<noteq> 0" by code_simp
  have "find_lease_by_chaddr leased_srv sample_mac = Some 0" "l_yiaddr (s_leases leased_srv ! 0) = htonl 0xC0A80102"
    by (simp_all add: find_lease_by_chaddr_def leased_srv_def lease_simps)
  then obtain t where o: "offer_address quiet_env leased_srv sample_request = Some (leased_srv, htonl 0xC0A80102, t)"
    by (simp add: offer_address_def Let_def)
  from offer_not_taken [OF o leased_srv_ok(1,3) y] o y show ?thesis by auto
qed

text \<open>C33: The lease time of an ACK is the infinite one, or the configured lease time, or the time the
  client asked for when that lies between the configured minimum and lease time.\<close>

theorem ack_lease_time_bounds:
  assumes "ack_lease_time s old = Some t"
  shows "t = c_inflease_time (s_cfg s) \<or> t = c_lease (s_cfg s) \<or> c_min_lease (s_cfg s) \<le> t \<and> t \<le> c_lease (s_cfg s)"
  using assms by (rule ack_lease_time_range)

theorem ack_lease_time_bounds_witness:
  "\<exists>t. ack_lease_time leased_srv sample_request = Some t \<and> (t = 0xFFFFFFFF \<or> t \<le> c_lease (s_cfg leased_srv))"
proof -
  obtain t where "ack_lease_time leased_srv sample_request = Some t" using ack_lease_time_returns [of sample_request] by auto
  with ack_lease_time_bounds [OF this] show ?thesis by auto
qed

text \<open>The host name that is kept for a lease is the longest run of at most \<open>len\<close> characters of the
  option without a NUL or a separator, followed by a NUL; the array is overrun exactly when that run
  does not fit it with the NUL.\<close>

theorem copy_till_run:
  assumes "off + len < length m"
  shows "copy_till m off dest sep len =
    (let h = takeWhile (\<lambda>c. c \<noteq> 0 \<and> c \<noteq> sep) (take len (drop off m)) in
     if length h < length dest then Some (h @ 0 # drop (length h + 1) dest) else None)"
  using copy_till_loop_spec [OF assms, of 0 dest sep] by (simp add: copy_till_def Let_def)

theorem copy_till_run_witness:
  "copy_till (replicate 60 97 @ [0]) 0 (replicate 50 0) 46 60 = None"
  using copy_till_run [of 0 60 "replicate 60 97 @ [0]" "replicate 50 0" 46] by (simp add: Let_def)

text \<open>C7: In any run of the service loop of an interface in which every message received names its sender by a
  hardware address that is not all zero, the lease table stays well formed, with no address and no
  client in two entries, and nothing else of the configuration changes.  Probes end, and a host that
  answers one has a hardware address.  (A message with an all-zero address can break the table:
  \<open>add_lease_zero_hwaddr_duplicates\<close>.)\<close>

theorem serving_keeps_table:
  assumes "serving it rs it'" "iface_ok it" "\<forall>r\<in>set rs. round_ok (s_cfg (i_srv it)) r"
  shows "iface_ok it' \<and> same_cfg (i_srv it) (i_srv it')"
  using assms by (rule serving_ok)

definition sample_iface :: iface where
  "sample_iface = \<lparr> i_srv = leased_srv, i_open = False, i_timeout_end = 9000 \<rparr>"

definition sample_round :: loop_io where
  "sample_round = \<lparr> lp_before = 1000, lp_after = 1000, lp_listen = True, lp_select = 1, lp_read = Some (msg_bytes sample_request),
     lp_eintr = False \<rparr>"

lemma sample_request_rx: "get_packet (Some (msg_bytes sample_request)) = Some (Got 548 sample_request)"
proof -
  have "option_value sample_request DHCP_VENDOR = Some None"
    using dhcp_msg.lookup_law [OF sample_request_items] by (simp add: no_overload_def)
  then have "get_option sample_request DHCP_VENDOR = Some None" by (auto simp: option_value_def bind_Some_iff split: option.split_asm)
  moreover have "ntohl (m_cookie sample_request) = DHCP_MAGIC" by (simp add: sample_request_def)
  moreover have "fill_msg (msg_bytes sample_request) = msg_bytes sample_request" by (simp add: fill_msg_def)
  ultimately show ?thesis by (simp add: get_packet_def Let_def bytes_msg_bytes)
qed

text \<open>In this round the server receives the request and answers it.\<close>

lemma sample_round_serves:
  "\<exists>it'. serving sample_iface [(quiet_env, sample_round)] it' \<and> (\<exists>e\<in>set (s_out (i_srv it')). \<exists>p. event_msg e = Some p)"
proof -
  obtain s' e p where s': "handle_packet quiet_env leased_srv sample_request = Some s'" "e \<in> set (s_out s')" "event_msg e = Some p"
    using sample_request_acked by blast
  have "c_active (s_cfg leased_srv)" "c_auto_time (s_cfg leased_srv) = 7200" "leased_srv\<lparr>s_now := 1000\<rparr> = leased_srv"
    by (simp_all add: leased_srv_def set_leases_def sample_srv_def sample_cfg_def)
  with s'(1) sample_request_rx obtain it' where "serve quiet_env sample_round sample_iface = Some (Next it')" "i_srv it' = s'"
    by (auto simp: serve_def sample_iface_def sample_round_def auto_write_def at_time_def Let_def)
  with s'(2,3) serving.round [OF serving.start, of quiet_env sample_round sample_iface] show ?thesis by auto
qed

theorem serving_keeps_table_witness:
  "\<exists>it'. serving sample_iface [(quiet_env, sample_round)] it' \<and> (\<exists>e\<in>set (s_out (i_srv it')). \<exists>p. event_msg e = Some p) \<and> iface_ok it'"
proof -
  obtain it' where r: "serving sample_iface [(quiet_env, sample_round)] it'" "\<exists>e\<in>set (s_out (i_srv it')). \<exists>p. event_msg e = Some p"
    using sample_round_serves by blast
  have "iface_ok sample_iface" by (simp add: iface_ok_def sample_iface_def)
  moreover have "round_ok (s_cfg (i_srv sample_iface)) (quiet_env, sample_round)"
    by (simp add: round_ok_def sample_iface_def sample_round_def sample_request_rx)
  ultimately show ?thesis using serving_keeps_table [OF r(1)] r by auto
qed

end
