(* ===== verification/Dhcp_Client.thy ===== *)
theory Dhcp_Client
  imports Dhcp_Server
begin

text \<open>
  \<^verbatim>\<open>src/udhcp/clientpacket.c\<close>, \<^verbatim>\<open>src/udhcp/script.c\<close> and \<^verbatim>\<open>src/udhcp/dhcpc.c\<close>: the messages of the client,
  the environment it hands to its script, and its state machine.  One call of
  \<open>client_round\<close> is one turn of the main loop; the outcomes of the system calls are its input,
  sent frames, script calls and shell commands are appended to the effects of the state.
\<close>

section \<open>The configuration\<close>

record client_config_t =
  cc_foreground :: bool
  cc_quit_after_lease :: bool
  cc_abort_if_no_lease :: bool
  cc_interface :: bytes
  cc_pidfile :: "bytes option"
  cc_script :: "bytes option"
  cc_clientid :: "bytes option"
  cc_hostname :: "bytes option"
  cc_ifindex :: int
  cc_arp :: bytes
  cc_defroute :: bool

definition default_client_config :: client_config_t where
  "default_client_config = \<lparr> cc_foreground = False, cc_quit_after_lease = False, cc_abort_if_no_lease = False,
     cc_interface = cstr ''eth0'', cc_pidfile = None, cc_script = Some (cstr ''/usr/share/udhcpc/default.script''),
     cc_clientid = None, cc_hostname = None, cc_ifindex = 0, cc_arp = replicate 6 0, cc_defroute = True \<rparr>"

section \<open>Messages of the client\<close>

text \<open>The vendor option, with the NUL of the string that follows its data in memory.\<close>

definition vendor_id :: bytes where
  "vendor_id = [DHCP_VENDOR, 11] @ cstr ''udhcp 0.9.7'' @ [0]"

text \<open>A NULL client id cannot occur once the client has started; it is a bad access here.\<close>

definition client_init_packet :: "client_config_t \<Rightarrow> u8 \<Rightarrow> dhcpMessage option" where
  "client_init_packet cfg type = do {
     p0 \<leftarrow> init_header type;
     chaddr \<leftarrow> wr_n (m_chaddr p0) 0 (take 6 (cc_arp cfg));
     clientid \<leftarrow> cc_clientid cfg;
     p1 \<leftarrow> msg_add (p0\<lparr>m_chaddr := chaddr\<rparr>) clientid;
     p2 \<leftarrow> (case cc_hostname cfg of None \<Rightarrow> Some p1 | Some h \<Rightarrow> msg_add p1 h);
     msg_add p2 vendor_id }"

definition requested_codes :: bytes where
  "requested_codes = map o_code (filter (\<lambda>q. o_flags q AND OPTION_REQ \<noteq> 0) supported_options)"

text \<open>\<^verbatim>\<open>add_requests\<close> writes after the last option without testing the end of the array.\<close>

definition add_requests :: "dhcpMessage \<Rightarrow> dhcpMessage option" where
  "add_requests p = do {
     e \<leftarrow> end_option (m_options p);
     o1 \<leftarrow> wr (m_options p) e DHCP_PARAM_REQ;
     o2 \<leftarrow> wr_n o1 (e + 2) requested_codes;
     o3 \<leftarrow> wr o2 (e + 1) (of_nat (length requested_codes));
     o4 \<leftarrow> wr o3 (e + 2 + length requested_codes) DHCP_END;
     Some (p\<lparr>m_options := o4\<rparr>) }"

definition discover_msg :: "client_config_t \<Rightarrow> u32 \<Rightarrow> u32 \<Rightarrow> dhcpMessage option" where
  "discover_msg cfg xid requested = do {
     p0 \<leftarrow> client_init_packet cfg DHCPDISCOVER;
     p1 \<leftarrow> Some (p0\<lparr>m_xid := xid\<rparr>);
     p2 \<leftarrow> (if requested \<noteq> 0 then msg_add_simple p1 DHCP_REQUESTED_IP requested else Some p1);
     add_requests p2 }"

definition send_discover :: "tx_io \<Rightarrow> client_config_t \<Rightarrow> u32 \<Rightarrow> u32 \<Rightarrow> (int \<times> tx list) option" where
  "send_discover io cfg xid requested = do {
     p \<leftarrow> discover_msg cfg xid requested;
     raw_packet io p INADDR_ANY CLIENT_PORT INADDR_BROADCAST SERVER_PORT MAC_BCAST_ADDR (cc_ifindex cfg) }"

definition selecting_msg :: "client_config_t \<Rightarrow> u32 \<Rightarrow> u32 \<Rightarrow> u32 \<Rightarrow> dhcpMessage option" where
  "selecting_msg cfg xid server requested = do {
     p0 \<leftarrow> client_init_packet cfg DHCPREQUEST;
     p1 \<leftarrow> msg_add_simple (p0\<lparr>m_xid := xid\<rparr>) DHCP_REQUESTED_IP requested;
     p2 \<leftarrow> msg_add_simple p1 DHCP_SERVER_ID server;
     add_requests p2 }"

definition send_selecting :: "tx_io \<Rightarrow> client_config_t \<Rightarrow> u32 \<Rightarrow> u32 \<Rightarrow> u32 \<Rightarrow> (int \<times> tx list) option" where
  "send_selecting io cfg xid server requested = do {
     p \<leftarrow> selecting_msg cfg xid server requested;
     raw_packet io p INADDR_ANY CLIENT_PORT INADDR_BROADCAST SERVER_PORT MAC_BCAST_ADDR (cc_ifindex cfg) }"

definition renew_msg :: "client_config_t \<Rightarrow> u32 \<Rightarrow> u32 \<Rightarrow> dhcpMessage option" where
  "renew_msg cfg xid ciaddr = do {
     p0 \<leftarrow> client_init_packet cfg DHCPREQUEST;
     add_requests (p0\<lparr>m_xid := xid, m_ciaddr := ciaddr\<rparr>) }"

definition send_renew :: "tx_io \<Rightarrow> client_config_t \<Rightarrow> u32 \<Rightarrow> u32 \<Rightarrow> u32 \<Rightarrow> (int \<times> tx list) option" where
  "send_renew io cfg xid server ciaddr = do {
     p \<leftarrow> renew_msg cfg xid ciaddr;
     if server \<noteq> 0 then Some (kernel_packet io p ciaddr CLIENT_PORT server SERVER_PORT)
     else raw_packet io p INADDR_ANY CLIENT_PORT INADDR_BROADCAST SERVER_PORT MAC_BCAST_ADDR (cc_ifindex cfg) }"

definition release_msg :: "client_config_t \<Rightarrow> u32 \<Rightarrow> u32 \<Rightarrow> u32 \<Rightarrow> dhcpMessage option" where
  "release_msg cfg xid server ciaddr = do {
     p0 \<leftarrow> client_init_packet cfg DHCPRELEASE;
     p1 \<leftarrow> msg_add_simple (p0\<lparr>m_xid := xid, m_ciaddr := ciaddr\<rparr>) DHCP_REQUESTED_IP ciaddr;
     msg_add_simple p1 DHCP_SERVER_ID server }"

definition send_release :: "tx_io \<Rightarrow> client_config_t \<Rightarrow> u32 \<Rightarrow> u32 \<Rightarrow> u32 \<Rightarrow> (int \<times> tx list) option" where
  "send_release io cfg xid server ciaddr = do {
     p \<leftarrow> release_msg cfg xid server ciaddr;
     Some (kernel_packet io p ciaddr CLIENT_PORT server SERVER_PORT) }"

section \<open>The environment of the script\<close>

definition max_option_length :: "nat list" where
  "max_option_length = [0, 17, 34, 1, 5, 5, 7, 8, 12, 13]"

definition opt_type :: "dhcp_option \<Rightarrow> u8" where
  "opt_type q = o_flags q AND TYPE_MASK"

definition upper_length :: "nat \<Rightarrow> dhcp_option \<Rightarrow> nat" where
  "upper_length len q = max_option_length ! unat (opt_type q) * (len div option_lengths ! unat (opt_type q))"

definition sprintip :: "bytes \<Rightarrow> bytes \<Rightarrow> nat \<Rightarrow> bytes option" where
  "sprintip pre m i = do {
     a \<leftarrow> rd m i; b \<leftarrow> rd m (i + 1); c \<leftarrow> rd m (i + 2); d \<leftarrow> rd m (i + 3);
     Some (pre @ dec (unat a) @ [46] @ dec (unat b) @ [46] @ dec (unat c) @ [46] @ dec (unat d) @ [32]) }"

text \<open>One turn of the loop for the types other than strings: the text, the number of bytes of the option
  it uses, and the number by which the remaining length drops.\<close>

definition fill_piece :: "u8 \<Rightarrow> bytes \<Rightarrow> nat \<Rightarrow> (bytes \<times> nat \<times> nat) option" where
  "fill_piece type m i =
     (if type = OPTION_IP_PAIR then do {
        a \<leftarrow> sprintip [] m i; b \<leftarrow> sprintip [] m (i + 4); Some (a @ [47] @ b, 8, 4) }
      else if type = OPTION_IP then do { a \<leftarrow> sprintip [] m i; Some (a, 4, 4) }
      else if type = OPTION_BOOLEAN then do { b \<leftarrow> rd m i; Some (if b \<noteq> 0 then cstr ''yes '' else cstr ''no '', 1, 1) }
      else if type = OPTION_U8 then do { b \<leftarrow> rd m i; Some (dec (unat b) @ [32], 1, 1) }
      else if type = OPTION_U16 then do { v \<leftarrow> rd16 m i; Some (dec (unat (ntohs v)) @ [32], 2, 2) }
      else if type = OPTION_S16 then do { v \<leftarrow> rd16 m i; Some (dec (unat (ntohs v)) @ [32], 2, 2) }
      else if type = OPTION_U32 then do { v \<leftarrow> rd32 m i; Some (dec (unat (ntohl v)) @ [32], 4, 4) }
      else if type = OPTION_S32 then do { v \<leftarrow> rd32 m i; Some (dec_int (sint (ntohl v)) @ [32], 4, 4) }
      else None)"

lemma fill_piece_step: "fill_piece type m i = Some (x, k, n) \<Longrightarrow> 0 < n"
  by (auto simp: fill_piece_def bind_Some_iff split: if_split_asm)

function fill_loop :: "u8 \<Rightarrow> bytes \<Rightarrow> nat \<Rightarrow> nat \<Rightarrow> bytes option" where
  "fill_loop type m i len =
     (case fill_piece type m i of
        None \<Rightarrow> None
      | Some (x, k, n) \<Rightarrow>
          if len \<le> n then Some x
          else map_option (\<lambda>y. x @ y) (fill_loop type m (i + k) (len - n)))"
  by pat_completeness auto
termination
  by (relation "measure (\<lambda>(type, m, i, len). len)") (auto dest: fill_piece_step)

declare fill_loop.simps [simp del]

text \<open>The text of an option; \<open>i\<close> is the offset of its data in the message.\<close>

definition fill_options :: "bytes \<Rightarrow> nat \<Rightarrow> dhcp_option \<Rightarrow> bytes option" where
  "fill_options m i q = do {
     l \<leftarrow> rd m (i - 1);
     x \<leftarrow> (if opt_type q = OPTION_STRING then rd_n m i (unat l) else fill_loop (opt_type q) m i (unat l));
     Some (cstr (o_name q) @ [61] @ x) }"

definition find_env :: "bytes list \<Rightarrow> bytes \<Rightarrow> bytes \<Rightarrow> bytes" where
  "find_env environ prefix dflt =
     (case find (\<lambda>e. take (length prefix) e = prefix) environ of None \<Rightarrow> dflt | Some e \<Rightarrow> e)"

text \<open>A string that is printed with its NUL into a block of \<open>n\<close> bytes.\<close>

definition fits :: "nat \<Rightarrow> bytes \<Rightarrow> bytes option" where
  "fits n x = (if length x < n then Some x else None)"

text \<open>The option strings, each in a block sized by \<^verbatim>\<open>upper_length\<close>.\<close>

fun env_options :: "dhcpMessage \<Rightarrow> dhcp_option list \<Rightarrow> bytes list option" where
  "env_options p [] = Some []"
| "env_options p (q # qs) = do {
     r \<leftarrow> get_option p (o_code q);
     case r of
       None \<Rightarrow> env_options p qs
     | Some i \<Rightarrow> do {
         l \<leftarrow> rd (msg_bytes p) (i - 1);
         x \<leftarrow> fill_options (msg_bytes p) i q;
         x' \<leftarrow> fits (upper_length (unat l) q + length (o_name q) + 2) x;
         xs \<leftarrow> env_options p qs;
         Some (x' # xs) } }"

definition env_over :: "dhcpMessage \<Rightarrow> u8 option" where
  "env_over p = do {
     r \<leftarrow> get_option p DHCP_OPTION_OVER;
     case r of None \<Rightarrow> Some 0 | Some i \<Rightarrow> rd (msg_bytes p) i }"

definition fill_envp :: "bytes list \<Rightarrow> client_config_t \<Rightarrow> dhcpMessage option \<Rightarrow> bytes list option" where
  "fill_envp environ cfg packet =
     (let base = [cstr ''interface='' @ cc_interface cfg,
                  find_env environ (cstr ''PATH'') (cstr ''PATH=/bin:/usr/bin:/sbin:/usr/sbin''),
                  find_env environ (cstr ''HOME'') (cstr ''HOME=/'')] in
      case packet of
        None \<Rightarrow> Some base
      | Some p \<Rightarrow> do {
          over \<leftarrow> env_over p;
          ip \<leftarrow> sprintip (cstr ''ip='') (le32 (m_yiaddr p)) 0;
          ip' \<leftarrow> fits 19 ip;
          opts \<leftarrow> env_options p supported_options;
          si \<leftarrow> (if m_siaddr p \<noteq> 0 then do {
                   x \<leftarrow> sprintip (cstr ''siaddr='') (le32 (m_siaddr p)) 0; x' \<leftarrow> fits 23 x; Some [x'] }
                 else Some []);
          fl \<leftarrow> (if over AND 1 = 0 \<and> m_file p ! 0 \<noteq> 0 then do {
                   f \<leftarrow> c_string_at ((m_file p)[127 := 0]) 0; Some [cstr ''boot_file='' @ f] }
                 else Some []);
          sn \<leftarrow> (if over AND 2 = 0 \<and> m_sname p ! 0 \<noteq> 0 then do {
                   f \<leftarrow> c_string_at ((m_sname p)[63 := 0]) 0; Some [cstr ''sname='' @ f] }
                 else Some []);
          Some (base @ [ip'] @ opts @ si @ fl @ sn) })"

section \<open>The state of the client\<close>

datatype client_state =
  INIT_SELECTING | REQUESTING | BOUND | RENEWING | REBINDING | INIT_REBOOT | RENEW_REQUESTED | RELEASED

datatype listen = LISTEN_NONE | LISTEN_KERNEL | LISTEN_RAW

text \<open>
  Effects: a frame, a call of the script with its name and environment (\<^term>\<open>None\<close> when the child
  process leaves its memory while it builds the environment), and a shell command.
\<close>

datatype client_event = CTx tx | Script bytes "bytes list option" | System bytes

text \<open>The static variables and the locals of \<^verbatim>\<open>main\<close>; \<open>k_lease\<close> is \<^term>\<open>None\<close> until it is first assigned.\<close>

record client =
  k_cfg :: client_config_t
  k_state :: client_state
  k_requested_ip :: u32
  k_server_addr :: u32
  k_timeout :: u32
  k_packet_num :: nat
  k_open :: bool
  k_backup :: bool
  k_failurecnt :: int
  k_backupip :: bytes
  k_listen_mode :: listen
  k_t1 :: u32
  k_t2 :: u32
  k_xid :: u32
  k_start :: u32
  k_lease :: "u32 option"
  k_packet :: dhcpMessage
  k_out :: "client_event list"

record client_io =
  co_before :: u32
  co_socket :: bool
  co_select :: int
  co_ready :: bool
  co_now :: u32
  co_read :: "bytes option"
  co_eintr :: bool
  co_rand :: u32
  co_tx :: tx_io
  co_environ :: "bytes list"

datatype client_result = CExit int client | CNext client

definition change_mode :: "listen \<Rightarrow> client \<Rightarrow> client" where
  "change_mode new_mode k = k\<lparr>k_open := False, k_listen_mode := new_mode\<rparr>"

definition effect :: "client_event list \<Rightarrow> client \<Rightarrow> client" where
  "effect es k = k\<lparr>k_out := k_out k @ es\<rparr>"

definition run_script :: "client_io \<Rightarrow> dhcpMessage option \<Rightarrow> string \<Rightarrow> client \<Rightarrow> client" where
  "run_script io packet name k =
     (case cc_script (k_cfg k) of
        None \<Rightarrow> k
      | Some s \<Rightarrow> effect [Script (cstr name) (fill_envp (co_environ io) (k_cfg k) packet)] k)"

section \<open>Signals\<close>

definition renew_requested :: "client \<Rightarrow> client" where
  "renew_requested k =
     (let k1 = (if k_state k \<in> {BOUND, RENEWING, REBINDING}
                then (change_mode LISTEN_KERNEL k)\<lparr>k_packet_num := 0, k_state := RENEW_REQUESTED\<rparr>
                else if k_state k = RELEASED
                then (change_mode LISTEN_RAW k)\<lparr>k_packet_num := 0, k_state := INIT_SELECTING\<rparr>
                else k) in
      k1\<lparr>k_timeout := 0\<rparr>)"

definition release_requested :: "client_io \<Rightarrow> client \<Rightarrow> client option" where
  "release_requested io k = do {
     k1 \<leftarrow> (if k_state k \<in> {BOUND, RENEWING, REBINDING} then do {
              (r, txs) \<leftarrow> send_release (co_tx io) (k_cfg k) (co_rand io) (k_server_addr k) (k_requested_ip k);
              Some (run_script io None ''deconfig'' (effect (map CTx txs) k)) }
            else Some k);
     Some ((change_mode LISTEN_NONE k1)\<lparr>k_state := RELEASED, k_timeout := 0x7fffffff\<rparr>) }"

section \<open>Timeouts\<close>

definition timeout_selecting :: "client_io \<Rightarrow> client \<Rightarrow> client_result option" where
  "timeout_selecting io k =
     (if k_packet_num k < 3 then do {
        k1 \<leftarrow> Some (if k_packet_num k = 0 then k\<lparr>k_xid := co_rand io\<rparr> else k);
        (r, txs) \<leftarrow> send_discover (co_tx io) (k_cfg k1) (k_xid k1) (k_requested_ip k1);
        Some (CNext ((effect (map CTx txs) k1)\<lparr>k_timeout := co_now io + (if k_packet_num k = 2 then 10 else 2),
          k_packet_num := k_packet_num k + 1\<rparr>)) }
      else if k_backup k \<and> 2 \<le> k_failurecnt k then do {
        calline \<leftarrow> fits 50 (cstr ''ifconfig '' @ cc_interface (k_cfg k) @ [32] @ k_backupip k);
        Some (CExit 1 (effect [System calline] k)) }
      else if cc_abort_if_no_lease (k_cfg k) then Some (CExit 1 k)
      else Some (CNext (k\<lparr>k_failurecnt := k_failurecnt k + 1, k_packet_num := 0, k_timeout := co_now io + 5\<rparr>)))"

definition timeout_requesting :: "client_io \<Rightarrow> client \<Rightarrow> client_result option" where
  "timeout_requesting io k =
     (if k_packet_num k < 3 then do {
        (r, txs) \<leftarrow> (if k_state k = RENEW_REQUESTED
                   then send_renew (co_tx io) (k_cfg k) (k_xid k) (k_server_addr k) (k_requested_ip k)
                   else send_selecting (co_tx io) (k_cfg k) (k_xid k) (k_server_addr k) (k_requested_ip k));
        Some (CNext ((effect (map CTx txs) k)\<lparr>k_timeout := co_now io + (if k_packet_num k = 2 then 10 else 2),
          k_packet_num := k_packet_num k + 1\<rparr>)) }
      else Some (CNext (change_mode LISTEN_RAW
        (k\<lparr>k_state := INIT_SELECTING, k_timeout := co_now io, k_packet_num := 0\<rparr>))))"

definition timeout_renewing :: "client_io \<Rightarrow> client \<Rightarrow> client_result option" where
  "timeout_renewing io k = do {
     lease \<leftarrow> k_lease k;
     if k_t2 k - k_t1 k \<le> lease div 14400 + 1
     then Some (CNext (k\<lparr>k_state := REBINDING, k_timeout := co_now io + (k_t2 k - k_t1 k)\<rparr>))
     else do {
       (r, txs) \<leftarrow> send_renew (co_tx io) (k_cfg k) (k_xid k) (k_server_addr k) (k_requested_ip k);
       k1 \<leftarrow> Some ((effect (map CTx txs) k)\<lparr>k_t1 := (k_t2 k - k_t1 k) div 2 + k_t1 k\<rparr>);
       Some (CNext (k1\<lparr>k_timeout := k_t1 k1 + k_start k1\<rparr>)) } }"

definition timeout_rebinding :: "client_io \<Rightarrow> client \<Rightarrow> client_result option" where
  "timeout_rebinding io k = do {
     lease \<leftarrow> k_lease k;
     if lease - k_t2 k \<le> lease div 14400 + 1
     then Some (CNext (change_mode LISTEN_RAW ((run_script io None ''deconfig'' (k\<lparr>k_state := INIT_SELECTING\<rparr>))
       \<lparr>k_timeout := co_now io, k_packet_num := 0\<rparr>)))
     else do {
       (r, txs) \<leftarrow> send_renew (co_tx io) (k_cfg k) (k_xid k) 0 (k_requested_ip k);
       k1 \<leftarrow> Some ((effect (map CTx txs) k)\<lparr>k_t2 := (lease - k_t2 k) div 2 + k_t2 k\<rparr>);
       Some (CNext (k1\<lparr>k_timeout := k_t2 k1 + k_start k1\<rparr>)) } }"

text \<open>BOUND falls through to RENEWING; there is no case for \<^const>\<open>INIT_REBOOT\<close>.\<close>

definition client_timeout :: "client_io \<Rightarrow> client \<Rightarrow> client_result option" where
  "client_timeout io k =
     (case k_state k of
        INIT_SELECTING \<Rightarrow> timeout_selecting io k
      | RENEW_REQUESTED \<Rightarrow> timeout_requesting io k
      | REQUESTING \<Rightarrow> timeout_requesting io k
      | BOUND \<Rightarrow> timeout_renewing io (change_mode LISTEN_KERNEL (k\<lparr>k_state := RENEWING\<rparr>))
      | RENEWING \<Rightarrow> timeout_renewing io k
      | REBINDING \<Rightarrow> timeout_rebinding io k
      | RELEASED \<Rightarrow> Some (CNext (k\<lparr>k_timeout := 0x7fffffff\<rparr>))
      | INIT_REBOOT \<Rightarrow> Some (CNext k))"

section \<open>Receiving\<close>

text \<open>The result of the read and the contents of the message buffer after it.\<close>

definition client_rx :: "client_io \<Rightarrow> client \<Rightarrow> (int \<times> dhcpMessage) option" where
  "client_rx io k =
     (if k_listen_mode k = LISTEN_KERNEL then do {
        r \<leftarrow> get_packet (co_read io);
        Some (case r of
          Got n p \<Rightarrow> (int n, p)
        | RxError e \<Rightarrow> (e, case co_read io of None \<Rightarrow> zero_msg | Some data \<Rightarrow> bytes_msg (fill_msg data))) }
      else do {
        r \<leftarrow> get_raw_packet (k_packet k) (co_read io);
        d \<leftarrow> raw_payload (co_read io);
        Some (case r of
          Got n p \<Rightarrow> (int n, p)
        | RxError e \<Rightarrow> (e, case d of None \<Rightarrow> k_packet k | Some b \<Rightarrow> raw_buffer (k_packet k) b)) })"

definition offer_received :: "client_io \<Rightarrow> u8 \<Rightarrow> client \<Rightarrow> client option" where
  "offer_received io message k =
     (if message = DHCPOFFER then do {
        sid \<leftarrow> opt_u32 (k_packet k) DHCP_SERVER_ID;
        Some (case sid of
          None \<Rightarrow> k
        | Some a \<Rightarrow> k\<lparr>k_server_addr := a, k_xid := m_xid (k_packet k), k_requested_ip := m_yiaddr (k_packet k),
            k_state := REQUESTING, k_timeout := co_now io, k_packet_num := 0\<rparr>) }
      else Some k)"

text \<open>The lookups of the subnet mask and the router are only printed; they are kept because they read
  the message.\<close>

definition ack_received :: "client_io \<Rightarrow> client \<Rightarrow> client option" where
  "ack_received io k = do {
     lt \<leftarrow> opt_u32 (k_packet k) DHCP_LEASE_TIME;
     lease \<leftarrow> Some (case lt of None \<Rightarrow> 60 * 60 | Some v \<Rightarrow> ntohl v);
     subnet \<leftarrow> opt_u32 (k_packet k) DHCP_SUBNET;
     router \<leftarrow> opt_u32 (k_packet k) DHCP_ROUTER;
     k1 \<leftarrow> Some (k\<lparr>k_lease := Some lease, k_t1 := lease div 2, k_t2 := drop_bit 3 (lease * 7), k_start := co_now io,
       k_timeout := lease div 2 + co_now io, k_requested_ip := m_yiaddr (k_packet k)\<rparr>);
     k2 \<leftarrow> Some (run_script io (Some (k_packet k))
       (if cc_defroute (k_cfg k) then (if k_state k \<in> {RENEWING, REBINDING} then ''renew'' else ''bound'')
        else ''altbound'') k1);
     Some (change_mode LISTEN_NONE (k2\<lparr>k_state := BOUND\<rparr>)) }"

definition nak_received :: "client_io \<Rightarrow> client \<Rightarrow> client" where
  "nak_received io k =
     (let k1 = run_script io (Some (k_packet k)) ''nak'' k;
          k2 = (if k_state k \<noteq> REQUESTING then run_script io None ''deconfig'' k1 else k1) in
      change_mode LISTEN_RAW
        (k2\<lparr>k_state := INIT_SELECTING, k_timeout := co_now io, k_requested_ip := 0, k_packet_num := 0\<rparr>))"

definition client_receive :: "client_io \<Rightarrow> client \<Rightarrow> client option" where
  "client_receive io k0 = do {
     (len, p) \<leftarrow> client_rx io k0;
     let k1 = k0\<lparr>k_packet := p\<rparr>;
         k = (if len = - 1 \<and> \<not> co_eintr io then change_mode (k_listen_mode k1) k1 else k1) in
     if len < 0 \<or> m_xid p \<noteq> k_xid k then Some k
     else do {
       t \<leftarrow> get_option p DHCP_MESSAGE_TYPE;
       case t of
         None \<Rightarrow> Some k
       | Some off \<Rightarrow> do {
           message \<leftarrow> rd (msg_bytes p) off;
           if k_state k = INIT_SELECTING then offer_received io message k
           else if k_state k \<in> {RENEW_REQUESTED, REQUESTING, RENEWING, REBINDING} then
             (if message = DHCPACK then ack_received io k
              else if message = DHCPNAK then Some (nak_received io k)
              else Some k)
           else Some k } } }"

section \<open>The main loop\<close>

definition client_round :: "client_io \<Rightarrow> client \<Rightarrow> client_result option" where
  "client_round io k0 =
     (if k_listen_mode k0 \<noteq> LISTEN_NONE \<and> \<not> k_open k0 \<and> \<not> co_socket io then Some (CExit 0 k0)
      else
        let k = (if k_listen_mode k0 \<noteq> LISTEN_NONE then k0\<lparr>k_open := True\<rparr> else k0);
            retval = (if 0 < sint (k_timeout k - co_before io) then co_select io else 0) in
        if retval = 0 then client_timeout io k
        else if 0 < retval \<and> k_listen_mode k \<noteq> LISTEN_NONE \<and> co_ready io then map_option CNext (client_receive io k)
        else Some (CNext k))"

section \<open>The start of the client\<close>

text \<open>
  The options as \<^verbatim>\<open>getopt_long\<close> delivers them.  \<open>Inl\<close> is the exit after \<^verbatim>\<open>-h\<close> and \<^verbatim>\<open>-v\<close>.  With an empty client id
  \<^verbatim>\<open>strncpy\<close> gets the length -1.
\<close>

definition inet_addr :: "bytes \<Rightarrow> u32" where
  "inet_addr cp = (case inet_aton cp of None \<Rightarrow> - 1 | Some a \<Rightarrow> a)"

definition client_id_option :: "bytes \<Rightarrow> bytes option" where
  "client_id_option optarg =
     (let len = min 255 (length optarg) in
      if len = 0 then None else Some ([DHCP_CLIENT_ID, of_nat len, 0] @ take (len - 1) optarg))"

definition host_name_option :: "bytes \<Rightarrow> bytes" where
  "host_name_option optarg =
     (let len = min 255 (length optarg) in [DHCP_HOST_NAME, of_nat len] @ take len optarg)"

definition client_option :: "client \<Rightarrow> char \<times> bytes \<Rightarrow> (client + client) option" where
  "client_option k a =
     (let (c, optarg) = a; cfg = k_cfg k in
      if c = CHR ''b'' then (if length optarg < 16 then Some (Inr (k\<lparr>k_backupip := optarg, k_backup := True\<rparr>)) else None)
      else if c = CHR ''c'' then map_option (\<lambda>d. Inr (k\<lparr>k_cfg := cfg\<lparr>cc_clientid := Some d\<rparr>\<rparr>)) (client_id_option optarg)
      else if c = CHR ''f'' then Some (Inr (k\<lparr>k_cfg := cfg\<lparr>cc_foreground := True\<rparr>\<rparr>))
      else if c = CHR ''H'' then Some (Inr (k\<lparr>k_cfg := cfg\<lparr>cc_hostname := Some (host_name_option optarg)\<rparr>\<rparr>))
      else if c = CHR ''h'' then Some (Inl k)
      else if c = CHR ''i'' then Some (Inr (k\<lparr>k_cfg := cfg\<lparr>cc_interface := optarg\<rparr>\<rparr>))
      else if c = CHR ''n'' then Some (Inr (k\<lparr>k_cfg := cfg\<lparr>cc_abort_if_no_lease := True\<rparr>\<rparr>))
      else if c = CHR ''p'' then Some (Inr (k\<lparr>k_cfg := cfg\<lparr>cc_pidfile := Some optarg\<rparr>\<rparr>))
      else if c = CHR ''q'' then Some (Inr (k\<lparr>k_cfg := cfg\<lparr>cc_quit_after_lease := True\<rparr>\<rparr>))
      else if c = CHR ''r'' then Some (Inr (k\<lparr>k_requested_ip := inet_addr optarg\<rparr>))
      else if c = CHR ''s'' then Some (Inr (k\<lparr>k_cfg := cfg\<lparr>cc_script := Some optarg\<rparr>\<rparr>))
      else if c = CHR ''v'' then Some (Inl k)
      else if c = CHR ''x'' then Some (Inr (k\<lparr>k_cfg := cfg\<lparr>cc_defroute := False\<rparr>\<rparr>))
      else Some (Inr k))"

fun client_options :: "client \<Rightarrow> (char \<times> bytes) list \<Rightarrow> (client + client) option" where
  "client_options k [] = Some (Inr k)"
| "client_options k (a # as) = do {
     r \<leftarrow> client_option k a;
     case r of Inl k' \<Rightarrow> Some (Inl k') | Inr k' \<Rightarrow> client_options k' as }"

text \<open>\<^verbatim>\<open>read_interface\<close> with a NULL address pointer: only the index and the hardware address are read.\<close>

definition client_read_interface :: "ifreq_io \<Rightarrow> client_config_t \<Rightarrow> (client_config_t \<times> int) option" where
  "client_read_interface io cfg =
     (if \<not> ii_socket io then Some (cfg, - 1)
      else if 16 \<le> length (cc_interface cfg) then None
      else case ii_index io of
        None \<Rightarrow> Some (cfg, - 1)
      | Some ix \<Rightarrow>
          let cfg1 = cfg\<lparr>cc_ifindex := ix\<rparr> in
          (case ii_hwaddr io of
             None \<Rightarrow> Some (cfg1, - 1)
           | Some h \<Rightarrow> Some (cfg1\<lparr>cc_arp := take 6 h\<rparr>, 0)))"

text \<open>\<open>buf\<close> is the uninitialised message buffer of \<^verbatim>\<open>main\<close>.\<close>

definition client_init :: "dhcpMessage \<Rightarrow> client" where
  "client_init buf = \<lparr> k_cfg = default_client_config, k_state = INIT_SELECTING, k_requested_ip = 0, k_server_addr = 0,
     k_timeout = 0, k_packet_num = 0, k_open = True, k_backup = False, k_failurecnt = 0, k_backupip = cstr ''0.0.0.0'',
     k_listen_mode = LISTEN_NONE, k_t1 = 0, k_t2 = 0, k_xid = 0, k_start = 0, k_lease = None, k_packet = buf, k_out = [] \<rparr>"

definition client_start :: "client_io \<Rightarrow> ifreq_io \<Rightarrow> dhcpMessage \<Rightarrow> (char \<times> bytes) list \<Rightarrow> client_result option" where
  "client_start io ifr buf args = do {
     r \<leftarrow> client_options (client_init buf) args;
     case r of
       Inl k \<Rightarrow> Some (CExit 0 k)
     | Inr k \<Rightarrow> do {
         (cfg, ret) \<leftarrow> client_read_interface ifr (k_cfg k);
         if ret < 0 then Some (CExit 1 (k\<lparr>k_cfg := cfg\<rparr>))
         else do {
           cfg' \<leftarrow> Some (case cc_clientid cfg of
             None \<Rightarrow> cfg\<lparr>cc_clientid := Some ([DHCP_CLIENT_ID, 7, 1] @ cc_arp cfg)\<rparr>
           | Some c \<Rightarrow> cfg);
           Some (CNext (change_mode LISTEN_RAW (run_script io None ''deconfig''
             (k\<lparr>k_cfg := cfg', k_state := INIT_SELECTING\<rparr>)))) } } }"

section \<open>Facts about the messages\<close>

text \<open>
  Configurations the client can start with: a client id option, possibly a host name option, and
  together at most 260 bytes.
\<close>

definition hostname_size :: "client_config_t \<Rightarrow> nat" where
  "hostname_size cfg = (case cc_hostname cfg of None \<Rightarrow> 0 | Some h \<Rightarrow> length h)"

definition cfg_ok :: "client_config_t \<Rightarrow> bool" where
  "cfg_ok cfg \<longleftrightarrow> length (cc_arp cfg) = 6 \<and> length (cc_interface cfg) < 16 \<and>
     (case cc_clientid cfg of
        None \<Rightarrow> False
      | Some c \<Rightarrow> blob_ok c \<and> c ! 0 = DHCP_CLIENT_ID \<and> length c + hostname_size cfg \<le> 260) \<and>
     (case cc_hostname cfg of None \<Rightarrow> True | Some h \<Rightarrow> blob_ok h \<and> h ! 0 = DHCP_HOST_NAME)"

lemma requested_codes_eq: "requested_codes = [1, 3, 6, 12, 15, 28]"
  by code_simp

lemma vendor_ok: "blob_ok vendor_id" "vendor_id ! 0 = DHCP_VENDOR" "length vendor_id = 14"
  by (simp_all add: vendor_id_def blob_ok_def cstr_def)

lemma blob_item_code: "\<exists>d. blob_item b = Opt (b ! 0) d \<and> length (enc_item (Opt (b ! 0) d)) \<le> max 2 (length b)"
  by (auto simp: blob_item_def)

lemma enc_blob_item: "blob_ok b \<Longrightarrow> length (enc_item (blob_item b)) \<le> length b"
  by (auto simp: blob_ok_def blob_item_def)

lemma enc_push: "length (enc_items (push_item ts t)) \<le> length (enc_items ts) + length (enc_item t)"
  by (simp add: push_item_def)

lemma msg_items_chaddr [simp]: "length c = 16 \<Longrightarrow> msg_items p ts \<Longrightarrow> msg_items (p\<lparr>m_chaddr := c\<rparr>) ts"
  by (simp add: msg_items_def wf_msg_def)

lemma msg_items_xid [simp]: "msg_items (p\<lparr>m_xid := x\<rparr>) ts = msg_items p ts" "msg_items (p\<lparr>m_ciaddr := x\<rparr>) ts = msg_items p ts"
  by (simp_all add: msg_items_def)

text \<open>The header of a message of the client, and what its options start with.\<close>

definition from_client :: "client_config_t \<Rightarrow> dhcpMessage \<Rightarrow> bool" where
  "from_client cfg p \<longleftrightarrow> m_op p = BOOTREQUEST \<and> m_chaddr p = cc_arp cfg @ replicate 10 0 \<and> m_flags p = 0 \<and> m_giaddr p = 0 \<and>
     m_cookie p = htonl DHCP_MAGIC"

definition client_items :: "client_config_t \<Rightarrow> u8 \<Rightarrow> opt_item list \<Rightarrow> bool" where
  "client_items cfg t ts \<longleftrightarrow> (\<exists>ts'. ts = Opt DHCP_MESSAGE_TYPE [t] # ts' \<and>
     (\<forall>x\<in>set ts'. \<exists>c d. x = Opt c d \<and> c \<in> {DHCP_CLIENT_ID, DHCP_HOST_NAME, DHCP_VENDOR} \<and>
        (c = DHCP_HOST_NAME \<longrightarrow> length d + 2 \<le> hostname_size cfg) \<and> (c = DHCP_VENDOR \<longrightarrow> d = cstr ''udhcp 0.9.7'')))"

definition client_msg :: "client_config_t \<Rightarrow> u8 \<Rightarrow> opt_item list \<Rightarrow> dhcpMessage \<Rightarrow> bool" where
  "client_msg cfg t ts p \<longleftrightarrow> msg_items p ts \<and> client_items cfg t ts \<and> from_client cfg p \<and>
     drop 300 (m_options p) = replicate 8 0"

lemma client_items_push:
  "client_items cfg t ts \<Longrightarrow> c \<in> {DHCP_CLIENT_ID, DHCP_HOST_NAME, DHCP_VENDOR} \<Longrightarrow>
     (c = DHCP_HOST_NAME \<longrightarrow> length d + 2 \<le> hostname_size cfg) \<Longrightarrow> (c = DHCP_VENDOR \<longrightarrow> d = cstr ''udhcp 0.9.7'') \<Longrightarrow>
     client_items cfg t (push_item ts (Opt c d))"
  by (auto simp: client_items_def push_item_def)

text \<open>Adding an option changes nothing behind the new end marker.\<close>

lemma wr_n_tail: "wr_n m i v = Some m' \<Longrightarrow> i + length v \<le> k \<Longrightarrow> drop k m' = drop k m"
  by (auto simp: wr_n_def split: if_split_asm)

lemma wr_tail: "wr m i v = Some m' \<Longrightarrow> i < k \<Longrightarrow> drop k m' = drop k m"
  by (auto simp: wr_def split: if_split_asm)

lemma add_option_string_tail:
  assumes "add_option_string opts s = Some (opts', r)" "end_option opts = Some e" "e + length s < k"
  shows "drop k opts' = drop k opts"
proof -
  from assms obtain l where l: "rd s 1 = Some l"
    and body: "(if 308 \<le> e + unat l + 2 + 1 then Some (opts, 0)
     else do {
       d \<leftarrow> rd_n s 0 (unat l + 2);
       opts1 \<leftarrow> wr_n opts e d;
       opts2 \<leftarrow> wr opts1 (e + unat l + 2) DHCP_END;
       Some (opts2, unat l + 2) }) = Some (opts', r)"
    by (auto simp: add_option_string_def bind_Some_iff)
  show ?thesis
  proof (cases "308 \<le> e + unat l + 2 + 1")
    case True
    with body show ?thesis by simp
  next
    case False
    with body obtain d opts1 where w: "rd_n s 0 (unat l + 2) = Some d" "wr_n opts e d = Some opts1"
      "wr opts1 (e + unat l + 2) DHCP_END = Some opts'" by (auto simp: bind_Some_iff)
    then have d: "length d = unat l + 2" "unat l + 2 \<le> length s" by (auto simp: rd_n_def split: if_split_asm)
    with wr_n_tail [OF w(2), of k] wr_tail [OF w(3), of k] assms(3) show ?thesis by simp
  qed
qed

lemma msg_add_tail:
  assumes "msg_items p ts" "msg_add p b = Some p'" "length (enc_items ts) + length b \<le> 299"
  shows "drop 300 (m_options p') = drop 300 (m_options p)"
proof -
  have "end_option (m_options p) = Some (length (enc_items ts))" using assms(1) end_option_items by (simp add: msg_items_def)
  moreover from assms(2) obtain opts' r where "add_option_string (m_options p) b = Some (opts', r)" "m_options p' = opts'"
    by (auto simp: msg_add_def bind_Some_iff)
  ultimately show ?thesis using add_option_string_tail [of "m_options p" b opts' r _ 300] assms(3) by simp
qed

lemma client_msg_add:
  assumes "client_msg cfg t ts p" "blob_ok b" "b ! 0 \<in> {DHCP_CLIENT_ID, DHCP_HOST_NAME, DHCP_VENDOR}"
    and "b ! 0 = DHCP_HOST_NAME \<longrightarrow> length b \<le> hostname_size cfg" "length (enc_items ts) + length b \<le> 299"
    and "b ! 0 = DHCP_VENDOR \<longrightarrow> b = vendor_id"
  shows "\<exists>p' ts'. msg_add p b = Some p' \<and> client_msg cfg t ts' p' \<and>
    length (enc_items ts') \<le> length (enc_items ts) + length b"
proof -
  have p: "msg_items p ts" "client_items cfg t ts" "from_client cfg p" "drop 300 (m_options p) = replicate 8 0"
    using assms(1) by (simp_all add: client_msg_def)
  obtain p' where p': "msg_add p b = Some p'" "msg_items p' (push_item ts (blob_item b))"
    using dhcp_msg.add_law [OF p(1) assms(2)] by blast
  obtain x where "p' = p\<lparr>m_options := x\<rparr>" using msg_add_options_only [OF p'(1)] by blast
  then have f: "from_client cfg p'" using p(3) by (simp add: from_client_def)
  have "length (take (unat (b ! 1)) (drop 2 b)) + 2 \<le> length b" using assms(2) by (auto simp: blob_ok_def)
  moreover have "take (unat (vendor_id ! 1)) (drop 2 vendor_id) = cstr ''udhcp 0.9.7''" by (simp add: vendor_id_def cstr_def)
  ultimately have "client_items cfg t (push_item ts (blob_item b))"
    unfolding blob_item_def using assms(4,6) by (intro client_items_push p assms(3)) auto
  moreover have "length (enc_items (push_item ts (blob_item b))) \<le> length (enc_items ts) + length b"
    using enc_push [of ts "blob_item b"] enc_blob_item [OF assms(2)] by linarith
  moreover have "drop 300 (m_options p') = replicate 8 0" using msg_add_tail [OF p(1) p'(1) assms(5)] p(4) by simp
  ultimately show ?thesis using p' f unfolding client_msg_def by blast
qed

lemma init_header_tail: "init_header t = Some p \<Longrightarrow> drop 300 (m_options p) = replicate 8 0"
proof -
  assume i: "init_header t = Some p"
  let ?z = "zero_msg\<lparr> m_op := init_op t, m_htype := ETH_10MB, m_hlen := ETH_10MB_LEN,
          m_cookie := htonl DHCP_MAGIC, m_options := (replicate 308 0)[0 := DHCP_END] \<rparr>"
  have "msg_items ?z []" using fresh_options by (simp add: msg_items_def wf_msg_def zero_msg_def)
  moreover have "init_header t = msg_add ?z [DHCP_MESSAGE_TYPE, 1, t]"
    unfolding init_header_def
    by (subst msg_add_simple_eq [OF simple_option_lengths(1)]) (simp_all add: le32_def)
  ultimately show ?thesis using msg_add_tail [of ?z "[]" "[DHCP_MESSAGE_TYPE, 1, t]" p] i by simp
qed

lemma client_init_packet_items:
  assumes "cfg_ok cfg" "init_op t = BOOTREQUEST"
  shows "\<exists>p ts. client_init_packet cfg t = Some p \<and> client_msg cfg t ts p \<and> length (enc_items ts) \<le> 277"
proof -
  obtain c where c: "cc_clientid cfg = Some c" "blob_ok c" "c ! 0 = DHCP_CLIENT_ID" "length c + hostname_size cfg \<le> 260"
    using assms(1) by (auto simp: cfg_ok_def split: option.split_asm)
  have arp: "length (cc_arp cfg) = 6" using assms(1) by (simp add: cfg_ok_def)
  obtain p0 opts where p0: "init_header t = Some p0" "msg_items p0 [Opt DHCP_MESSAGE_TYPE [t]]"
    "p0 = zero_msg\<lparr> m_op := init_op t, m_htype := ETH_10MB, m_hlen := ETH_10MB_LEN,
       m_cookie := htonl DHCP_MAGIC, m_options := opts \<rparr>"
    using init_header_items by blast
  let ?ch = "cc_arp cfg @ replicate 10 0"
  let ?p = "p0\<lparr>m_chaddr := ?ch\<rparr>"
  have w: "wr_n (m_chaddr p0) 0 (take 6 (cc_arp cfg)) = Some ?ch"
    using arp p0(3) by (simp add: wr_n_def zero_msg_def)
  have "from_client cfg ?p" unfolding p0(3) using assms(2) by (simp add: from_client_def zero_msg_def)
  moreover have "msg_items ?p [Opt DHCP_MESSAGE_TYPE [t]]" using msg_items_chaddr [OF _ p0(2), of ?ch] arp by simp
  ultimately have 0: "client_msg cfg t [Opt DHCP_MESSAGE_TYPE [t]] ?p"
    using init_header_tail [OF p0(1)] by (simp add: client_msg_def client_items_def)
  obtain p1 ts1 where 1: "msg_add ?p c = Some p1" "client_msg cfg t ts1 p1" "length (enc_items ts1) \<le> 3 + length c"
    using client_msg_add [OF 0 c(2)] c(3,4) by auto
  have "\<exists>p2 ts2. (case cc_hostname cfg of None \<Rightarrow> Some p1 | Some h \<Rightarrow> msg_add p1 h) = Some p2 \<and> client_msg cfg t ts2 p2 \<and>
    length (enc_items ts2) \<le> 3 + length c + hostname_size cfg"
  proof (cases "cc_hostname cfg")
    case None
    with 1 show ?thesis by (auto simp: hostname_size_def)
  next
    case (Some h)
    then have h: "blob_ok h" "h ! 0 = DHCP_HOST_NAME" "hostname_size cfg = length h"
      using assms(1) by (simp_all add: cfg_ok_def hostname_size_def)
    have "length (enc_items ts1) + length h \<le> 299" using 1(3) c(4) h(3) by linarith
    with client_msg_add [OF 1(2) h(1)] h(2,3) obtain p2 ts2 where "msg_add p1 h = Some p2" "client_msg cfg t ts2 p2"
      "length (enc_items ts2) \<le> length (enc_items ts1) + length h" by auto
    with Some 1(3) h(3) show ?thesis by auto
  qed
  then obtain p2 ts2 where 2: "(case cc_hostname cfg of None \<Rightarrow> Some p1 | Some h \<Rightarrow> msg_add p1 h) = Some p2"
    "client_msg cfg t ts2 p2" "length (enc_items ts2) \<le> 3 + length c + hostname_size cfg"
    by blast
  then have "length (enc_items ts2) + length vendor_id \<le> 299" using c(4) vendor_ok(3) by linarith
  with client_msg_add [OF 2(2) vendor_ok(1)] vendor_ok(2) obtain p3 ts3 where
    3: "msg_add p2 vendor_id = Some p3" "client_msg cfg t ts3 p3" "length (enc_items ts3) \<le> length (enc_items ts2) + length vendor_id"
    by auto
  have "client_init_packet cfg t = Some p3"
    using p0(1) w c(1) 1(1) 2(1) 3(1) by (simp add: client_init_packet_def)
  moreover have "length (enc_items ts3) \<le> 277" using 3(3) 2(3) c(4) vendor_ok(3) by linarith
  ultimately show ?thesis using 3(2) by blast
qed

lemma add_requests_items:
  assumes "msg_items p ts" "length (enc_items ts) \<le> 291"
  shows "\<exists>x. add_requests p = Some (p\<lparr>m_options := x\<rparr>) \<and> drop 300 x = drop 300 (m_options p) \<and>
    msg_items (p\<lparr>m_options := x\<rparr>) (ts @ [Opt DHCP_PARAM_REQ requested_codes])"
proof -
  let ?E = "enc_items ts" and ?d = "requested_codes"
  have opts: "opts_are (m_options p) ts" "wf_msg p" using assms(1) by (simp_all add: msg_items_def)
  then obtain rest where rest: "m_options p = ?E @ DHCP_END # rest" "length (m_options p) = 308"
    by (auto simp: opts_are_def)
  have "8 \<le> length rest" using rest assms(2) by simp
  then obtain a b c d e f g h r where r: "rest = a # b # c # d # e # f # g # h # r"
    by (auto simp: numeral_eq_Suc Suc_le_length_iff)
  let ?out = "?E @ DHCP_PARAM_REQ # 6 # ?d @ DHCP_END # r"
  have e: "end_option (?E @ DHCP_END # a # b # c # d # e # f # g # h # r) = Some (length ?E)"
    using end_option_items [OF opts(1)] rest(1) r by simp
  have "add_requests p = Some (p\<lparr>m_options := ?out\<rparr>)"
    using rest(2) unfolding add_requests_def rest(1) r requested_codes_eq
    by (simp add: e wr_def wr_n_def list_update_append)
  moreover have "msg_items (p\<lparr>m_options := ?out\<rparr>) (ts @ [Opt DHCP_PARAM_REQ ?d])"
    using opts rest r by (auto simp: msg_items_def wf_msg_def opts_are_def requested_codes_eq)
  moreover have "drop 300 ?out = drop 300 (m_options p)"
  proof -
    have tail: "drop 300 (A @ r) = drop (300 - length A) r" if "length A \<le> 300" for A :: bytes using that by simp
    have "?out = (?E @ DHCP_PARAM_REQ # 6 # ?d @ [DHCP_END]) @ r"
      "m_options p = (?E @ [DHCP_END, a, b, c, d, e, f, g, h]) @ r" unfolding rest(1) r by simp_all
    moreover have "length (?E @ DHCP_PARAM_REQ # 6 # ?d @ [DHCP_END]) = length (?E @ [DHCP_END, a, b, c, d, e, f, g, h])"
      "length (?E @ [DHCP_END, a, b, c, d, e, f, g, h]) \<le> 300" using assms(2) by (simp_all add: requested_codes_eq)
    ultimately have "drop 300 ?out = drop (300 - length (?E @ [DHCP_END, a, b, c, d, e, f, g, h])) r"
      "drop 300 (m_options p) = drop (300 - length (?E @ [DHCP_END, a, b, c, d, e, f, g, h])) r"
      using tail by metis+
    then show ?thesis by simp
  qed
  ultimately show ?thesis by blast
qed

lemma find_item_None: "(\<And>d. Opt c d \<notin> set ts) \<Longrightarrow> find_item ts c = None"
proof (induction ts)
  case (Cons t ts)
  then have "find_item ts c = None" by simp
  with Cons.prems show ?case by (cases t) auto
qed simp

lemma find_item_mem: "find_item ts c = Some (k, d) \<Longrightarrow> Opt c d \<in> set ts"
proof (induction ts arbitrary: k)
  case (Cons t ts)
  then show ?case by (cases t) (auto split: if_split_asm)
qed simp

lemma client_items_lookup:
  assumes "client_items cfg t ts"
  shows "find_item ts DHCP_MESSAGE_TYPE = Some (2, [t])" "no_overload ts"
    "c \<notin> {DHCP_MESSAGE_TYPE, DHCP_CLIENT_ID, DHCP_HOST_NAME, DHCP_VENDOR} \<Longrightarrow> find_item ts c = None"
    "find_item ts DHCP_HOST_NAME = Some (k, d) \<Longrightarrow> length d + 2 \<le> hostname_size cfg"
    "find_item ts DHCP_VENDOR = Some (k, d) \<Longrightarrow> d = cstr ''udhcp 0.9.7''"
proof -
  obtain ts' where ts: "ts = Opt DHCP_MESSAGE_TYPE [t] # ts'"
    and ts': "\<And>c d. Opt c d \<in> set ts' \<Longrightarrow> c \<in> {DHCP_CLIENT_ID, DHCP_HOST_NAME, DHCP_VENDOR} \<and>
        (c = DHCP_HOST_NAME \<longrightarrow> length d + 2 \<le> hostname_size cfg) \<and> (c = DHCP_VENDOR \<longrightarrow> d = cstr ''udhcp 0.9.7'')"
    using assms unfolding client_items_def by fastforce
  show "find_item ts DHCP_MESSAGE_TYPE = Some (2, [t])" by (simp add: ts)
  show "no_overload ts" using ts' [of DHCP_OPTION_OVER] by (auto simp: no_overload_def ts)
  show "find_item ts c = None" if "c \<notin> {DHCP_MESSAGE_TYPE, DHCP_CLIENT_ID, DHCP_HOST_NAME, DHCP_VENDOR}"
    using that ts' by (intro find_item_None) (auto simp: ts)
  show "length d + 2 \<le> hostname_size cfg" if "find_item ts DHCP_HOST_NAME = Some (k, d)"
    using find_item_mem [OF that] ts' [of DHCP_HOST_NAME d] by (auto simp: ts)
  show "d = cstr ''udhcp 0.9.7''" if "find_item ts DHCP_VENDOR = Some (k, d)"
    using find_item_mem [OF that] ts' [of DHCP_VENDOR d] by (auto simp: ts)
qed

text \<open>What a finished message says, with the options \<open>extra\<close> after those every message has.\<close>

lemma client_message:
  assumes "msg_items p (ts @ extra)" "client_items cfg t ts"
    and "\<forall>x\<in>set extra. \<exists>c d. x = Opt c d \<and> c \<in> {DHCP_REQUESTED_IP, DHCP_SERVER_ID, DHCP_PARAM_REQ}"
  shows "option_value p DHCP_MESSAGE_TYPE = Some (Some [t])"
    "c \<in> {DHCP_REQUESTED_IP, DHCP_SERVER_ID, DHCP_LEASE_TIME} \<Longrightarrow> option_value p c = Some (map_option snd (find_item extra c))"
    "option_value p DHCP_HOST_NAME = Some (Some d) \<Longrightarrow> length d + 2 \<le> hostname_size cfg"
    "\<exists>r. option_value p DHCP_VENDOR = Some r \<and> (\<forall>d. r = Some d \<longrightarrow> d = cstr ''udhcp 0.9.7'')"
proof -
  note l = client_items_lookup [OF assms(2)]
  have ex: "find_item extra c = None" if "c \<notin> {DHCP_REQUESTED_IP, DHCP_SERVER_ID, DHCP_PARAM_REQ}" for c
    using that assms(3) by (intro find_item_None) fastforce
  have over: "no_overload (ts @ extra)" using l(2) assms(3) by (fastforce simp: no_overload_def)
  have look: "option_value p c = Some (map_option snd (find_item (ts @ extra) c))" if "c \<noteq> DHCP_PADDING" "c \<noteq> DHCP_END" for c
    using dhcp_msg.lookup_law [OF assms(1) over that] .
  show "option_value p DHCP_MESSAGE_TYPE = Some (Some [t])"
    using look [of DHCP_MESSAGE_TYPE] l(1) by (simp add: find_item_append)
  show "option_value p c = Some (map_option snd (find_item extra c))"
    if "c \<in> {DHCP_REQUESTED_IP, DHCP_SERVER_ID, DHCP_LEASE_TIME}"
  proof -
    have "find_item ts c = None" using that by (intro l(3)) auto
    with look [of c] that show ?thesis by (auto simp: find_item_append option.map_comp comp_def)
  qed
  show "length d + 2 \<le> hostname_size cfg" if "option_value p DHCP_HOST_NAME = Some (Some d)"
  proof -
    have "map_option snd (find_item (ts @ extra) DHCP_HOST_NAME) = Some d" using look [of DHCP_HOST_NAME] that by simp
    then obtain k where "find_item ts DHCP_HOST_NAME = Some (k, d)"
      using ex [of DHCP_HOST_NAME] by (auto simp: find_item_append split: option.split_asm)
    then show ?thesis by (rule l(4))
  qed
  show "\<exists>r. option_value p DHCP_VENDOR = Some r \<and> (\<forall>d. r = Some d \<longrightarrow> d = cstr ''udhcp 0.9.7'')"
    using look [of DHCP_VENDOR] ex [of DHCP_VENDOR] l(5) by (auto simp: find_item_append split: option.split)
qed

text \<open>The UDP receiver hands such a message on unchanged: the vendor is not one it works around.\<close>

lemma client_message_rx:
  assumes "wf_msg p" "from_client cfg p" "option_value p DHCP_VENDOR = Some r" "\<forall>d. r = Some d \<longrightarrow> d = cstr ''udhcp 0.9.7''"
  shows "get_packet (Some (msg_bytes p)) = Some (Got 548 p)"
proof -
  have f: "fill_msg (msg_bytes p) = msg_bytes p" "bytes_msg (msg_bytes p) = p" "ntohl (m_cookie p) = DHCP_MAGIC"
    using assms(1,2) by (simp_all add: fill_msg_def bytes_msg_bytes from_client_def)
  have n: "length (cstr ''udhcp 0.9.7'') = 11" "length broken_vendor = 7" by (simp_all add: cstr_def broken_vendor_def)
  show ?thesis
  proof (cases r)
    case None
    with assms(3) have "get_option p DHCP_VENDOR = Some None" by (auto simp: option_value_def bind_Some_iff split: option.split_asm)
    then show ?thesis using assms(1) unfolding get_packet_def option.case Let_def f by simp
  next
    case (Some d)
    then have d: "length d = 11" using assms(4) n(1) by simp
    from assms(3) Some obtain off l where o: "get_option p DHCP_VENDOR = Some (Some off)" "rd (msg_bytes p) (off - 1) = Some l"
      "rd_n (msg_bytes p) off (unat l) = Some d"
      by (auto simp: option_value_def bind_Some_iff split: option.split_asm)
    then have "unat l = 11" using d by (auto simp: rd_n_def split: if_split_asm)
    with o(1,2) n(2) assms(1) show ?thesis unfolding get_packet_def option.case Let_def f by simp
  qed
qed

lemma option_value_length: "option_value p c = Some (Some d) \<Longrightarrow> get_option_length p c = Some (length d)"
  by (auto simp: option_value_def get_option_length_def get_option_def get_option_length_loop_eq bind_Some_iff rd_n_def
      split: option.split_asm if_split_asm)

lemma option_value_none_length: "option_value p c = Some None \<Longrightarrow> get_option_length p c = Some 0"
  by (auto simp: option_value_def get_option_length_def get_option_def get_option_length_loop_eq bind_Some_iff
      split: option.split_asm)

lemma client_add_simple:
  assumes "msg_items p ts" "code = DHCP_REQUESTED_IP \<or> code = DHCP_SERVER_ID" "length (enc_items ts) \<le> 291"
  shows "\<exists>x. msg_add_simple p code v = Some (p\<lparr>m_options := x\<rparr>) \<and> drop 300 x = drop 300 (m_options p) \<and>
    msg_items (p\<lparr>m_options := x\<rparr>) (ts @ [Opt code (le32 v)])"
proof -
  have c: "simple_option_length code = Some 4" "code \<noteq> DHCP_PADDING" "code \<noteq> DHCP_END" using assms(2) simple_option_lengths by auto
  from msg_add_simple4 [OF assms(1) c, of v] obtain p' x where
    p': "msg_add_simple p code v = Some p'" "msg_items p' (push_item ts (Opt code (le32 v)))" "p' = p\<lparr>m_options := x\<rparr>" by blast
  have "push_item ts (Opt code (le32 v)) = ts @ [Opt code (le32 v)]" using assms(3) by (simp add: push_item_def)
  moreover have "msg_add p (code # of_nat 4 # take 4 (le32 v)) = Some p'" using msg_add_simple_eq [OF c(1)] p'(1) by simp
  from msg_add_tail [OF assms(1) this] assms(3) have "drop 300 (m_options p') = drop 300 (m_options p)" by simp
  ultimately show ?thesis using p' by auto
qed

text \<open>The message with which the client asks the server \<open>server\<close> for the address \<open>requested\<close>.\<close>

definition selects :: "client_config_t \<Rightarrow> u32 \<Rightarrow> u32 \<Rightarrow> u32 \<Rightarrow> dhcpMessage \<Rightarrow> bool" where
  "selects cfg xid server requested p \<longleftrightarrow> wf_msg p \<and> from_client cfg p \<and> m_xid p = xid \<and> m_ciaddr p = 0 \<and>
     option_value p DHCP_MESSAGE_TYPE = Some (Some [DHCPREQUEST]) \<and>
     option_value p DHCP_REQUESTED_IP = Some (Some (le32 requested)) \<and>
     option_value p DHCP_SERVER_ID = Some (Some (le32 server)) \<and>
     get_packet (Some (msg_bytes p)) = Some (Got 548 p) \<and> (hostname_size cfg \<le> 32 \<longrightarrow> calm_msg p)"

lemma client_init_packet_ciaddr: "client_init_packet cfg t = Some p \<Longrightarrow> m_ciaddr p = 0"
proof -
  assume "client_init_packet cfg t = Some p"
  then obtain p0 c p1 p2 ch where p: "init_header t = Some p0" "msg_add (p0\<lparr>m_chaddr := ch\<rparr>) c = Some p1"
    "(case cc_hostname cfg of None \<Rightarrow> Some p1 | Some h \<Rightarrow> msg_add p1 h) = Some p2" "msg_add p2 vendor_id = Some p"
    by (auto simp: client_init_packet_def bind_Some_iff)
  have "m_ciaddr p0 = 0" using init_header_items [of t] p(1) by (auto simp: zero_msg_def)
  with msg_add_options_only [OF p(2)] have 1: "m_ciaddr p1 = 0" by auto
  have "m_ciaddr p2 = 0"
  proof (cases "cc_hostname cfg")
    case None
    with 1 p(3) show ?thesis by simp
  next
    case (Some h)
    with p(3) have "msg_add p1 h = Some p2" by simp
    from msg_add_options_only [OF this] 1 show ?thesis by auto
  qed
  with msg_add_options_only [OF p(4)] show ?thesis by auto
qed

lemma selecting_msg_selects:
  assumes "cfg_ok cfg"
  shows "\<exists>p. selecting_msg cfg xid server requested = Some p \<and> selects cfg xid server requested p"
proof -
  have "init_op DHCPREQUEST = BOOTREQUEST" by (simp add: init_op_def)
  from client_init_packet_items [OF assms this] obtain p0 ts where
    p0: "client_init_packet cfg DHCPREQUEST = Some p0" "client_msg cfg DHCPREQUEST ts p0" "length (enc_items ts) \<le> 277" by blast
  let ?p = "p0\<lparr>m_xid := xid\<rparr>"
  have i0: "msg_items ?p ts" "client_items cfg DHCPREQUEST ts" "from_client cfg ?p" "drop 300 (m_options ?p) = replicate 8 0"
    using p0(2) by (simp_all add: client_msg_def from_client_def)
  from client_add_simple [OF i0(1), of DHCP_REQUESTED_IP requested] p0(3) obtain x1 where
    1: "msg_add_simple ?p DHCP_REQUESTED_IP requested = Some (?p\<lparr>m_options := x1\<rparr>)" "drop 300 x1 = replicate 8 0"
      "msg_items (?p\<lparr>m_options := x1\<rparr>) (ts @ [Opt DHCP_REQUESTED_IP (le32 requested)])" using i0(4) by auto
  from client_add_simple [OF 1(3), of DHCP_SERVER_ID server] p0(3) obtain x2 where
    2: "msg_add_simple (?p\<lparr>m_options := x1\<rparr>) DHCP_SERVER_ID server = Some (?p\<lparr>m_options := x2\<rparr>)" "drop 300 x2 = replicate 8 0"
      "msg_items (?p\<lparr>m_options := x2\<rparr>) (ts @ [Opt DHCP_REQUESTED_IP (le32 requested), Opt DHCP_SERVER_ID (le32 server)])"
    using 1(2) by auto
  from add_requests_items [OF 2(3)] p0(3) obtain x3 where
    3: "add_requests (?p\<lparr>m_options := x2\<rparr>) = Some (?p\<lparr>m_options := x3\<rparr>)" "drop 300 x3 = replicate 8 0"
      "msg_items (?p\<lparr>m_options := x3\<rparr>)
        (ts @ [Opt DHCP_REQUESTED_IP (le32 requested), Opt DHCP_SERVER_ID (le32 server), Opt DHCP_PARAM_REQ requested_codes])"
    using 2(2) by auto
  let ?q = "?p\<lparr>m_options := x3\<rparr>"
  note m = client_message [OF 3(3) i0(2)]
  have v: "option_value ?q DHCP_MESSAGE_TYPE = Some (Some [DHCPREQUEST])"
    "option_value ?q DHCP_REQUESTED_IP = Some (Some (le32 requested))" "option_value ?q DHCP_SERVER_ID = Some (Some (le32 server))"
    using m(1) m(2) [of DHCP_REQUESTED_IP] m(2) [of DHCP_SERVER_ID] by simp_all
  have wf: "wf_msg ?q" using 3(3) by (simp add: msg_items_def)
  have "calm_msg ?q" if "hostname_size cfg \<le> 32"
  proof -
    obtain r where r: "option_value ?q DHCP_HOST_NAME = Some r"
      using dhcp_msg.lookup_law [OF 3(3), of DHCP_HOST_NAME] client_items_lookup(2) [OF i0(2)] by (auto simp: no_overload_def)
    have "n \<le> 30" if "get_option_length ?q DHCP_HOST_NAME = Some n" for n
    proof (cases r)
      case None
      with r that option_value_none_length show ?thesis by fastforce
    next
      case (Some d)
      with r that option_value_length [of ?q DHCP_HOST_NAME d] have "n = length d" by simp
      with m(3) [of d] r Some \<open>hostname_size cfg \<le> 32\<close> show ?thesis by simp
    qed
    then show ?thesis using wf 3(2) by (simp add: calm_msg_def)
  qed
  moreover have "selecting_msg cfg xid server requested = Some ?q" using p0(1) 1(1) 2(1) 3(1) by (simp add: selecting_msg_def)
  moreover have "m_ciaddr ?q = 0" using client_init_packet_ciaddr [OF p0(1)] by simp
  moreover have "from_client cfg ?q" using i0(3) by (simp add: from_client_def)
  moreover have "get_packet (Some (msg_bytes ?q)) = Some (Got 548 ?q)"
    using m(4) client_message_rx [OF wf \<open>from_client cfg ?q\<close>] by auto
  ultimately show ?thesis using v wf by (intro exI [of _ ?q]) (simp add: selects_def)
qed

lemma discover_msg_returns: "cfg_ok cfg \<Longrightarrow> \<exists>p. discover_msg cfg xid requested = Some p \<and> wf_msg p"
proof -
  assume ok: "cfg_ok cfg"
  have "init_op DHCPDISCOVER = BOOTREQUEST" by (simp add: init_op_def)
  from client_init_packet_items [OF ok this] obtain p0 ts where
    p0: "client_init_packet cfg DHCPDISCOVER = Some p0" "client_msg cfg DHCPDISCOVER ts p0" "length (enc_items ts) \<le> 277" by blast
  let ?p = "p0\<lparr>m_xid := xid\<rparr>"
  have i0: "msg_items ?p ts" using p0(2) by (simp add: client_msg_def)
  have "\<exists>p2 ts2. (if requested \<noteq> 0 then msg_add_simple ?p DHCP_REQUESTED_IP requested else Some ?p) = Some p2 \<and>
    msg_items p2 ts2 \<and> length (enc_items ts2) \<le> 291"
    using i0 p0(3) client_add_simple [OF i0, of DHCP_REQUESTED_IP requested] by fastforce
  then obtain p2 ts2 where 2: "(if requested \<noteq> 0 then msg_add_simple ?p DHCP_REQUESTED_IP requested else Some ?p) = Some p2"
    "msg_items p2 ts2" "length (enc_items ts2) \<le> 291" by blast
  from add_requests_items [OF 2(2,3)] obtain q where "add_requests p2 = Some q" "wf_msg q" by (auto simp: msg_items_def)
  with p0(1) 2(1) show ?thesis by (simp add: discover_msg_def)
qed

lemma renew_msg_returns: "cfg_ok cfg \<Longrightarrow> \<exists>p. renew_msg cfg xid ciaddr = Some p \<and> wf_msg p"
proof -
  assume ok: "cfg_ok cfg"
  have "init_op DHCPREQUEST = BOOTREQUEST" by (simp add: init_op_def)
  from client_init_packet_items [OF ok this] obtain p0 ts where
    p0: "client_init_packet cfg DHCPREQUEST = Some p0" "client_msg cfg DHCPREQUEST ts p0" "length (enc_items ts) \<le> 277" by blast
  have i0: "msg_items (p0\<lparr>m_xid := xid, m_ciaddr := ciaddr\<rparr>) ts" using p0(2) by (simp add: client_msg_def)
  from add_requests_items [OF i0] p0(3) obtain q where "add_requests (p0\<lparr>m_xid := xid, m_ciaddr := ciaddr\<rparr>) = Some q" "wf_msg q"
    by (auto simp: msg_items_def)
  with p0(1) show ?thesis by (simp add: renew_msg_def)
qed

lemma raw_packet_returns: "\<exists>r. raw_packet io p src sp dst dp MAC_BCAST_ADDR ix = Some r"
  by (simp add: raw_packet_def rd_n_def MAC_BCAST_ADDR_def)

lemma client_sends_return:
  assumes "cfg_ok cfg"
  shows "\<exists>r. send_discover io cfg xid y = Some r" "\<exists>r. send_selecting io cfg xid s y = Some r" "\<exists>r. send_renew io cfg xid s y = Some r"
  using discover_msg_returns [OF assms, of xid y] selecting_msg_selects [OF assms, of xid s y] renew_msg_returns [OF assms, of xid y]
    raw_packet_returns
  by (auto simp: send_discover_def send_selecting_def send_renew_def)

section \<open>The invariant of the client\<close>

text \<open>The listen mode each state belongs to.\<close>

primrec mode_of :: "client_state \<Rightarrow> listen" where
  "mode_of INIT_SELECTING = LISTEN_RAW"
| "mode_of REQUESTING = LISTEN_RAW"
| "mode_of BOUND = LISTEN_NONE"
| "mode_of RENEWING = LISTEN_KERNEL"
| "mode_of REBINDING = LISTEN_KERNEL"
| "mode_of INIT_REBOOT = LISTEN_NONE"
| "mode_of RENEW_REQUESTED = LISTEN_KERNEL"
| "mode_of RELEASED = LISTEN_NONE"

definition client_ok :: "client \<Rightarrow> bool" where
  "client_ok k \<longleftrightarrow> cfg_ok (k_cfg k) \<and> length (k_backupip k) < 16 \<and> wf_msg (k_packet k) \<and> k_state k \<noteq> INIT_REBOOT \<and>
     k_listen_mode k = mode_of (k_state k) \<and> (k_state k \<in> {BOUND, RENEWING, REBINDING} \<longrightarrow> k_lease k \<noteq> None)"

lemma effect_simps [simp]:
  "k_cfg (effect es k) = k_cfg k" "k_state (effect es k) = k_state k" "k_backupip (effect es k) = k_backupip k"
  "k_packet (effect es k) = k_packet k" "k_listen_mode (effect es k) = k_listen_mode k" "k_lease (effect es k) = k_lease k"
  "k_t1 (effect es k) = k_t1 k" "k_t2 (effect es k) = k_t2 k" "k_start (effect es k) = k_start k" "k_timeout (effect es k) = k_timeout k"
  "k_requested_ip (effect es k) = k_requested_ip k" "k_xid (effect es k) = k_xid k" "k_out (effect es k) = k_out k @ es"
  by (simp_all add: effect_def)

lemma run_script_simps [simp]:
  "k_cfg (run_script io p n k) = k_cfg k" "k_state (run_script io p n k) = k_state k" "k_backupip (run_script io p n k) = k_backupip k"
  "k_packet (run_script io p n k) = k_packet k" "k_listen_mode (run_script io p n k) = k_listen_mode k"
  "k_lease (run_script io p n k) = k_lease k" "k_t1 (run_script io p n k) = k_t1 k" "k_t2 (run_script io p n k) = k_t2 k"
  "k_start (run_script io p n k) = k_start k" "k_timeout (run_script io p n k) = k_timeout k"
  "k_requested_ip (run_script io p n k) = k_requested_ip k" "k_xid (run_script io p n k) = k_xid k"
  by (simp_all add: run_script_def split: option.split)

lemma change_mode_simps [simp]:
  "k_cfg (change_mode m k) = k_cfg k" "k_state (change_mode m k) = k_state k" "k_backupip (change_mode m k) = k_backupip k"
  "k_packet (change_mode m k) = k_packet k" "k_listen_mode (change_mode m k) = m" "k_lease (change_mode m k) = k_lease k"
  "k_t1 (change_mode m k) = k_t1 k" "k_t2 (change_mode m k) = k_t2 k" "k_start (change_mode m k) = k_start k"
  "k_timeout (change_mode m k) = k_timeout k" "k_requested_ip (change_mode m k) = k_requested_ip k" "k_xid (change_mode m k) = k_xid k"
  "k_out (change_mode m k) = k_out k"
  by (simp_all add: change_mode_def)

subsection \<open>Timeouts\<close>

lemma timeout_selecting_ok:
  assumes "client_ok k" "k_state k = INIT_SELECTING"
  shows "\<exists>r. timeout_selecting io k = Some r \<and> (\<forall>k'. r = CNext k' \<longrightarrow> client_ok k' \<and> k_state k' = INIT_SELECTING)"
proof -
  have ok: "cfg_ok (k_cfg k)" "length (cc_interface (k_cfg k)) < 16" "length (k_backupip k) < 16"
    using assms(1) by (simp_all add: client_ok_def cfg_ok_def)
  obtain rt where "send_discover (co_tx io) (k_cfg k) (if k_packet_num k = 0 then co_rand io else k_xid k) (k_requested_ip k) = Some rt"
    using client_sends_return(1) [OF ok(1)] by blast
  then show ?thesis
    using assms ok by (cases rt) (auto simp: timeout_selecting_def client_ok_def fits_def cstr_def split: if_split_asm)
qed

lemma timeout_requesting_ok:
  assumes "client_ok k" "k_state k = REQUESTING \<or> k_state k = RENEW_REQUESTED"
  shows "\<exists>k'. timeout_requesting io k = Some (CNext k') \<and> client_ok k' \<and> k_state k' \<in> {k_state k, INIT_SELECTING}"
proof -
  have ok: "cfg_ok (k_cfg k)" using assms(1) by (simp add: client_ok_def)
  obtain a b where "send_renew (co_tx io) (k_cfg k) (k_xid k) (k_server_addr k) (k_requested_ip k) = Some a"
    "send_selecting (co_tx io) (k_cfg k) (k_xid k) (k_server_addr k) (k_requested_ip k) = Some b"
    using client_sends_return [OF ok] by blast
  then show ?thesis
    using assms by (cases a; cases b) (auto simp: timeout_requesting_def client_ok_def)
qed

text \<open>The wait is halved until it is short; \<open>unat d \<le> 2 ^ j\<close> bounds how often.\<close>

lemma long_wait: "\<not> d \<le> (lease :: u32) div 14400 + 1 \<Longrightarrow> 1 < unat d"
proof -
  assume a: "\<not> d \<le> lease div 14400 + 1"
  have "unat (lease div 14400) < 2 ^ 32 - 1" using unat_u32_less [of lease] by (simp add: unat_div)
  then have "unat (lease div 14400 + 1) = unat (lease div 14400) + 1" by (simp add: unat_word_ariths)
  then show ?thesis using a by (simp add: word_le_nat_alt)
qed

lemma halves:
  assumes "unat (d :: u32) \<le> 2 ^ Suc j"
  shows "unat (d - d div 2) \<le> 2 ^ j"
proof -
  have "d div 2 \<le> d" by (simp add: word_le_nat_alt unat_div)
  then have "unat (d - d div 2) = unat d - unat d div 2" by (simp add: unat_sub unat_div)
  then show ?thesis using assms by simp
qed

lemma timeout_renewing_step:
  assumes "client_ok k" "k_state k = RENEWING" "k_lease k = Some lease"
  shows "\<exists>k'. timeout_renewing io k = Some (CNext k') \<and> client_ok k' \<and> k_cfg k' = k_cfg k \<and> k_lease k' = k_lease k \<and> k_t2 k' = k_t2 k \<and>
    (if k_t2 k - k_t1 k \<le> lease div 14400 + 1 then k_state k' = REBINDING
     else k_state k' = RENEWING \<and> k_t2 k' - k_t1 k' = (k_t2 k - k_t1 k) - (k_t2 k - k_t1 k) div 2)"
proof -
  have ok: "cfg_ok (k_cfg k)" using assms(1) by (simp add: client_ok_def)
  obtain a where a: "send_renew (co_tx io) (k_cfg k) (k_xid k) (k_server_addr k) (k_requested_ip k) = Some a"
    using client_sends_return [OF ok] by blast
  have "k_t2 k - ((k_t2 k - k_t1 k) div 2 + k_t1 k) = (k_t2 k - k_t1 k) - (k_t2 k - k_t1 k) div 2" by (simp add: algebra_simps)
  with a assms show ?thesis by (cases a) (auto simp: timeout_renewing_def client_ok_def)
qed

lemma timeout_renewing_ok:
  assumes "client_ok k" "k_state k = RENEWING"
  shows "\<exists>k'. timeout_renewing io k = Some (CNext k') \<and> client_ok k' \<and> (k_state k' = REBINDING \<or> k_state k' = RENEWING)"
proof -
  obtain lease where "k_lease k = Some lease" using assms by (auto simp: client_ok_def)
  from timeout_renewing_step [OF assms this, of io] show ?thesis by (auto split: if_split_asm)
qed

lemma timeout_rebinding_ok:
  assumes "client_ok k" "k_state k = REBINDING" "k_lease k = Some lease"
  shows "\<exists>k'. timeout_rebinding io k = Some (CNext k') \<and> client_ok k' \<and> k_cfg k' = k_cfg k \<and> k_lease k' = k_lease k \<and>
    (if lease - k_t2 k \<le> lease div 14400 + 1 then k_state k' = INIT_SELECTING \<and> k_out k' = k_out (run_script io None ''deconfig'' k)
     else k_state k' = REBINDING \<and> lease - k_t2 k' = (lease - k_t2 k) - (lease - k_t2 k) div 2)"
proof -
  have ok: "cfg_ok (k_cfg k)" using assms(1) by (simp add: client_ok_def)
  obtain a where a: "send_renew (co_tx io) (k_cfg k) (k_xid k) 0 (k_requested_ip k) = Some a"
    using client_sends_return [OF ok] by blast
  have "lease - ((lease - k_t2 k) div 2 + k_t2 k) = (lease - k_t2 k) - (lease - k_t2 k) div 2" by (simp add: algebra_simps)
  moreover have "k_out (run_script io None ''deconfig'' (k\<lparr>k_state := s\<rparr>)) = k_out (run_script io None ''deconfig'' k)" for s
    by (simp add: run_script_def effect_def split: option.split)
  ultimately show ?thesis using a assms by (cases a) (auto simp: timeout_rebinding_def client_ok_def)
qed

lemma client_timeout_ok:
  assumes "client_ok k"
  shows "\<exists>r. client_timeout io k = Some r \<and> (\<forall>k'. r = CNext k' \<longrightarrow> client_ok k')"
proof (cases "k_state k")
  case INIT_SELECTING
  with timeout_selecting_ok [OF assms, of io] show ?thesis by (auto simp: client_timeout_def)
next
  case REQUESTING
  with timeout_requesting_ok [OF assms, of io] show ?thesis by (auto simp: client_timeout_def)
next
  case RENEW_REQUESTED
  with timeout_requesting_ok [OF assms, of io] show ?thesis by (auto simp: client_timeout_def)
next
  case BOUND
  let ?k = "change_mode LISTEN_KERNEL (k\<lparr>k_state := RENEWING\<rparr>)"
  have "client_ok ?k" using assms BOUND by (simp add: client_ok_def)
  with timeout_renewing_ok [of ?k io] BOUND show ?thesis by (auto simp: client_timeout_def)
next
  case RENEWING
  with timeout_renewing_ok [OF assms, of io] show ?thesis by (auto simp: client_timeout_def)
next
  case REBINDING
  with assms obtain lease where "k_lease k = Some lease" by (auto simp: client_ok_def)
  with REBINDING timeout_rebinding_ok [OF assms, of lease io] show ?thesis by (auto simp: client_timeout_def)
next
  case RELEASED
  with assms show ?thesis by (simp add: client_timeout_def client_ok_def)
next
  case INIT_REBOOT
  with assms show ?thesis by (simp add: client_ok_def)
qed

subsection \<open>A lease that is not renewed is given up\<close>

text \<open>A run of timeouts: the states that the client is in after each of them, and the client at the end.\<close>

fun timeouts :: "client_io list \<Rightarrow> client \<Rightarrow> (client_state list \<times> client) option" where
  "timeouts [] k = Some ([], k)"
| "timeouts (io # ios) k = do {
     r \<leftarrow> client_timeout io k;
     case r of
       CExit e k' \<Rightarrow> None
     | CNext k' \<Rightarrow> do { (sts, k'') \<leftarrow> timeouts ios k'; Some (k_state k' # sts, k'') } }"

text \<open>The client goes through the states \<open>sts\<close> and then has had its script deconfigure the interface.\<close>

definition given_up :: "(nat \<Rightarrow> client_io) \<Rightarrow> client \<Rightarrow> client_state list \<Rightarrow> bool" where
  "given_up ios k sts \<longleftrightarrow> (\<exists>k'. timeouts (map ios [0..<length sts]) k = Some (sts, k') \<and> client_ok k' \<and>
     (cc_script (k_cfg k) \<noteq> None \<longrightarrow> (\<exists>e. last (k_out k') = Script (cstr ''deconfig'') e)))"

lemma given_up_step:
  assumes "client_timeout (ios 0) k = Some (CNext k1)" "given_up (\<lambda>i. ios (Suc i)) k1 sts" "k_cfg k1 = k_cfg k"
  shows "given_up ios k (k_state k1 # sts)"
proof -
  from assms(2) obtain k' where k': "timeouts (map (\<lambda>i. ios (Suc i)) [0..<length sts]) k1 = Some (sts, k')" "client_ok k'"
    "cc_script (k_cfg k1) \<noteq> None \<longrightarrow> (\<exists>e. last (k_out k') = Script (cstr ''deconfig'') e)" by (auto simp: given_up_def)
  have "timeouts (map ios [0..<Suc (length sts)]) k = Some (k_state k1 # sts, k')" unfolding map_upt_Suc using assms(1) k'(1) by simp
  with k'(2,3) assms(3) show ?thesis unfolding given_up_def by auto
qed

lemma rebinding_gives_up:
  assumes "client_ok k" "k_state k = REBINDING" "k_lease k = Some lease" "unat (lease - k_t2 k) \<le> 2 ^ j"
  shows "\<exists>b\<le>j. given_up ios k (replicate b REBINDING @ [INIT_SELECTING]) \<and> (b = 0 \<longleftrightarrow> lease - k_t2 k \<le> lease div 14400 + 1)"
  using assms
proof (induction j arbitrary: k ios)
  case (0 k ios)
  then have short: "lease - k_t2 k \<le> lease div 14400 + 1" using long_wait [of "lease - k_t2 k" lease] by fastforce
  with timeout_rebinding_ok [OF 0(1-3), of "ios 0"] obtain k1 where k1: "timeout_rebinding (ios 0) k = Some (CNext k1)" "client_ok k1"
    "k_state k1 = INIT_SELECTING" "k_out k1 = k_out (run_script (ios 0) None ''deconfig'' k)" by auto
  have "client_timeout (ios 0) k = Some (CNext k1)" using k1(1) 0(2) by (simp add: client_timeout_def)
  then have "given_up ios k [INIT_SELECTING]" using k1(2-4) by (auto simp: given_up_def run_script_def)
  with short show ?case by auto
next
  case (Suc j k ios)
  from timeout_rebinding_ok [OF Suc.prems(1-3), of "ios 0"] obtain k1 where k1: "timeout_rebinding (ios 0) k = Some (CNext k1)" "client_ok k1"
    "k_cfg k1 = k_cfg k" "k_lease k1 = Some lease"
    "if lease - k_t2 k \<le> lease div 14400 + 1 then k_state k1 = INIT_SELECTING \<and> k_out k1 = k_out (run_script (ios 0) None ''deconfig'' k)
     else k_state k1 = REBINDING \<and> lease - k_t2 k1 = (lease - k_t2 k) - (lease - k_t2 k) div 2" using Suc.prems(3) by auto
  have step: "client_timeout (ios 0) k = Some (CNext k1)" using k1(1) Suc.prems(2) by (simp add: client_timeout_def)
  show ?case
  proof (cases "lease - k_t2 k \<le> lease div 14400 + 1")
    case True
    then have "given_up ios k [INIT_SELECTING]" using k1(2,5) step by (auto simp: given_up_def run_script_def)
    with True show ?thesis by (intro exI [of _ 0]) simp
  next
    case False
    with k1(5) have st: "k_state k1 = REBINDING" "lease - k_t2 k1 = (lease - k_t2 k) - (lease - k_t2 k) div 2" by simp_all
    from Suc.IH [OF k1(2) st(1) k1(4), of "\<lambda>i. ios (Suc i)"] halves [OF Suc.prems(4)] st(2)
    obtain b where b: "b \<le> j" "given_up (\<lambda>i. ios (Suc i)) k1 (replicate b REBINDING @ [INIT_SELECTING])" by auto
    from given_up_step [OF step b(2) k1(3)] st(1) b(1) False show ?thesis by (intro exI [of _ "Suc b"]) simp
  qed
qed

text \<open>A word has 32 bits, so that 32 halvings are enough in each phase.\<close>

lemma unat_le_power: "unat (d :: u32) \<le> 2 ^ 32"
  using unat_u32_less [of d] by simp

definition lease_phases :: "(nat \<Rightarrow> client_io) \<Rightarrow> client \<Rightarrow> u32 \<Rightarrow> nat \<Rightarrow> bool" where
  "lease_phases ios k lease j \<longleftrightarrow> (\<exists>a b. a \<le> j \<and> 1 \<le> b \<and> b \<le> 33 \<and>
     given_up ios k (replicate a RENEWING @ replicate b REBINDING @ [INIT_SELECTING]) \<and>
     (a = 0 \<longleftrightarrow> k_t2 k - k_t1 k \<le> lease div 14400 + 1) \<and> (b = 1 \<longleftrightarrow> lease - k_t2 k \<le> lease div 14400 + 1))"

lemma renewing_ends:
  assumes "client_ok k" "k_state k = RENEWING" "k_lease k = Some lease" "k_t2 k - k_t1 k \<le> lease div 14400 + 1"
  shows "lease_phases ios k lease j"
proof -
  from timeout_renewing_step [OF assms(1-3), of "ios 0"] assms(3,4) obtain k1 where k1: "timeout_renewing (ios 0) k = Some (CNext k1)"
    "client_ok k1" "k_cfg k1 = k_cfg k" "k_lease k1 = Some lease" "k_t2 k1 = k_t2 k" "k_state k1 = REBINDING" by auto
  have step: "client_timeout (ios 0) k = Some (CNext k1)" using k1(1) assms(2) by (simp add: client_timeout_def)
  from rebinding_gives_up [OF k1(2,6,4) unat_le_power, of "\<lambda>i. ios (Suc i)"] obtain b where b: "b \<le> 32"
    "given_up (\<lambda>i. ios (Suc i)) k1 (replicate b REBINDING @ [INIT_SELECTING])" "b = 0 \<longleftrightarrow> lease - k_t2 k \<le> lease div 14400 + 1"
    using k1(5) by auto
  from given_up_step [OF step b(2) k1(3)] k1(6) b(1,3) assms(4) show ?thesis
    unfolding lease_phases_def by (intro exI [of _ 0] exI [of _ "Suc b"]) simp
qed

lemma renewing_gives_up:
  assumes "client_ok k" "k_state k = RENEWING" "k_lease k = Some lease" "unat (k_t2 k - k_t1 k) \<le> 2 ^ j"
  shows "lease_phases ios k lease j"
  using assms
proof (induction j arbitrary: k ios)
  case (0 k ios)
  then have "k_t2 k - k_t1 k \<le> lease div 14400 + 1" using long_wait [of "k_t2 k - k_t1 k" lease] by fastforce
  with 0 show ?case by (intro renewing_ends) simp_all
next
  case (Suc j k ios)
  show ?case
  proof (cases "k_t2 k - k_t1 k \<le> lease div 14400 + 1")
    case True
    with Suc.prems show ?thesis by (intro renewing_ends)
  next
    case False
    with timeout_renewing_step [OF Suc.prems(1-3), of "ios 0"] Suc.prems(3) obtain k1 where k1: "timeout_renewing (ios 0) k = Some (CNext k1)"
      "client_ok k1" "k_cfg k1 = k_cfg k" "k_lease k1 = Some lease" "k_t2 k1 = k_t2 k" "k_state k1 = RENEWING"
      "k_t2 k1 - k_t1 k1 = (k_t2 k - k_t1 k) - (k_t2 k - k_t1 k) div 2" by auto
    have step: "client_timeout (ios 0) k = Some (CNext k1)" using k1(1) Suc.prems(2) by (simp add: client_timeout_def)
    have "unat (k_t2 k1 - k_t1 k1) \<le> 2 ^ j" unfolding k1(7) by (rule halves [OF Suc.prems(4)])
    from Suc.IH [OF k1(2,6,4) this, of "\<lambda>i. ios (Suc i)"] k1(5) obtain a b where ab: "a \<le> j" "1 \<le> b" "b \<le> 33"
      "given_up (\<lambda>i. ios (Suc i)) k1 (replicate a RENEWING @ replicate b REBINDING @ [INIT_SELECTING])"
      "b = 1 \<longleftrightarrow> lease - k_t2 k \<le> lease div 14400 + 1" by (auto simp: lease_phases_def)
    from given_up_step [OF step ab(4) k1(3)] k1(6) ab(1-3,5) False show ?thesis
      unfolding lease_phases_def by (intro exI [of _ "Suc a"] exI [of _ b]) simp
  qed
qed

lemma lease_given_up:
  assumes "client_ok k" "k_state k \<in> {BOUND, RENEWING}" "k_lease k = Some lease"
  shows "lease_phases ios k lease 32"
proof (cases "k_state k = RENEWING")
  case True
  from renewing_gives_up [OF assms(1) True assms(3) unat_le_power] show ?thesis .
next
  case False
  with assms(2) have bound: "k_state k = BOUND" by simp
  let ?k = "change_mode LISTEN_KERNEL (k\<lparr>k_state := RENEWING\<rparr>)"
  have "client_ok ?k" using assms bound by (simp add: client_ok_def)
  from renewing_gives_up [OF this _ _ unat_le_power, of lease ios] assms(3) have "lease_phases ios ?k lease 32" by simp
  moreover have "timeouts (map ios [0..<Suc n]) ?k = timeouts (map ios [0..<Suc n]) k" for n
    unfolding map_upt_Suc by (simp add: client_timeout_def bound)
  then have "given_up ios ?k (sts @ [INIT_SELECTING]) = given_up ios k (sts @ [INIT_SELECTING])" for sts by (simp add: given_up_def)
  from this [of "replicate a RENEWING @ replicate b REBINDING" for a b]
  have "given_up ios ?k (replicate a RENEWING @ replicate b REBINDING @ [INIT_SELECTING]) =
      given_up ios k (replicate a RENEWING @ replicate b REBINDING @ [INIT_SELECTING])" for a b by simp
  ultimately show ?thesis unfolding lease_phases_def by simp
qed

subsection \<open>Receiving\<close>

lemma raw_payload_length: "raw_payload inp = Some (Some d) \<Longrightarrow> length d \<le> 548"
proof -
  assume a: "raw_payload inp = Some (Some d)"
  then obtain data where inp: "inp = Some data" by (cases inp) (auto simp: raw_payload_def)
  define b where "b = take udp_packet_size data @ replicate (udp_packet_size - length data) 0"
  define n where "n = unat (ntohs (ip_tot_len (bytes_ip b)))"
  have "\<not> udp_packet_size < n \<and> d = take (n - 28) (drop 28 b)"
    using a unfolding inp raw_payload_def option.case Let_def b_def [symmetric] n_def [symmetric]
    by (simp split: if_split_asm)
  then show ?thesis by auto
qed

lemma raw_buffer_wf: "length d \<le> 548 \<Longrightarrow> wf_msg old \<Longrightarrow> wf_msg (raw_buffer old d)"
  unfolding raw_buffer_def by (rule wf_bytes_msg) simp

lemma get_raw_packet_wf: "get_raw_packet old inp = Some (Got n p) \<Longrightarrow> wf_msg old \<Longrightarrow> wf_msg p"
  using raw_payload_length [of inp] raw_buffer_wf
  by (auto simp: get_raw_packet_def bind_Some_iff Let_def split: option.split_asm if_split_asm)

lemma client_rx_wf:
  assumes "client_rx io k = Some (n, p)" "wf_msg (k_packet k)"
  shows "wf_msg p"
proof (cases "k_listen_mode k = LISTEN_KERNEL")
  case True
  have "wf_msg (bytes_msg (fill_msg data))" for data by (rule wf_bytes_msg) (simp add: fill_msg_def)
  moreover from assms(1) True obtain r where "get_packet (co_read io) = Some r"
    "(case r of Got n p \<Rightarrow> (int n, p)
      | RxError e \<Rightarrow> (e, case co_read io of None \<Rightarrow> zero_msg | Some data \<Rightarrow> bytes_msg (fill_msg data))) = (n, p)"
    by (auto simp: client_rx_def bind_Some_iff)
  ultimately show ?thesis using get_packet_wf [of "co_read io"] by (cases r) (auto split: option.split_asm)
next
  case False
  with assms(1) obtain r d where "get_raw_packet (k_packet k) (co_read io) = Some r" "raw_payload (co_read io) = Some d"
    "(case r of Got n p \<Rightarrow> (int n, p)
      | RxError e \<Rightarrow> (e, case d of None \<Rightarrow> k_packet k | Some b \<Rightarrow> raw_buffer (k_packet k) b)) = (n, p)"
    by (auto simp: client_rx_def bind_Some_iff)
  then show ?thesis
    using assms(2) get_raw_packet_wf [of "k_packet k" "co_read io"] raw_payload_length [of "co_read io"] raw_buffer_wf
    by (cases r) (auto split: option.split_asm)
qed

text \<open>The message that makes a client bound, and the state it gets.\<close>

definition ack_for :: "client_io \<Rightarrow> client \<Rightarrow> client \<Rightarrow> bool" where
  "ack_for io k k' \<longleftrightarrow> k_state k \<in> {REQUESTING, RENEW_REQUESTED, RENEWING, REBINDING} \<and>
     (\<exists>n p off lt lease. client_rx io k = Some (n, p) \<and> 0 \<le> n \<and> m_xid p = k_xid k \<and>
        get_option p DHCP_MESSAGE_TYPE = Some (Some off) \<and> rd (msg_bytes p) off = Some DHCPACK \<and>
        opt_u32 p DHCP_LEASE_TIME = Some lt \<and> lease = (case lt of None \<Rightarrow> 3600 | Some v \<Rightarrow> ntohl v) \<and>
        k_lease k' = Some lease \<and> k_requested_ip k' = m_yiaddr p \<and> k_t1 k' = lease div 2 \<and> k_t2 k' = drop_bit 3 (lease * 7) \<and>
        k_start k' = co_now io \<and> k_timeout k' = lease div 2 + co_now io)"

lemma client_receive_cases:
  assumes "client_receive io k = Some k'"
  obtains (same) p where "k' = k\<lparr>k_packet := p\<rparr> \<or> k' = change_mode (k_listen_mode k) (k\<lparr>k_packet := p\<rparr>)"
      "\<exists>n. client_rx io k = Some (n, p)"
  | (offer) n p off where "client_rx io k = Some (n, p)" "k_state k = INIT_SELECTING"
      "offer_received io DHCPOFFER (k\<lparr>k_packet := p\<rparr>) = Some k'" "m_xid p = k_xid k"
      "get_option p DHCP_MESSAGE_TYPE = Some (Some off)" "rd (msg_bytes p) off = Some DHCPOFFER"
  | (ack) n p off where "client_rx io k = Some (n, p)" "k_state k \<in> {REQUESTING, RENEW_REQUESTED, RENEWING, REBINDING}"
      "0 \<le> n" "ack_received io (k\<lparr>k_packet := p\<rparr>) = Some k'" "m_xid p = k_xid k"
      "get_option p DHCP_MESSAGE_TYPE = Some (Some off)" "rd (msg_bytes p) off = Some DHCPACK"
  | (nak) n p where "client_rx io k = Some (n, p)" "k_state k \<in> {REQUESTING, RENEW_REQUESTED, RENEWING, REBINDING}"
      "k' = nak_received io (k\<lparr>k_packet := p\<rparr>)" "m_xid p = k_xid k"
proof -
  from assms obtain n p where rx: "client_rx io k = Some (n, p)" by (auto simp: client_receive_def bind_Some_iff)
  define k1 where "k1 = (if n = - 1 \<and> \<not> co_eintr io then change_mode (k_listen_mode (k\<lparr>k_packet := p\<rparr>)) (k\<lparr>k_packet := p\<rparr>) else k\<lparr>k_packet := p\<rparr>)"
  have body: "(if n < 0 \<or> m_xid p \<noteq> k_xid k1 then Some k1
     else do {
       t \<leftarrow> get_option p DHCP_MESSAGE_TYPE;
       case t of
         None \<Rightarrow> Some k1
       | Some off \<Rightarrow> do {
           message \<leftarrow> rd (msg_bytes p) off;
           if k_state k1 = INIT_SELECTING then offer_received io message k1
           else if k_state k1 \<in> {RENEW_REQUESTED, REQUESTING, RENEWING, REBINDING} then
             (if message = DHCPACK then ack_received io k1
              else if message = DHCPNAK then Some (nak_received io k1)
              else Some k1)
           else Some k1 } }) = Some k'"
    using assms rx unfolding client_receive_def k1_def by (simp add: Let_def)
  have k1: "k1 = k\<lparr>k_packet := p\<rparr> \<or> k1 = change_mode (k_listen_mode k) (k\<lparr>k_packet := p\<rparr>)" by (simp add: k1_def)
  show thesis
  proof (cases "k' = k1")
    case True
    with k1 rx same [of p] show ?thesis by blast
  next
    case False
    with body obtain off message where n: "0 \<le> n" "m_xid p = k_xid k1" "get_option p DHCP_MESSAGE_TYPE = Some (Some off)"
      "rd (msg_bytes p) off = Some message"
      and b: "(if k_state k1 = INIT_SELECTING then offer_received io message k1
           else if k_state k1 \<in> {RENEW_REQUESTED, REQUESTING, RENEWING, REBINDING} then
             (if message = DHCPACK then ack_received io k1
              else if message = DHCPNAK then Some (nak_received io k1)
              else Some k1)
           else Some k1) = Some k'"
      by (auto simp: bind_Some_iff not_less split: if_split_asm option.split_asm)
    have e: "k1 = k\<lparr>k_packet := p\<rparr>" using n(1) by (simp add: k1_def)
    show ?thesis
    proof (cases "k_state k1 = INIT_SELECTING")
      case True
      with b False have "message = DHCPOFFER" by (auto simp: offer_received_def split: if_split_asm)
      with True b n e rx offer [of n p off] show ?thesis by simp
    next
      case no: False
      with b False have st: "k_state k1 \<in> {RENEW_REQUESTED, REQUESTING, RENEWING, REBINDING}" by (auto split: if_split_asm)
      show ?thesis
      proof (cases "message = DHCPACK")
        case True
        with b st no n e rx ack [of n p off] show ?thesis by auto
      next
        case nack: False
        with b st no False have "k' = nak_received io k1" by (auto split: if_split_asm)
        with st n e rx nak [of n p] show ?thesis by auto
      qed
    qed
  qed
qed

lemma ack_received_ok:
  assumes "ack_received io k = Some k'" "client_ok k"
  shows "client_ok k'" "k_state k' = BOUND"
  using assms by (auto simp: ack_received_def bind_Some_iff client_ok_def)

lemma client_receive_ok:
  assumes "client_receive io k = Some k'" "client_ok k"
  shows "client_ok k' \<and> (k_state k' = BOUND \<and> k_state k \<noteq> BOUND \<longrightarrow> ack_for io k k')"
  using assms(1)
proof (cases rule: client_receive_cases)
  case (same p)
  with assms(2) client_rx_wf show ?thesis by (auto simp: client_ok_def)
next
  case (offer n p off)
  have "wf_msg p" using client_rx_wf [OF offer(1)] assms(2) by (simp add: client_ok_def)
  with offer(2,3) assms(2) show ?thesis
    by (auto simp: offer_received_def bind_Some_iff client_ok_def split: option.split_asm)
next
  case (ack n p off)
  have "wf_msg p" using client_rx_wf [OF ack(1)] assms(2) by (simp add: client_ok_def)
  then have ok: "client_ok (k\<lparr>k_packet := p\<rparr>)" using assms(2) by (simp add: client_ok_def)
  from ack(4) obtain lt where lt: "opt_u32 p DHCP_LEASE_TIME = Some lt" by (auto simp: ack_received_def bind_Some_iff)
  let ?lease = "case lt of None \<Rightarrow> 3600 | Some v \<Rightarrow> ntohl v"
  from ack(4) lt have "k_lease k' = Some ?lease \<and> k_requested_ip k' = m_yiaddr p \<and> k_t1 k' = ?lease div 2 \<and>
      k_t2 k' = drop_bit 3 (?lease * 7) \<and> k_start k' = co_now io \<and> k_timeout k' = ?lease div 2 + co_now io"
    by (auto simp: ack_received_def bind_Some_iff split: option.split)
  with ack lt have "ack_for io k k'" unfolding ack_for_def by blast
  with ack_received_ok [OF ack(4) ok] show ?thesis by simp
next
  case (nak n p)
  have "wf_msg p" using client_rx_wf [OF nak(1)] assms(2) by (simp add: client_ok_def)
  with nak assms(2) show ?thesis by (auto simp: nak_received_def Let_def client_ok_def)
qed

lemma client_round_ok:
  assumes "client_round io k = Some (CNext k')" "client_ok k"
  shows "client_ok k'"
proof -
  define k1 where "k1 = (if k_listen_mode k \<noteq> LISTEN_NONE then k\<lparr>k_open := True\<rparr> else k)"
  have ok: "client_ok k1" using assms(2) by (simp add: k1_def client_ok_def)
  have "client_timeout io k1 = Some (CNext k') \<or> client_receive io k1 = Some k' \<or> k' = k1"
    using assms(1) unfolding client_round_def Let_def k1_def [symmetric]
    by (auto split: if_split_asm)
  then show ?thesis using client_timeout_ok [OF ok, of io] client_receive_ok [OF _ ok] ok by auto
qed

subsection \<open>Signals and runs\<close>

lemma renew_requested_ok: "client_ok k \<Longrightarrow> client_ok (renew_requested k)"
  by (auto simp: renew_requested_def Let_def client_ok_def)

lemma release_requested_ok: "release_requested io k = Some k' \<Longrightarrow> client_ok k \<Longrightarrow> client_ok k'"
  by (auto simp: release_requested_def bind_Some_iff client_ok_def split: if_split_asm)

text \<open>Steps of the client: a turn of the main loop, or a signal between two turns.\<close>

inductive client_step :: "client \<Rightarrow> client \<Rightarrow> bool" where
  round: "client_round io k = Some (CNext k') \<Longrightarrow> client_step k k'"
| sigusr1: "client_step k (renew_requested k)"
| sigusr2: "release_requested io k = Some k' \<Longrightarrow> client_step k k'"

lemma client_step_ok: "client_step k k' \<Longrightarrow> client_ok k \<Longrightarrow> client_ok k'"
  by (induction rule: client_step.induct) (auto intro: client_round_ok renew_requested_ok release_requested_ok)

lemma client_timeout_cfg:
  assumes "client_timeout io k = Some (CNext k')"
  shows "k_cfg k' = k_cfg k"
proof -
  have "k_cfg k' = k_cfg k" if "timeout_selecting io k = Some (CNext k')"
    using that by (auto simp: timeout_selecting_def bind_Some_iff split: if_split_asm)
  moreover have "k_cfg k' = k_cfg k" if "timeout_requesting io k = Some (CNext k')"
    using that by (auto simp: timeout_requesting_def bind_Some_iff split: if_split_asm)
  moreover have "k_cfg k' = k_cfg x" if "timeout_renewing io x = Some (CNext k')" for x
    using that by (auto simp: timeout_renewing_def bind_Some_iff split: if_split_asm)
  moreover have "k_cfg k' = k_cfg k" if "timeout_rebinding io k = Some (CNext k')"
    using that by (auto simp: timeout_rebinding_def bind_Some_iff split: if_split_asm)
  ultimately show ?thesis using assms by (cases "k_state k") (auto simp: client_timeout_def)
qed

lemma client_receive_cfg: "client_receive io k = Some k' \<Longrightarrow> k_cfg k' = k_cfg k"
  by (erule client_receive_cases)
    (auto simp: offer_received_def ack_received_def nak_received_def Let_def bind_Some_iff split: option.split_asm)

lemma client_step_cfg: "client_step k k' \<Longrightarrow> k_cfg k' = k_cfg k"
proof (induction rule: client_step.induct)
  case (round io k k')
  define k1 where "k1 = (if k_listen_mode k \<noteq> LISTEN_NONE then k\<lparr>k_open := True\<rparr> else k)"
  have "client_timeout io k1 = Some (CNext k') \<or> client_receive io k1 = Some k' \<or> k' = k1"
    using round unfolding client_round_def Let_def k1_def [symmetric] by (auto split: if_split_asm)
  moreover have "k_cfg k1 = k_cfg k" by (simp add: k1_def)
  ultimately show ?case using client_timeout_cfg [of io k1 k'] client_receive_cfg [of io k1 k'] by auto
qed (auto simp: renew_requested_def release_requested_def Let_def bind_Some_iff split: if_split_asm)

lemma client_run_cfg: "client_step\<^sup>*\<^sup>* k k' \<Longrightarrow> k_cfg k' = k_cfg k"
  by (induction rule: rtranclp_induct) (auto dest: client_step_cfg)

lemma client_run_ok: "client_step\<^sup>*\<^sup>* k k' \<Longrightarrow> client_ok k \<Longrightarrow> client_ok k'"
  by (induction rule: rtranclp_induct) (auto intro: client_step_ok)

section \<open>Facts about the start\<close>

text \<open>The configuration while the arguments are read, when none is longer than 120 characters.\<close>

definition args_ok :: "client \<Rightarrow> bool" where
  "args_ok k \<longleftrightarrow> length (k_backupip k) < 16 \<and> wf_msg (k_packet k) \<and>
     (\<forall>c. cc_clientid (k_cfg k) = Some c \<longrightarrow> blob_ok c \<and> c ! 0 = DHCP_CLIENT_ID \<and> length c \<le> 122) \<and>
     (\<forall>h. cc_hostname (k_cfg k) = Some h \<longrightarrow> blob_ok h \<and> h ! 0 = DHCP_HOST_NAME \<and> length h \<le> 122)"

lemma client_id_option_ok:
  "client_id_option a = Some c \<Longrightarrow> length a \<le> 120 \<Longrightarrow> blob_ok c \<and> c ! 0 = DHCP_CLIENT_ID \<and> length c \<le> 122"
  by (auto simp: client_id_option_def Let_def blob_ok_def unat_of_nat split: if_split_asm)

lemma host_name_option_ok:
  "length a \<le> 120 \<Longrightarrow> blob_ok (host_name_option a) \<and> host_name_option a ! 0 = DHCP_HOST_NAME \<and> length (host_name_option a) \<le> 122"
  by (auto simp: host_name_option_def Let_def blob_ok_def unat_of_nat)

lemma client_option_ok:
  assumes "client_option k (c, a) = Some (Inr k')" "args_ok k" "length a \<le> 120"
  shows "args_ok k'"
  using assms host_name_option_ok [OF assms(3)] client_id_option_ok [OF _ assms(3)]
  by (auto simp: client_option_def Let_def args_ok_def split: if_split_asm)

lemma client_options_ok:
  "client_options k as = Some (Inr k') \<Longrightarrow> args_ok k \<Longrightarrow> list_all (\<lambda>x. length (snd x) \<le> 120) as \<Longrightarrow> args_ok k'"
proof (induction as arbitrary: k)
  case (Cons a as)
  then obtain r where r: "client_option k a = Some r" by (auto simp: bind_Some_iff)
  with Cons.prems(1) obtain k1 where "r = Inr k1" by (cases r) auto
  with r Cons.prems(1) have "client_option k a = Some (Inr k1)" "client_options k1 as = Some (Inr k')" by simp_all
  with Cons client_option_ok [of k "fst a" "snd a" k1] show ?case by simp
qed simp

lemma client_read_interface_ok:
  assumes "client_read_interface ifr cfg = Some (cfg', r)" "0 \<le> r" "\<And>h. ii_hwaddr ifr = Some h \<Longrightarrow> 6 \<le> length h"
  shows "length (cc_arp cfg') = 6" "length (cc_interface cfg') < 16" "cc_clientid cfg' = cc_clientid cfg"
    "cc_hostname cfg' = cc_hostname cfg"
  using assms by (auto simp: client_read_interface_def Let_def split: if_split_asm option.split_asm)

lemma client_start_ok:
  assumes "client_start io ifr buf args = Some (CNext k)" "wf_msg buf" "list_all (\<lambda>x. length (snd x) \<le> 120) args"
    and "\<And>h. ii_hwaddr ifr = Some h \<Longrightarrow> 6 \<le> length h"
  shows "client_ok k" "k_state k = INIT_SELECTING"
proof -
  from assms(1) obtain r0 where r0: "client_options (client_init buf) args = Some r0" by (auto simp: client_start_def bind_Some_iff)
  with assms(1) obtain k00 where "r0 = Inr k00" by (cases r0) (auto simp: client_start_def)
  with r0 assms(1) obtain k0 cfg r where k0: "client_options (client_init buf) args = Some (Inr k0)"
    "client_read_interface ifr (k_cfg k0) = Some (cfg, r)" "0 \<le> r"
    and k: "k = change_mode LISTEN_RAW (run_script io None ''deconfig''
      (k0\<lparr>k_cfg := (case cc_clientid cfg of None \<Rightarrow> cfg\<lparr>cc_clientid := Some ([DHCP_CLIENT_ID, 7, 1] @ cc_arp cfg)\<rparr> | Some c \<Rightarrow> cfg),
        k_state := INIT_SELECTING\<rparr>))"
    by (auto simp: client_start_def bind_Some_iff split: sum.split_asm if_split_asm)
  have "args_ok (client_init buf)" using assms(2) by (simp add: args_ok_def client_init_def default_client_config_def cstr_def)
  from client_options_ok [OF k0(1) this assms(3)] have a: "args_ok k0" .
  note i = client_read_interface_ok [OF k0(2,3) assms(4)]
  show "k_state k = INIT_SELECTING" by (simp add: k)
  have "blob_ok ([DHCP_CLIENT_ID, 7, 1] @ cc_arp cfg)" using i(1) by (simp add: blob_ok_def)
  then show "client_ok k"
    using a i by (auto simp: k client_ok_def cfg_ok_def args_ok_def hostname_size_def split: option.split)
qed

section \<open>Facts about the environment\<close>






lemma client_rx_open [simp]: "client_rx io (k\<lparr>k_open := b\<rparr>) = client_rx io k"
  by (simp add: client_rx_def cong: rx_result.case_cong option.case_cong)

lemma ack_for_open [simp]: "ack_for io (k\<lparr>k_open := b\<rparr>) k' = ack_for io k k'"
  by (simp add: ack_for_def)

lemma timeout_not_bound:
  assumes "client_timeout io k = Some (CNext k')" "client_ok k" "k_state k' = BOUND"
  shows "k_state k = BOUND"
proof (rule ccontr)
  assume nb: "k_state k \<noteq> BOUND"
  have "k_state k \<noteq> INIT_REBOOT" using assms(2) by (simp add: client_ok_def)
  with nb consider "k_state k = INIT_SELECTING" | "k_state k = REQUESTING \<or> k_state k = RENEW_REQUESTED" | "k_state k = RENEWING"
    | "k_state k = REBINDING" | "k_state k = RELEASED" by (cases "k_state k") auto
  then show False
  proof cases
    case 1
    with timeout_selecting_ok [OF assms(2), of io] assms(1,3) show ?thesis by (auto simp: client_timeout_def)
  next
    case 2
    with timeout_requesting_ok [OF assms(2), of io] assms(1,3) show ?thesis by (auto simp: client_timeout_def)
  next
    case 3
    with timeout_renewing_ok [OF assms(2), of io] assms(1,3) show ?thesis by (auto simp: client_timeout_def)
  next
    case 4
    with assms(2) obtain lease where "k_lease k = Some lease" by (auto simp: client_ok_def)
    with 4 timeout_rebinding_ok [OF assms(2), of lease io] assms(1,3) show ?thesis by (auto simp: client_timeout_def split: if_split_asm)
  next
    case 5
    with assms(1,3) show ?thesis by (auto simp: client_timeout_def)
  qed
qed

lemma client_round_bound:
  assumes "client_round io k = Some (CNext k')" "client_ok k" "k_state k' = BOUND" "k_state k \<noteq> BOUND"
  shows "ack_for io k k'"
proof -
  define k1 where "k1 = (if k_listen_mode k \<noteq> LISTEN_NONE then k\<lparr>k_open := True\<rparr> else k)"
  have ok: "client_ok k1" "k_state k1 = k_state k" using assms(2) by (simp_all add: k1_def client_ok_def)
  have "client_timeout io k1 = Some (CNext k') \<or> client_receive io k1 = Some k' \<or> k' = k1"
    using assms(1) unfolding client_round_def Let_def k1_def [symmetric] by (auto split: if_split_asm)
  then have "client_receive io k1 = Some k'" using timeout_not_bound [OF _ ok(1) assms(3)] assms(3,4) ok(2) by auto
  with client_receive_ok [OF this ok(1)] assms(3,4) ok(2) have "ack_for io k1 k'" by simp
  then show ?thesis unfolding k1_def by (simp split: if_split_asm)
qed

lemma seven_eighths:
  assumes "unat lease \<le> 613566756"
  shows "unat (drop_bit 3 (lease * 7 :: u32)) = unat lease * 7 div 8"
proof -
  have "unat (lease * 7) = unat lease * 7" using assms by (simp add: unat_word_ariths)
  then show ?thesis by (simp add: drop_bit_eq_div unat_div)
qed

lemma add_requests_none:
  assumes "msg_items p ts" "299 < length (enc_items ts)" "length (enc_items ts) < 308"
  shows "add_requests p = None"
proof -
  let ?E = "enc_items ts"
  have opts: "opts_are (m_options p) ts" "length (m_options p) = 308" using assms(1) by (simp_all add: msg_items_def opts_are_def)
  show ?thesis
    using assms(2,3) opts(2) by (auto simp: add_requests_def end_option_items [OF opts(1)] wr_def wr_n_def requested_codes_eq)
qed

section \<open>Properties\<close>

definition sample_ifr :: ifreq_io where
  "sample_ifr = \<lparr> ii_socket = True, ii_addr = None, ii_index = Some 2, ii_hwaddr = Some sample_mac \<rparr>"

definition sample_io :: client_io where
  "sample_io = \<lparr> co_before = 100, co_socket = True, co_select = 1, co_ready = True, co_now = 100, co_read = None,
     co_eintr = False, co_rand = 7, co_tx = e_tx quiet_env, co_environ = [] \<rparr>"

definition sample_client_cfg :: client_config_t where
  "sample_client_cfg = default_client_config\<lparr> cc_ifindex := 2, cc_arp := take 6 sample_mac,
     cc_clientid := Some ([DHCP_CLIENT_ID, 7, 1] @ take 6 sample_mac) \<rparr>"

text \<open>A client that renews, and the acknowledgement it waits for.\<close>

definition sample_client :: "client_state \<Rightarrow> client" where
  "sample_client st = (client_init zero_msg)\<lparr> k_cfg := sample_client_cfg, k_state := st, k_listen_mode := mode_of st,
     k_timeout := 500, k_xid := 7, k_lease := Some 1000, k_t1 := 500, k_t2 := 875 \<rparr>"

definition sample_ack :: dhcpMessage where
  "sample_ack = zero_msg\<lparr> m_op := 2, m_xid := 7, m_yiaddr := htonl 0xC0A80102, m_cookie := htonl DHCP_MAGIC,
     m_options := [53, 1, 5, 51, 4, 0, 0, 14, 16, 255] @ replicate 298 0 \<rparr>"

lemma sample_cfg_ok [simp]: "cfg_ok sample_client_cfg"
  by (simp add: cfg_ok_def sample_client_cfg_def default_client_config_def blob_ok_def hostname_size_def cstr_def sample_mac_def)

lemma sample_client_ok: "st \<noteq> INIT_REBOOT \<Longrightarrow> client_ok (sample_client st)"
  by (simp add: client_ok_def sample_client_def client_init_def cstr_def)

lemma sample_ack_items: "msg_items sample_ack [Opt 53 [5], Opt 51 [0, 0, 14, 16]]"
  by (simp add: msg_items_def sample_ack_def wf_msg_def opts_are_def zero_msg_def)

lemma sample_ack_options:
  "option_value sample_ack DHCP_MESSAGE_TYPE = Some (Some [DHCPACK])"
  "option_value sample_ack DHCP_LEASE_TIME = Some (Some (le32 (htonl 3600)))"
  "option_value sample_ack DHCP_SUBNET = Some None" "option_value sample_ack DHCP_ROUTER = Some None"
proof -
  have "le32 (htonl 3600) = [0, 0, 14, 16]" by code_simp
  then show "option_value sample_ack DHCP_MESSAGE_TYPE = Some (Some [DHCPACK])"
    "option_value sample_ack DHCP_LEASE_TIME = Some (Some (le32 (htonl 3600)))"
    "option_value sample_ack DHCP_SUBNET = Some None" "option_value sample_ack DHCP_ROUTER = Some None"
    using dhcp_msg.lookup_law [OF sample_ack_items] by (simp_all add: no_overload_def)
qed

lemma opt_u32_none: "option_value p c = Some None \<Longrightarrow> opt_u32 p c = Some None"
  by (auto simp: option_value_def opt_u32_def bind_Some_iff split: option.split_asm)

lemma sample_ack_rx: "get_packet (Some (msg_bytes sample_ack)) = Some (Got 548 sample_ack)"
proof -
  have wf: "wf_msg sample_ack" using sample_ack_items by (simp add: msg_items_def)
  then have "fill_msg (msg_bytes sample_ack) = msg_bytes sample_ack" by (simp add: fill_msg_def)
  moreover have "m_op sample_ack = 2" "ntohl (m_cookie sample_ack) = DHCP_MAGIC" by (simp_all add: sample_ack_def)
  ultimately show ?thesis using wf by (simp add: get_packet_def Let_def bytes_msg_bytes)
qed

lemma sample_ack_round:
  "\<exists>k'. client_round (sample_io\<lparr>co_read := Some (msg_bytes sample_ack)\<rparr>) (sample_client RENEWING) = Some (CNext k') \<and> k_state k' = BOUND \<and>
     k_lease k' = Some 3600"
proof -
  let ?io = "sample_io\<lparr>co_read := Some (msg_bytes sample_ack)\<rparr>"
  let ?k = "(sample_client RENEWING)\<lparr>k_open := True\<rparr>"
  have rx: "client_rx ?io ?k = Some (548, sample_ack)"
    by (simp add: client_rx_def sample_client_def sample_ack_rx)
  obtain off where off: "get_option sample_ack DHCP_MESSAGE_TYPE = Some (Some off)" "rd (msg_bytes sample_ack) off = Some DHCPACK"
    using message_type_value [OF sample_ack_options(1)] by blast
  have xid: "m_xid sample_ack = k_xid ?k" "k_state ?k = RENEWING" by (simp_all add: sample_ack_def sample_client_def)
  have "ack_received ?io (?k\<lparr>k_packet := sample_ack\<rparr>) \<noteq> None"
    using opt_u32_value [OF sample_ack_options(2)] opt_u32_none [OF sample_ack_options(3)] opt_u32_none [OF sample_ack_options(4)]
    by (simp add: ack_received_def)
  then obtain k' where k': "ack_received ?io (?k\<lparr>k_packet := sample_ack\<rparr>) = Some k'" by blast
  then have st: "k_state k' = BOUND" "k_lease k' = Some 3600"
    using opt_u32_value [OF sample_ack_options(2)] by (auto simp: ack_received_def bind_Some_iff)
  have "client_receive ?io ?k = Some k'" using rx off xid k' by (simp add: client_receive_def)
  moreover have "k_listen_mode (sample_client RENEWING) \<noteq> LISTEN_NONE" "0 < sint (k_timeout (sample_client RENEWING) - co_before ?io)"
    "co_select ?io = 1" "co_ready ?io" "co_socket ?io"
    by (simp_all add: sample_client_def sample_io_def)
  ultimately show ?thesis using st by (simp add: client_round_def Let_def)
qed

text \<open>C9: After any start whose arguments have at most 120 characters, whatever the client receives, however its
  timers run and whichever signals it gets: its configuration is the one it started with and fits the
  messages it builds, it listens in the mode that belongs to its state, a bound, renewing or rebinding
  client has a lease time, its message buffer is well formed, and it never enters \<^const>\<open>INIT_REBOOT\<close>.\<close>

theorem client_invariant:
  assumes "client_start io ifr buf args = Some (CNext k0)" "wf_msg buf" "list_all (\<lambda>x. length (snd x) \<le> 120) args"
    and "\<And>h. ii_hwaddr ifr = Some h \<Longrightarrow> 6 \<le> length h" "client_step\<^sup>*\<^sup>* k0 k"
  shows "client_ok k \<and> k_cfg k = k_cfg k0"
  using client_run_ok [OF assms(5)] client_start_ok [OF assms(1-4)] client_run_cfg [OF assms(5)] by blast

theorem client_invariant_witness:
  "\<exists>k0. client_start sample_io sample_ifr zero_msg [(CHR ''H'', cstr ''box'')] = Some (CNext k0) \<and> client_step k0 (renew_requested k0) \<and>
     client_ok (renew_requested k0) \<and> k_cfg (renew_requested k0) = k_cfg k0"
proof -
  obtain k0 where k0: "client_start sample_io sample_ifr zero_msg [(CHR ''H'', cstr ''box'')] = Some (CNext k0)"
    by (auto simp: client_start_def client_option_def client_read_interface_def sample_ifr_def client_init_def
        default_client_config_def cstr_def Let_def)
  have "client_ok (renew_requested k0) \<and> k_cfg (renew_requested k0) = k_cfg k0"
    by (rule client_invariant [OF k0]) (auto simp: sample_ifr_def cstr_def intro: client_step.sigusr1)
  with k0 client_step.sigusr1 show ?thesis by blast
qed

text \<open>C14: A turn of the main loop makes a client bound only if the client was waiting for an answer
  and it has just received an ACK with its transaction id.  The address, the lease time and the
  renewal times are then those of that message.\<close>

theorem bound_only_by_ack:
  assumes "client_round io k = Some (CNext k')" "client_ok k" "k_state k' = BOUND" "k_state k \<noteq> BOUND"
  shows "ack_for io k k'"
  using assms by (rule client_round_bound)

theorem bound_only_by_ack_witness:
  "\<exists>k'. ack_for (sample_io\<lparr>co_read := Some (msg_bytes sample_ack)\<rparr>) (sample_client RENEWING) k'"
proof -
  obtain k' where k': "client_round (sample_io\<lparr>co_read := Some (msg_bytes sample_ack)\<rparr>) (sample_client RENEWING) = Some (CNext k')"
    "k_state k' = BOUND" using sample_ack_round by blast
  have "ack_for (sample_io\<lparr>co_read := Some (msg_bytes sample_ack)\<rparr>) (sample_client RENEWING) k'"
    by (rule bound_only_by_ack [OF k'(1) sample_client_ok k'(2)]) (simp_all add: sample_client_def)
  then show ?thesis by blast
qed

text \<open>C15: A client that is bound or renewing and hears nothing gives the lease up, whenever its timeouts happen and
  whether or not its requests can be sent: it is in \<^const>\<open>RENEWING\<close> after the first \<open>a\<close> timeouts, at most 32, in
  \<^const>\<open>REBINDING\<close> after the next \<open>b\<close>, at least one and at most 33, and with the following one back in the initial state,
  where its last act was to have its script deconfigure the interface.  It skips renewing only if the times \<open>t1\<close>
  and \<open>t2\<close> are no more than a second and a 14400th of the lease apart, and rebinds only once only if \<open>t2\<close> is that
  close to the end of the lease.\<close>

theorem unrenewed_lease_given_up:
  assumes "client_ok k" "k_state k \<in> {BOUND, RENEWING}" "k_lease k = Some lease"
  shows "\<exists>a b k'. a \<le> 32 \<and> 1 \<le> b \<and> b \<le> 33 \<and>
    timeouts (map ios [0..<a + b + 1]) k = Some (replicate a RENEWING @ replicate b REBINDING @ [INIT_SELECTING], k') \<and> client_ok k' \<and>
    (cc_script (k_cfg k) \<noteq> None \<longrightarrow> (\<exists>e. last (k_out k') = Script (cstr ''deconfig'') e)) \<and>
    (a = 0 \<longleftrightarrow> k_t2 k - k_t1 k \<le> lease div 14400 + 1) \<and> (b = 1 \<longleftrightarrow> lease - k_t2 k \<le> lease div 14400 + 1)"
  using lease_given_up [OF assms, of ios] unfolding lease_phases_def given_up_def by (auto simp: add.assoc)

theorem unrenewed_lease_given_up_witness:
  "\<exists>a b k'. 1 \<le> a \<and> 2 \<le> b \<and> timeouts (map (\<lambda>_. sample_io) [0..<a + b + 1]) (sample_client BOUND) =
     Some (replicate a RENEWING @ replicate b REBINDING @ [INIT_SELECTING], k')"
proof -
  have pre: "k_state (sample_client BOUND) \<in> {BOUND, RENEWING}" "k_lease (sample_client BOUND) = Some 1000"
    and t: "k_t2 (sample_client BOUND) = 875" "k_t1 (sample_client BOUND) = 500" by (simp_all add: sample_client_def)
  have far: "\<not> 875 - 500 \<le> 1000 div 14400 + (1 :: u32)" "\<not> 1000 - 875 \<le> 1000 div 14400 + (1 :: u32)" by (simp_all add: word_le_nat_alt)
  from unrenewed_lease_given_up [OF sample_client_ok pre, of "\<lambda>_. sample_io"] obtain a b k' where
    ab: "1 \<le> b" "timeouts (map (\<lambda>_. sample_io) [0..<a + b + 1]) (sample_client BOUND) =
      Some (replicate a RENEWING @ replicate b REBINDING @ [INIT_SELECTING], k')" "a \<noteq> 0" "b \<noteq> 1"
    unfolding t using far by blast
  then have "1 \<le> a" "2 \<le> b" by simp_all
  with ab(2) show ?thesis by blast
qed

text \<open>C26: Every timeout is handled without an access outside memory or to the unset lease time, and
  keeps the invariant.\<close>

theorem client_timeout_total:
  assumes "client_ok k"
  shows "\<exists>r. client_timeout io k = Some r \<and> (\<forall>k'. r = CNext k' \<longrightarrow> client_ok k')"
  using assms by (rule client_timeout_ok)

theorem client_timeout_total_witness: "\<exists>r. client_timeout sample_io (sample_client BOUND) = Some r"
  using client_timeout_total [OF sample_client_ok, of BOUND sample_io] by auto

text \<open>C36: A client that becomes bound sets its timer to the start of the lease plus \<open>t1\<close>.  For leases of up to
  613566756 seconds \<open>t1\<close> is half of the lease time and \<open>t2\<close> seven eighths of it; for the infinite lease time the
  32-bit product wraps and \<open>t2\<close> comes before \<open>t1\<close>.\<close>

theorem renewal_times:
  assumes "client_round io k = Some (CNext k')" "client_ok k" "k_state k' = BOUND" "k_state k \<noteq> BOUND" "k_lease k' = Some lease"
  shows "k_timeout k' = k_start k' + k_t1 k' \<and>
    (unat lease \<le> 613566756 \<longrightarrow> unat (k_t1 k') = unat lease div 2 \<and> unat (k_t2 k') = unat lease * 7 div 8) \<and>
    (lease = 0xFFFFFFFF \<longrightarrow> k_t2 k' < k_t1 k')"
proof -
  have "k_t1 k' = lease div 2" "k_t2 k' = drop_bit 3 (lease * 7)" "k_timeout k' = k_start k' + k_t1 k'"
    using client_round_bound [OF assms(1-4)] assms(5) by (auto simp: ack_for_def add.commute)
  moreover have "drop_bit 3 (0xFFFFFFFF * 7 :: u32) < 0xFFFFFFFF div 2" by simp
  ultimately show ?thesis using seven_eighths [of lease] by (auto simp: unat_div)
qed

theorem renewal_times_witness:
  "\<exists>k'. client_round (sample_io\<lparr>co_read := Some (msg_bytes sample_ack)\<rparr>) (sample_client RENEWING) = Some (CNext k') \<and>
     unat (k_t1 k') = 1800 \<and> unat (k_t2 k') = 3150"
proof -
  obtain k' where k': "client_round (sample_io\<lparr>co_read := Some (msg_bytes sample_ack)\<rparr>) (sample_client RENEWING) = Some (CNext k')"
    "k_state k' = BOUND" "k_lease k' = Some 3600" using sample_ack_round by blast
  have "k_state (sample_client RENEWING) \<noteq> BOUND" by (simp add: sample_client_def)
  from renewal_times [OF k'(1) sample_client_ok k'(2) this k'(3)] k'(1) show ?thesis by auto
qed





text \<open>The block for the address itself is one byte short: with three digits in every part of it the
  child process overruns the block.\<close>

theorem ip_variable_overflow:
  "fill_envp environ cfg (Some (p\<lparr>m_yiaddr := htonl 0xC0A86464\<rparr>)) = None"
proof -
  have "le32 (htonl 0xC0A86464) = [192, 168, 100, 100]" by code_simp
  then have "\<exists>x. sprintip (cstr ''ip='') (le32 (htonl 0xC0A86464)) 0 = Some x \<and> fits 19 x = None"
    by (simp add: sprintip_def rd_def fits_def dec.simps cstr_def)
  then show ?thesis
    by (cases "env_over (p\<lparr>m_yiaddr := htonl 0xC0A86464\<rparr>)") (auto simp: fill_envp_def Let_def)
qed

definition long_id_cfg :: client_config_t where
  "long_id_cfg = sample_client_cfg\<lparr> cc_clientid := Some (61 # 255 # replicate 255 97), cc_hostname := Some (12 # 30 # replicate 30 98) \<rparr>"

text \<open>With a long client id the list of requested options is written past the end of the message:
  \<^verbatim>\<open>add_requests\<close> tests no bounds.\<close>

theorem discover_overflow:
  "send_discover io long_id_cfg xid 0 = None"
proof -
  let ?c = "61 # 255 # replicate 255 97 :: bytes" and ?h = "12 # 30 # replicate 30 98 :: bytes"
  have c: "cc_clientid long_id_cfg = Some ?c" "cc_hostname long_id_cfg = Some ?h" "cc_arp long_id_cfg = take 6 sample_mac"
    by (simp_all add: long_id_cfg_def sample_client_cfg_def)
  have blobs: "blob_ok ?c" "blob_ok ?h" "blob_item ?c = Opt 61 (replicate 255 97)" "blob_item ?h = Opt 12 (replicate 30 98)"
    "blob_item vendor_id = Opt 60 (cstr ''udhcp 0.9.7'')"
    by (simp_all add: blob_ok_def blob_item_def vendor_id_def cstr_def)
  obtain p0 where p0: "init_header DHCPDISCOVER = Some p0" "msg_items p0 [Opt 53 [1]]" using init_header_items by blast
  let ?p = "p0\<lparr>m_chaddr := take 6 sample_mac @ drop 6 (m_chaddr p0)\<rparr>"
  have len: "length (m_chaddr p0) = 16" using p0(2) by (simp add: msg_items_def wf_msg_def)
  then have w: "wr_n (m_chaddr p0) 0 (take 6 (cc_arp long_id_cfg)) = Some (take 6 sample_mac @ drop 6 (m_chaddr p0))"
    unfolding c by (simp add: wr_n_def)
  have i0: "msg_items ?p [Opt 53 [1]]" using msg_items_chaddr [OF _ p0(2)] len by (simp add: sample_mac_def)
  obtain p1 where p1: "msg_add ?p ?c = Some p1" "msg_items p1 [Opt 53 [1], Opt 61 (replicate 255 97)]"
    using dhcp_msg.add_law [OF i0 blobs(1)] unfolding blobs by (auto simp: push_item_def)
  obtain p2 where p2: "msg_add p1 ?h = Some p2" "msg_items p2 [Opt 53 [1], Opt 61 (replicate 255 97), Opt 12 (replicate 30 98)]"
    using dhcp_msg.add_law [OF p1(2) blobs(2)] unfolding blobs by (auto simp: push_item_def)
  obtain p3 where p3: "msg_add p2 vendor_id = Some p3"
    "msg_items p3 [Opt 53 [1], Opt 61 (replicate 255 97), Opt 12 (replicate 30 98), Opt 60 (cstr ''udhcp 0.9.7'')]"
    using dhcp_msg.add_law [OF p2(2) vendor_ok(1)] unfolding blobs by (auto simp: push_item_def cstr_def)
  have "client_init_packet long_id_cfg DHCPDISCOVER = Some p3"
    unfolding client_init_packet_def c p0(1) Option.bind.simps w [unfolded c] option.case using p1(1) p2(1) p3(1) by simp
  moreover have "msg_items (p3\<lparr>m_xid := xid\<rparr>) [Opt 53 [1], Opt 61 (replicate 255 97), Opt 12 (replicate 30 98), Opt 60 (cstr ''udhcp 0.9.7'')]"
    using p3(2) by simp
  then have "add_requests (p3\<lparr>m_xid := xid\<rparr>) = None" by (rule add_requests_none) (simp_all add: cstr_def)
  ultimately show ?thesis by (simp add: send_discover_def discover_msg_def)
qed

end
