(* ===== verification/Dhcp_Exchange.thy ===== *)
theory Dhcp_Exchange
  imports Dhcp_Client
begin

text \<open>
  The composition of the DHCP client and the DHCP server: what the server does with the request that the
  client's model builds, and what the client does with the frame that the server's model sends.  The
  three lemmas at the end are the three turns of the exchange; the theorem that joins them is in the
  root theory.
\<close>

section \<open>Address options of an acknowledgement\<close>

lemma foldl_push_subset: "set (foldl push_item ts xs) \<subseteq> set ts \<union> set xs"
proof (induction xs arbitrary: ts)
  case (Cons x xs)
  have "set (push_item ts x) \<subseteq> set ts \<union> {x}" by (auto simp: push_item_def)
  with Cons [of "push_item ts x"] show ?case by auto
qed simp

text \<open>Configured options that hold an address are long enough for one.\<close>

definition addresses_ok :: "bytes list \<Rightarrow> bool" where
  "addresses_ok ds \<longleftrightarrow> (\<forall>d\<in>set ds. d ! 0 \<in> {DHCP_SUBNET, DHCP_ROUTER} \<longrightarrow> 4 \<le> unat (d ! 1))"

lemma ack_packet_addresses:
  assumes "ack_packet s old yiaddr = Some (p, t, h)" "wf_msg old" "conf_opts_ok (c_options (s_cfg s))"
    and "addresses_ok (c_options (s_cfg s))"
  shows "\<exists>ts. msg_items p ts \<and> no_overload ts \<and>
    (\<forall>c d. Opt c d \<in> set ts \<longrightarrow> c \<in> {DHCP_SUBNET, DHCP_ROUTER} \<longrightarrow> 4 \<le> length d)"
proof -
  from assms(1) obtain p0 p1 p2 p3 where p0: "server_init_packet s old DHCPACK = Some p0"
    and t: "ack_lease_time s old = Some t"
    and p1: "msg_add_simple (p0\<lparr>m_yiaddr := yiaddr\<rparr>) DHCP_LEASE_TIME (htonl t) = Some p1"
    and p2: "echo_hostname old p1 [] = Some (p2, h)"
    and p3: "add_config_options s p2 = Some p3" and p: "p = add_bootp_options s p3"
    by (auto simp: ack_packet_def bind_Some_iff)
  have "length (m_chaddr old) = 16" using assms(2) by (simp add: wf_msg_def)
  from server_init_packet_items [OF this, of s DHCPACK] p0 have 0: "msg_items p0 (opens_reply s DHCPACK)"
    by (auto simp: opens_reply_def)
  let ?ts = "opens_reply s DHCPACK @ [Opt DHCP_LEASE_TIME (le32 (htonl t))]"
  have "msg_items (p0\<lparr>m_yiaddr := yiaddr\<rparr>) (opens_reply s DHCPACK)" using 0 by simp
  from add_lease_time_items [OF this opens_reply_simps(1), of "htonl t"] p1 have 1: "msg_items p1 ?ts" "reply_items s DHCPACK ?ts"
    by (auto simp: opens_reply_simps)
  from echo_hostname_items(5) [OF p2 assms(2) 1] obtain ts2 where 2: "msg_items p2 ts2" "reply_items s DHCPACK ts2"
    "ts2 = ?ts \<or> (\<exists>d. ts2 = ?ts @ [Opt DHCP_HOST_NAME d])" by fastforce
  let ?bs = "filter (\<lambda>d. d ! 0 \<noteq> DHCP_LEASE_TIME) (c_options (s_cfg s))"
  let ?ts3 = "foldl push_item ts2 (map blob_item ?bs)"
  note ok = conf_blobs [OF assms(3), of "\<lambda>d. d ! 0 \<noteq> DHCP_LEASE_TIME"]
  have 3: "msg_items p3 ?ts3"
    using dhcp_msg.add_all_law [OF 2(1) ok(1)] p3 by (auto simp: add_config_options_def)
  have "reply_items s DHCPACK ?ts3" using reply_items_pushes [OF 2(2) ok(2)] .
  then have over: "no_overload ?ts3" by (simp add: reply_items_def)
  have "4 \<le> length d" if i: "Opt c d \<in> set ?ts3" "c \<in> {DHCP_SUBNET, DHCP_ROUTER}" for c d
  proof -
    have "Opt c d \<notin> set ts2" using 2(3) i(2) by (auto simp: opens_reply_def)
    with i(1) foldl_push_subset [of ts2 "map blob_item ?bs"] have "Opt c d \<in> set (map blob_item ?bs)" by blast
    then obtain b where b: "b \<in> set (c_options (s_cfg s))" "Opt c d = blob_item b" by auto
    then have "blob_ok b" using assms(3) by (auto simp: conf_opts_ok_def conf_ok_def blob_ok_def)
    with b assms(4) i(2) show ?thesis by (auto simp: blob_item_def blob_ok_def addresses_ok_def)
  qed
  with msg_items_bootp [OF 3] over p show ?thesis by blast
qed

text \<open>Reading an address option of such a message stays inside it.\<close>

lemma find_item_bound: "find_item ts c = Some (k, d) \<Longrightarrow> k + length d \<le> length (enc_items ts)"
proof (induction ts arbitrary: k)
  case (Cons t ts)
  then show ?case by (cases t) (auto split: if_split_asm)
qed simp

lemma opt_u32_items:
  assumes "msg_items p ts" "no_overload ts" "c \<noteq> DHCP_PADDING" "c \<noteq> DHCP_END" "\<forall>d. Opt c d \<in> set ts \<longrightarrow> 4 \<le> length d"
  shows "\<exists>r. opt_u32 p c = Some r"
proof (cases "find_item ts c")
  case None
  with dhcp_msg.lookup_law [OF assms(1-4)] have "option_value p c = Some None" by simp
  then show ?thesis by (auto simp: option_value_def opt_u32_def bind_Some_iff split: option.split_asm)
next
  case (Some x)
  then obtain k d where kd: "find_item ts c = Some (k, d)" by (cases x) auto
  with dhcp_msg.lookup_law [OF assms(1-4)] have "option_value p c = Some (Some d)" by simp
  then obtain off where o: "get_option p c = Some (Some off)" "rd_n (msg_bytes p) off (length d) = Some d"
    by (rule option_value_off)
  have "4 \<le> length d" using find_item_mem [OF kd] assms(5) by blast
  with o(2) have "off + 3 < length (msg_bytes p)" by (auto simp: rd_n_def split: if_split_asm)
  with o(1) show ?thesis using rd32_Some_iff [of "msg_bytes p" off] by (auto simp: opt_u32_def)
qed

section \<open>The exchange of client and server\<close>

text \<open>The client's turn: its request goes out as a broadcast and it waits for the answer.\<close>

lemma request_sent:
  assumes "client_ok k" "k_state k = REQUESTING" "k_packet_num k < 3" "tx_socket (co_tx io)" "tx_bind (co_tx io)"
  shows "\<exists>k1 req. client_timeout io k = Some (CNext k1) \<and>
    selects (k_cfg k) (k_xid k) (k_server_addr k) (k_requested_ip k) req \<and>
    k_out k1 = k_out k @ [CTx (RawTx MAC_BCAST_ADDR (cc_ifindex (k_cfg k))
      (raw_frame req INADDR_ANY CLIENT_PORT INADDR_BROADCAST SERVER_PORT))] \<and>
    k_state k1 = REQUESTING \<and> k_xid k1 = k_xid k \<and> client_ok k1"
proof -
  have ok: "cfg_ok (k_cfg k)" using assms(1) by (simp add: client_ok_def)
  obtain req where req: "selecting_msg (k_cfg k) (k_xid k) (k_server_addr k) (k_requested_ip k) = Some req"
    "selects (k_cfg k) (k_xid k) (k_server_addr k) (k_requested_ip k) req"
    using selecting_msg_selects [OF ok] by blast
  have mac: "rd_n MAC_BCAST_ADDR 0 6 = Some MAC_BCAST_ADDR" by (simp add: rd_n_def MAC_BCAST_ADDR_def)
  have "send_selecting (co_tx io) (k_cfg k) (k_xid k) (k_server_addr k) (k_requested_ip k) = Some (tx_result (co_tx io),
      [RawTx MAC_BCAST_ADDR (cc_ifindex (k_cfg k)) (raw_frame req INADDR_ANY CLIENT_PORT INADDR_BROADCAST SERVER_PORT)])"
    using req(1) assms(4,5) by (simp add: send_selecting_def raw_packet_def mac)
  then have t: "client_timeout io k = Some (CNext ((effect [CTx (RawTx MAC_BCAST_ADDR (cc_ifindex (k_cfg k))
      (raw_frame req INADDR_ANY CLIENT_PORT INADDR_BROADCAST SERVER_PORT))] k)\<lparr>k_timeout := co_now io + (if k_packet_num k = 2 then 10 else 2),
          k_packet_num := k_packet_num k + 1\<rparr>))" (is "_ = Some (CNext ?k1)")
    using assms(2,3) by (simp add: client_timeout_def timeout_requesting_def)
  moreover have "client_ok ?k1" using assms(1,2) by (simp add: client_ok_def)
  ultimately show ?thesis using req(2) assms(2) by (intro exI [of _ ?k1] exI [of _ req]) simp
qed

text \<open>The server's turn: an ACK goes to the hardware address of the client, and the lease is recorded.\<close>

lemma request_acked:
  assumes "selects cfg xid (c_server (s_cfg s)) y req" "hostname_size cfg \<le> 32" "length (cc_arp cfg) = 6"
    and "table_ok s" "conf_opts_ok (c_options (s_cfg s))" "addresses_ok (c_options (s_cfg s))" "tx_works env"
    and "lease_address s (cc_arp cfg @ replicate 10 0) = Some y" "\<not> zerohwaddr (cc_arp cfg)"
    and "0 < s_now s" "c_inflease_time (s_cfg s) \<noteq> 0"
  shows "\<exists>s' ack t i h ts. handle_packet env s req = Some s' \<and>
    Tx (RawTx (cc_arp cfg) (c_ifindex (s_cfg s)) (raw_frame ack (c_server (s_cfg s)) SERVER_PORT y CLIENT_PORT)) \<in> set (s_out s') \<and>
    lease_reply s req DHCPACK y t ack \<and> ack_lease_time s req = Some t \<and> msg_items ack ts \<and> no_overload ts \<and>
    (\<forall>c d. Opt c d \<in> set ts \<longrightarrow> c \<in> {DHCP_SUBNET, DHCP_ROUTER} \<longrightarrow> 4 \<le> length d) \<and>
    find_lease_by_chaddr s' (cc_arp cfg @ replicate 10 0) = Some i \<and>
    s_leases s' ! i = lease_entry s (cc_arp cfg @ replicate 10 0) y t h"
proof -
  let ?ch = "cc_arp cfg @ replicate 10 0"
  have m: "wf_msg req" "calm_msg req" "m_chaddr req = ?ch" "m_flags req = 0" "m_giaddr req = 0" "m_ciaddr req = 0"
    using assms(1,2) by (simp_all add: selects_def from_client_def)
  have nz: "\<not> zerohwaddr ?ch" "length ?ch = 16" using assms(3,9) by (simp_all add: zerohwaddr_def)
  obtain p t h where p: "ack_packet s req y = Some (p, t, h)" "wf_msg p" "length h \<le> 30"
    using ack_packet_returns [OF m(2) assms(5)] by blast
  note c = ack_packet_contents [OF p(1) m(1) assms(5)]
  then have f: "m_chaddr p = ?ch" "m_yiaddr p = y" "m_flags p = 0" "m_giaddr p = 0" "m_ciaddr p = 0"
    using m(3-6) by (simp_all add: lease_reply_def reply_to_def)
  let ?e = "Tx (RawTx (cc_arp cfg) (c_ifindex (s_cfg s)) (raw_frame p (c_server (s_cfg s)) SERVER_PORT y CLIENT_PORT))"
  have "rd_n ?ch 0 6 = Some (cc_arp cfg)" using assms(3) by (simp add: rd_n_def)
  then have sp: "send_packet env s p False = Some (emit s [?e], tx_result (e_tx env))"
    using f assms(7) by (simp add: send_packet_def send_packet_to_client_def raw_packet_def tx_works_def ntohs_def of_le16_def)
  obtain s' r where al: "add_lease env (emit s [?e]) ?ch y t h = Some (s', r)" using add_lease_returns [OF p(3)] by blast
  have "lease_address (emit s [?e]) ?ch = Some y" using assms(8) by (simp add: lease_address_def find_lease_by_chaddr_def lease_simps)
  with add_lease_renews [OF al _ nz(1)] assms(10,11) nz(2) obtain i where i: "r = Some i" by (auto simp: lease_simps)
  note found = add_lease_found [OF al [unfolded i] nz(2,1)]
  have entry: "lease_entry (emit s [?e]) ?ch y t h = lease_entry s ?ch y t h" by (simp add: lease_entry_def lease_simps)
  have out: "?e \<in> set (s_out s')" using add_lease_delta_ext [OF al] by (auto simp: delta_ext_def lease_simps)
  have ack: "sendACK env s req y = Some (s', 0)" using p(1) sp al f assms(7) by (simp add: sendACK_def tx_works_def)
  obtain off where off: "get_option req DHCP_MESSAGE_TYPE = Some (Some off)" "rd (msg_bytes req) off = Some DHCPREQUEST"
    using message_type_value assms(1) by (auto simp: selects_def)
  obtain j where j: "find_lease_by_chaddr s ?ch = Some j" "l_yiaddr (s_leases s ! j) = y" using assms(8) by (auto simp: lease_address_def)
  have "opt_u32 req DHCP_REQUESTED_IP = Some (Some y)" "opt_u32 req DHCP_SERVER_ID = Some (Some (c_server (s_cfg s)))"
    using opt_u32_value assms(1) by (auto simp: selects_def)
  then have "do_request env s req = Some s'" using j ack m(3) by (simp add: do_request_def Let_def)
  with off have hp: "handle_packet env s req = Some s'" by (simp add: handle_packet_def)
  obtain ts where ts: "msg_items p ts" "no_overload ts"
    "\<forall>c d. Opt c d \<in> set ts \<longrightarrow> c \<in> {DHCP_SUBNET, DHCP_ROUTER} \<longrightarrow> 4 \<le> length d"
    using ack_packet_addresses [OF p(1) m(1) assms(5,6)] by blast
  show ?thesis
    using hp out c(1,2) ts found(1,3) entry
    by (intro exI [of _ s'] exI [of _ p] exI [of _ t] exI [of _ i] exI [of _ h] exI [of _ ts]) simp
qed

text \<open>The client's second turn: it accepts the frame and is bound.\<close>

lemma ack_accepted:
  assumes "lease_reply s req DHCPACK y t ack" "m_xid req = k_xid k" "client_ok k" "k_state k = REQUESTING"
    and "msg_items ack ts" "no_overload ts" "\<forall>c d. Opt c d \<in> set ts \<longrightarrow> c \<in> {DHCP_SUBNET, DHCP_ROUTER} \<longrightarrow> 4 \<le> length d"
    and "co_read io = Some (raw_frame ack src SERVER_PORT dst CLIENT_PORT)"
  shows "\<exists>k2. client_receive io k = Some k2 \<and> k_state k2 = BOUND \<and> k_requested_ip k2 = y \<and> k_lease k2 = Some t"
proof -
  have a: "wf_msg ack" "m_cookie ack = htonl DHCP_MAGIC" "m_xid ack = k_xid k" "m_yiaddr ack = y"
    "option_value ack DHCP_MESSAGE_TYPE = Some (Some [DHCPACK])" "option_value ack DHCP_LEASE_TIME = Some (Some (le32 (htonl t)))"
    using assms(1,2) by (simp_all add: lease_reply_def reply_to_def)
  have k: "wf_msg (k_packet k)" "k_listen_mode k = LISTEN_RAW" using assms(3,4) by (simp_all add: client_ok_def)
  have raw: "get_raw_packet (k_packet k) (co_read io) = Some (Got msg_size ack)"
    unfolding assms(8) using a(1,2) k(1) by (rule get_raw_packet_raw_frame)
  then obtain d where "raw_payload (co_read io) = Some d" by (auto simp: get_raw_packet_def bind_Some_iff)
  with raw k(2) have rx: "client_rx io k = Some (548, ack)" by (simp add: client_rx_def)
  obtain off where off: "get_option ack DHCP_MESSAGE_TYPE = Some (Some off)" "rd (msg_bytes ack) off = Some DHCPACK"
    using message_type_value [OF a(5)] by blast
  obtain r1 r2 where r: "opt_u32 ack DHCP_SUBNET = Some r1" "opt_u32 ack DHCP_ROUTER = Some r2"
    using opt_u32_items [OF assms(5,6), of DHCP_SUBNET] opt_u32_items [OF assms(5,6), of DHCP_ROUTER] assms(7) by auto
  have lt: "opt_u32 ack DHCP_LEASE_TIME = Some (Some (htonl t))" using opt_u32_value [OF a(6)] .
  have "\<exists>k2. ack_received io (k\<lparr>k_packet := ack\<rparr>) = Some k2 \<and> k_state k2 = BOUND \<and> k_requested_ip k2 = y \<and> k_lease k2 = Some t"
    using r lt a(4) by (simp add: ack_received_def)
  moreover have "client_receive io k = ack_received io (k\<lparr>k_packet := ack\<rparr>)"
    using rx off a(3) assms(4) by (simp add: client_receive_def)
  ultimately show ?thesis by simp
qed

end
