(* ===== verification/Ti_Cksum.thy ===== *)
theory Ti_Cksum
  imports C_Lib
begin

text \<open>
  \<^verbatim>\<open>src/TI-chksum\<close>: the checksum of the firmware images.  \<^verbatim>\<open>cksum.c\<close> computes the CRC of a file or a buffer
  with a table, and reads and writes the eight-byte tag (magic number and checksum) at the end of a
  file; \<^verbatim>\<open>ckmain.c\<close> adds the tag to a file that has none and verifies the tag of a file that has one.

  A file is the byte string it holds.  The tool runs on a little-endian host with 32-bit \<^verbatim>\<open>long\<close> and
  \<^verbatim>\<open>size_t\<close>; \<^verbatim>\<open>uintmax_t\<close> has 64 bits.  The result of \<^verbatim>\<open>ferror\<close> and the number of bytes that \<^verbatim>\<open>fwrite\<close>
  stores are inputs.
\<close>

section \<open>The table and its step\<close>

type_synonym u64 = "64 word"

abbreviation (input) BUFLEN :: nat where "BUFLEN \<equiv> 65536"
abbreviation (input) MAGIC_NUMBER :: u32 where "MAGIC_NUMBER \<equiv> 0xC453DE23"

definition crctab :: "u32 list" where
  "crctab = [
     0x0, 0x04C11DB7, 0x09823B6E, 0x0D4326D9, 0x130476DC, 0x17C56B6B, 0x1A864DB2, 0x1E475005,
     0x2608EDB8, 0x22C9F00F, 0x2F8AD6D6, 0x2B4BCB61, 0x350C9B64, 0x31CD86D3, 0x3C8EA00A, 0x384FBDBD,
     0x4C11DB70, 0x48D0C6C7, 0x4593E01E, 0x4152FDA9, 0x5F15ADAC, 0x5BD4B01B, 0x569796C2, 0x52568B75,
     0x6A1936C8, 0x6ED82B7F, 0x639B0DA6, 0x675A1011, 0x791D4014, 0x7DDC5DA3, 0x709F7B7A, 0x745E66CD,
     0x9823B6E0, 0x9CE2AB57, 0x91A18D8E, 0x95609039, 0x8B27C03C, 0x8FE6DD8B, 0x82A5FB52, 0x8664E6E5,
     0xBE2B5B58, 0xBAEA46EF, 0xB7A96036, 0xB3687D81, 0xAD2F2D84, 0xA9EE3033, 0xA4AD16EA, 0xA06C0B5D,
     0xD4326D90, 0xD0F37027, 0xDDB056FE, 0xD9714B49, 0xC7361B4C, 0xC3F706FB, 0xCEB42022, 0xCA753D95,
     0xF23A8028, 0xF6FB9D9F, 0xFBB8BB46, 0xFF79A6F1, 0xE13EF6F4, 0xE5FFEB43, 0xE8BCCD9A, 0xEC7DD02D,
     0x34867077, 0x30476DC0, 0x3D044B19, 0x39C556AE, 0x278206AB, 0x23431B1C, 0x2E003DC5, 0x2AC12072,
     0x128E9DCF, 0x164F8078, 0x1B0CA6A1, 0x1FCDBB16, 0x018AEB13, 0x054BF6A4, 0x0808D07D, 0x0CC9CDCA,
     0x7897AB07, 0x7C56B6B0, 0x71159069, 0x75D48DDE, 0x6B93DDDB, 0x6F52C06C, 0x6211E6B5, 0x66D0FB02,
     0x5E9F46BF, 0x5A5E5B08, 0x571D7DD1, 0x53DC6066, 0x4D9B3063, 0x495A2DD4, 0x44190B0D, 0x40D816BA,
     0xACA5C697, 0xA864DB20, 0xA527FDF9, 0xA1E6E04E, 0xBFA1B04B, 0xBB60ADFC, 0xB6238B25, 0xB2E29692,
     0x8AAD2B2F, 0x8E6C3698, 0x832F1041, 0x87EE0DF6, 0x99A95DF3, 0x9D684044, 0x902B669D, 0x94EA7B2A,
     0xE0B41DE7, 0xE4750050, 0xE9362689, 0xEDF73B3E, 0xF3B06B3B, 0xF771768C, 0xFA325055, 0xFEF34DE2,
     0xC6BCF05F, 0xC27DEDE8, 0xCF3ECB31, 0xCBFFD686, 0xD5B88683, 0xD1799B34, 0xDC3ABDED, 0xD8FBA05A,
     0x690CE0EE, 0x6DCDFD59, 0x608EDB80, 0x644FC637, 0x7A089632, 0x7EC98B85, 0x738AAD5C, 0x774BB0EB,
     0x4F040D56, 0x4BC510E1, 0x46863638, 0x42472B8F, 0x5C007B8A, 0x58C1663D, 0x558240E4, 0x51435D53,
     0x251D3B9E, 0x21DC2629, 0x2C9F00F0, 0x285E1D47, 0x36194D42, 0x32D850F5, 0x3F9B762C, 0x3B5A6B9B,
     0x0315D626, 0x07D4CB91, 0x0A97ED48, 0x0E56F0FF, 0x1011A0FA, 0x14D0BD4D, 0x19939B94, 0x1D528623,
     0xF12F560E, 0xF5EE4BB9, 0xF8AD6D60, 0xFC6C70D7, 0xE22B20D2, 0xE6EA3D65, 0xEBA91BBC, 0xEF68060B,
     0xD727BBB6, 0xD3E6A601, 0xDEA580D8, 0xDA649D6F, 0xC423CD6A, 0xC0E2D0DD, 0xCDA1F604, 0xC960EBB3,
     0xBD3E8D7E, 0xB9FF90C9, 0xB4BCB610, 0xB07DABA7, 0xAE3AFBA2, 0xAAFBE615, 0xA7B8C0CC, 0xA379DD7B,
     0x9B3660C6, 0x9FF77D71, 0x92B45BA8, 0x9675461F, 0x8832161A, 0x8CF30BAD, 0x81B02D74, 0x857130C3,
     0x5D8A9099, 0x594B8D2E, 0x5408ABF7, 0x50C9B640, 0x4E8EE645, 0x4A4FFBF2, 0x470CDD2B, 0x43CDC09C,
     0x7B827D21, 0x7F436096, 0x7200464F, 0x76C15BF8, 0x68860BFD, 0x6C47164A, 0x61043093, 0x65C52D24,
     0x119B4BE9, 0x155A565E, 0x18197087, 0x1CD86D30, 0x029F3D35, 0x065E2082, 0x0B1D065B, 0x0FDC1BEC,
     0x3793A651, 0x3352BBE6, 0x3E119D3F, 0x3AD08088, 0x2497D08D, 0x2056CD3A, 0x2D15EBE3, 0x29D4F654,
     0xC5A92679, 0xC1683BCE, 0xCC2B1D17, 0xC8EA00A0, 0xD6AD50A5, 0xD26C4D12, 0xDF2F6BCB, 0xDBEE767C,
     0xE3A1CBC1, 0xE760D676, 0xEA23F0AF, 0xEEE2ED18, 0xF0A5BD1D, 0xF464A0AA, 0xF9278673, 0xFDE69BC4,
     0x89B8FD09, 0x8D79E0BE, 0x803AC667, 0x84FBDBD0, 0x9ABC8BD5, 0x9E7D9662, 0x933EB0BB, 0x97FFAD0C,
     0xAFB010B1, 0xAB710D06, 0xA6322BDF, 0xA2F33668, 0xBCB4666D, 0xB8757BDA, 0xB5365D03, 0xB1F740B4]"

text \<open>The loop bodies \<^verbatim>\<open>crc = (crc << 8) ^ crctab[((crc >> 24) ^ x) & 0xFF]\<close>, with the low byte of \<^verbatim>\<open>x\<close>.\<close>

definition crc_step :: "u32 \<Rightarrow> u8 \<Rightarrow> u32" where
  "crc_step crc x = push_bit 8 crc XOR crctab ! unat ((drop_bit 24 crc XOR ucast x) AND 0xFF)"

text \<open>The loop \<^verbatim>\<open>for (; length; length >>= 8)\<close> of both functions.\<close>

function crc_length :: "u32 \<Rightarrow> u64 \<Rightarrow> u32" where
  "crc_length crc n = (if n = 0 then crc else crc_length (crc_step crc (ucast n)) (drop_bit 8 n))"
  by auto
termination
proof (relation "measure (\<lambda>(crc, n). unat n)")
  fix crc and n :: u64
  assume "n \<noteq> 0"
  then have "0 < unat n" by (simp add: unat_gt_0)
  then have "unat n div 256 < unat n" by simp
  then show "((crc_step crc (ucast n), drop_bit 8 n), crc, n) \<in> measure (\<lambda>(crc, n). unat n)"
    by (simp add: drop_bit_eq_div unat_div)
qed simp

declare crc_length.simps [simp del]

section \<open>Checksums\<close>

text \<open>
  \<^verbatim>\<open>cs_calc_sum\<close> reads the file in blocks of \<^verbatim>\<open>BUFLEN\<close> bytes.  From a short block of a tagged file it takes
  eight bytes off \<^verbatim>\<open>bytes_read\<close>; below zero the unsigned count wraps around, and the inner loop leaves
  the buffer.
\<close>

function calc_loop :: "bytes \<Rightarrow> u32 \<Rightarrow> u64 \<Rightarrow> bool \<Rightarrow> (u32 \<times> u64) option option" where
  "calc_loop rest crc len tagged =
     (if rest = [] then Some (Some (crc, len))
      else
        let bytes_read = min BUFLEN (length rest); buf = take bytes_read rest in
        if len + of_nat bytes_read < len then Some None
        else if bytes_read \<noteq> BUFLEN \<and> tagged \<and> bytes_read < 8 then None
        else
          let n = (if bytes_read \<noteq> BUFLEN \<and> tagged then bytes_read - 8 else bytes_read) in
          calc_loop (drop bytes_read rest) (foldl crc_step crc (take n buf)) (len + of_nat n) tagged)"
  by auto
termination
  by (relation "measure (\<lambda>(rest, crc, len, tagged). length rest)") (auto simp: Let_def)

declare calc_loop.simps [simp del]

text \<open>The result is \<^term>\<open>Some None\<close> for the return value 0.\<close>

definition cs_calc_sum :: "bool \<Rightarrow> bytes \<Rightarrow> bool \<Rightarrow> u32 option option" where
  "cs_calc_sum ferror f tagged = do {
     r \<leftarrow> calc_loop f 0 0 tagged;
     Some (case r of
         None \<Rightarrow> None
       | Some (crc, len) \<Rightarrow> if ferror then None else Some (NOT (crc_length crc len) AND 0xFFFFFFFF)) }"

text \<open>
  \<^verbatim>\<open>cs_calc_buf_sum\<close> gets the buffer and its size; a negative size makes the loop leave the buffer.  The
  length is kept in an \<^verbatim>\<open>unsigned long\<close>.
\<close>

definition cs_calc_buf_sum :: "bytes \<Rightarrow> int \<Rightarrow> u32 option" where
  "cs_calc_buf_sum buf n =
     (if n < 0 then None
      else do {
        d \<leftarrow> rd_n buf 0 (nat n);
        Some (NOT (crc_length (foldl crc_step 0 d) (ucast (of_int n :: u32))) AND 0xFFFFFFFF) })"

section \<open>The tag\<close>

text \<open>
  The last eight bytes.  In a file that has fewer, \<^verbatim>\<open>fseek\<close> fails and the buffer is not filled, so that
  the value is indeterminate.
\<close>

definition last8 :: "bytes \<Rightarrow> bytes option" where
  "last8 f = (if length f < 8 then None else Some (drop (length f - 8) f))"

definition cs_is_tagged :: "bytes \<Rightarrow> bool option" where
  "cs_is_tagged f = do { buf \<leftarrow> last8 f; v \<leftarrow> rd32 buf 0; Some (v = MAGIC_NUMBER) }"

definition cs_read_sum :: "bytes \<Rightarrow> u32 option" where
  "cs_read_sum f = do { buf \<leftarrow> last8 f; rd32 buf 4 }"

text \<open>Writing at a position of the file, which grows if necessary.\<close>

definition fput :: "bytes \<Rightarrow> nat \<Rightarrow> bytes \<Rightarrow> bytes" where
  "fput f pos d = take pos f @ d @ drop (pos + length d) f"

text \<open>
  The inputs \<open>w1\<close> and \<open>w2\<close> are the numbers of bytes that the two calls of \<^verbatim>\<open>fwrite\<close> store.  In a tagged file of
  fewer than eight bytes the position is not determined.
\<close>

definition cs_set_sum :: "nat \<Rightarrow> nat \<Rightarrow> bytes \<Rightarrow> u32 \<Rightarrow> bool \<Rightarrow> (bytes \<times> bool) option" where
  "cs_set_sum w1 w2 f s tagged =
     (if tagged \<and> length f < 8 then None
      else
        let pos = (if tagged then length f - 8 else length f);
            f1 = fput f pos (take w1 (le32 MAGIC_NUMBER)) in
        if w1 < 4 then Some (f1, False)
        else Some (fput f1 (pos + 4) (take w2 (le32 s)), \<not> w2 < 4))"

definition cs_get_sum :: "bytes \<Rightarrow> u32 option" where
  "cs_get_sum f = do { buf \<leftarrow> last8 f; rd32 buf 4 }"

section \<open>The program\<close>

datatype outcome = Usage | Added u32 bool | NotCalculated | Verified u32 u32 bool

record ck_io =
  ck_ferror :: bool
  ck_w1 :: nat
  ck_w2 :: nat

text \<open>
  \<^verbatim>\<open>main\<close> with its arguments after the program name and the contents of the named file (\<^term>\<open>None\<close> if it
  cannot be opened, in which case a null pointer is used).  The result is the new contents and what
  the program reports.
\<close>

definition ck_main :: "ck_io \<Rightarrow> bytes list \<Rightarrow> (bytes \<Rightarrow> bytes option) \<Rightarrow> (bytes option \<times> outcome) option" where
  "ck_main io args files =
     (case args of
        [name] \<Rightarrow> do {
          f \<leftarrow> files name;
          tagged \<leftarrow> cs_is_tagged f;
          if \<not> tagged then do {
            r \<leftarrow> cs_calc_sum (ck_ferror io) f False;
            case r of
              None \<Rightarrow> Some (Some f, NotCalculated)
            | Some s \<Rightarrow> do { (f', ok) \<leftarrow> cs_set_sum (ck_w1 io) (ck_w2 io) f s False; Some (Some f', Added s ok) } }
          else do {
            r \<leftarrow> cs_calc_sum (ck_ferror io) f True;
            case r of
              None \<Rightarrow> Some (Some f, NotCalculated)
            | Some s \<Rightarrow> do { res \<leftarrow> cs_get_sum f; Some (Some f, Verified s res (s = res)) } } }
      | _ \<Rightarrow> Some (None, Usage))"

section \<open>The cyclic redundancy code\<close>

text \<open>One step of the shift register with the generator polynomial 0x04C11DB7, bit by bit.\<close>

definition lfsr :: "u32 \<Rightarrow> u32" where
  "lfsr x = push_bit 1 x XOR (if bit x 31 then 0x04C11DB7 else 0)"

text \<open>Eight steps from a register whose high byte is \<open>i\<close>.\<close>

definition byte_code :: "nat \<Rightarrow> u32" where
  "byte_code i = (lfsr ^^ 8) (push_bit 24 (of_nat i))"

definition crc_bits :: "u32 \<Rightarrow> u8 \<Rightarrow> u32" where
  "crc_bits crc x = (lfsr ^^ 8) (crc XOR push_bit 24 (ucast x))"

lemma lfsr_xor: "lfsr (x XOR y) = lfsr x XOR lfsr y"
  by (auto simp: lfsr_def bit_simps push_bit_xor xor.assoc xor.left_commute)

lemma lfsr_pow_xor: "(lfsr ^^ n) (x XOR y) = (lfsr ^^ n) x XOR (lfsr ^^ n) y"
  by (induction n) (simp_all add: lfsr_xor)

lemma lfsr_zero: "lfsr z = 0 \<Longrightarrow> z = 0"
proof -
  assume z: "lfsr z = 0"
  have "bit (lfsr z) 0 = bit z 31" by (simp add: lfsr_def bit_simps bit_0 even_xor_iff)
  with z have top: "\<not> bit z 31" by simp
  with z have p: "push_bit 1 z = 0" by (simp add: lfsr_def del: push_bit_of_1)
  show "z = 0"
  proof (rule bit_word_eqI)
    fix n assume "n < LENGTH(32)"
    then have "n < 31 \<or> n = 31" by auto
    moreover have "bit (push_bit 1 z) (Suc n) \<longleftrightarrow> bit z n" if "n < 31"
      using that by (simp only: bit_push_bit_iff) simp
    moreover have "\<not> bit (push_bit 1 z) (Suc n)" unfolding p by simp
    ultimately show "bit z n \<longleftrightarrow> bit 0 n" using top by auto
  qed
qed

lemma lfsr_inj: "lfsr x = lfsr y \<Longrightarrow> x = y"
proof -
  assume "lfsr x = lfsr y"
  then have "lfsr (x XOR y) = 0" by (simp add: lfsr_xor)
  then have "x XOR y = 0" by (rule lfsr_zero)
  then show "x = y" by (metis xor.assoc xor.right_neutral xor_self_eq)
qed

lemma lfsr_pow_inj: "(lfsr ^^ n) x = (lfsr ^^ n) y \<Longrightarrow> x = y"
  by (induction n) (auto dest: lfsr_inj)

text \<open>The table is the eight-fold step on the high byte; it is built by doubling from its eight basis entries.\<close>

definition dbl :: "u32 list \<Rightarrow> u32 \<Rightarrow> u32 list" where
  "dbl t c = t @ map (\<lambda>x. x XOR c) t"

lemma map_dbl:
  assumes "\<And>i. i < m \<Longrightarrow> f (m + i) = f i XOR c"
  shows "map f [0..<2 * m] = dbl (map f [0..<m]) c"
proof -
  have "[0..<2 * m] = [0..<m] @ map (\<lambda>i. i + m) [0..<m]"
    unfolding map_add_upt mult_2 by (rule upt_add_eq_append) simp
  moreover have "map (\<lambda>i. f (i + m)) [0..<m] = map (\<lambda>x. x XOR c) (map f [0..<m])" using assms by (simp add: add.commute)
  ultimately show ?thesis by (simp add: dbl_def comp_def)
qed

lemma byte_code_add:
  assumes "i < 2 ^ k"
  shows "byte_code (2 ^ k + i) = byte_code i XOR byte_code (2 ^ k)"
proof -
  have "\<not> bit i k" using assms by (simp add: bit_iff_odd)
  then have "i AND 2 ^ k = 0" by (intro bit_eqI) (auto simp: bit_simps)
  then have "2 ^ k + i = i XOR 2 ^ k" by (simp add: disjunctive_add_eq_xor add.commute)
  then have "(of_nat (2 ^ k + i) :: u32) = of_nat i XOR of_nat (2 ^ k)" by (simp only: of_nat_xor_eq)
  then show ?thesis by (simp only: byte_code_def push_bit_xor lfsr_pow_xor)
qed

lemma table_dbl: "m = 2 ^ k \<Longrightarrow> map byte_code [0..<2 * m] = dbl (map byte_code [0..<m]) (byte_code m)"
  by (rule map_dbl) (simp add: byte_code_add)

lemma lfsr8: "(lfsr ^^ 8) x = lfsr (lfsr (lfsr (lfsr (lfsr (lfsr (lfsr (lfsr x)))))))"
  by (simp add: eval_nat_numeral)

lemma basis:
  "byte_code 0 = 0" "byte_code 1 = 0x04C11DB7"
  "byte_code 2 = 0x09823B6E" "byte_code 4 = 0x130476DC"
  "byte_code 8 = 0x2608EDB8" "byte_code 16 = 0x4C11DB70"
  "byte_code 32 = 0x9823B6E0" "byte_code 64 = 0x34867077"
  "byte_code 128 = 0x690CE0EE"
  by (simp_all add: byte_code_def lfsr8 lfsr_def)

lemma table_eq: "map byte_code [0..<256] =
  dbl (dbl (dbl (dbl (dbl (dbl (dbl (dbl [0] 0x04C11DB7) 0x09823B6E) 0x130476DC) 0x2608EDB8)
    0x4C11DB70) 0x9823B6E0) 0x34867077) 0x690CE0EE"
proof -
  have 0: "map byte_code [0..<1] = [0]" using basis(1) by simp
  have 1: "map byte_code [0..<2] = dbl (map byte_code [0..<1]) 0x04C11DB7"
    using table_dbl [of 1 0] basis(2) by (simp del: upt_rec_numeral)
  have 2: "map byte_code [0..<4] = dbl (map byte_code [0..<2]) 0x09823B6E"
    using table_dbl [of 2 1] basis(3) by (simp del: upt_rec_numeral)
  have 3: "map byte_code [0..<8] = dbl (map byte_code [0..<4]) 0x130476DC"
    using table_dbl [of 4 2] basis(4) by (simp del: upt_rec_numeral)
  have 4: "map byte_code [0..<16] = dbl (map byte_code [0..<8]) 0x2608EDB8"
    using table_dbl [of 8 3] basis(5) by (simp del: upt_rec_numeral)
  have 5: "map byte_code [0..<32] = dbl (map byte_code [0..<16]) 0x4C11DB70"
    using table_dbl [of 16 4] basis(6) by (simp del: upt_rec_numeral)
  have 6: "map byte_code [0..<64] = dbl (map byte_code [0..<32]) 0x9823B6E0"
    using table_dbl [of 32 5] basis(7) by (simp del: upt_rec_numeral)
  have 7: "map byte_code [0..<128] = dbl (map byte_code [0..<64]) 0x34867077"
    using table_dbl [of 64 6] basis(8) by (simp del: upt_rec_numeral)
  have 8: "map byte_code [0..<256] = dbl (map byte_code [0..<128]) 0x690CE0EE"
    using table_dbl [of 128 7] basis(9) by (simp del: upt_rec_numeral)
  show ?thesis unfolding 8 7 6 5 4 3 2 1 0 ..
qed

lemma crctab_eq: "crctab = map byte_code [0..<256]"
  unfolding table_eq crctab_def dbl_def by simp

lemma crctab_nth: "i < 256 \<Longrightarrow> crctab ! i = byte_code i"
  by (simp add: crctab_eq del: upt_rec_numeral)

text \<open>Bits that do not reach the top are only shifted.\<close>

lemma lfsr_pow_low: "(\<And>i. 32 - n \<le> i \<Longrightarrow> \<not> bit x i) \<Longrightarrow> n \<le> 32 \<Longrightarrow> (lfsr ^^ n) x = push_bit n x"
proof (induction n)
  case (Suc n)
  then have "(lfsr ^^ n) x = push_bit n x" by simp
  moreover have "\<not> bit (push_bit n x) 31" using Suc.prems by (simp add: bit_simps)
  moreover have "push_bit 1 (push_bit n x) = push_bit (Suc n) x" by (simp only: push_bit_push_bit) simp
  ultimately show ?case by (simp only: funpow.simps comp_def) (simp only: lfsr_def if_False xor.right_neutral)
qed simp

text \<open>The step with the table is eight steps of the shift register.\<close>

lemma crc_step_bits: "crc_step crc x = crc_bits crc x"
proof -
  let ?i = "(drop_bit 24 crc XOR ucast x) AND 0xFF"
  have m: "(0xFF :: u32) = mask 8" by (simp add: mask_eq_exp_minus_1)
  have "unat ?i < 256"
  proof -
    have "?i \<le> 0xFF" by (rule word_and_le1)
    then show ?thesis by (simp add: word_le_nat_alt)
  qed
  then have "crctab ! unat ?i = (lfsr ^^ 8) (push_bit 24 ?i)" by (simp add: crctab_nth byte_code_def)
  moreover have "(lfsr ^^ 8) (crc AND mask 24) = push_bit 8 (crc AND mask 24)"
    by (rule lfsr_pow_low) (auto simp: bit_simps)
  moreover have "push_bit 8 (crc AND mask 24) = push_bit 8 crc"
    by (rule bit_word_eqI) (auto simp: bit_simps)
  moreover have "crc XOR push_bit 24 (ucast x) = (crc AND mask 24) XOR push_bit 24 ?i"
    unfolding m by (rule bit_word_eqI) (auto simp: bit_simps dest: bit_imp_le_length)
  ultimately show ?thesis by (simp only: crc_step_def crc_bits_def lfsr_pow_xor)
qed

lemma xor_cancel: "a XOR c = b XOR c \<Longrightarrow> a = (b :: u32)"
proof -
  assume "a XOR c = b XOR c"
  then have "(a XOR c) XOR c = (b XOR c) XOR c" by simp
  then show "a = b" by (simp only: xor.assoc xor_self_eq xor.right_neutral)
qed

lemma xor_cancel_left: "c XOR a = c XOR b \<Longrightarrow> a = (b :: u32)"
  using xor_cancel [of a c b] by (metis xor.commute)

text \<open>Neither the register nor the byte can change without changing the result.\<close>

lemma crc_step_inj: "crc_step c x = crc_step d x \<Longrightarrow> c = d"
proof -
  assume "crc_step c x = crc_step d x"
  then have "c XOR push_bit 24 (ucast x) = d XOR push_bit 24 (ucast x)"
    unfolding crc_step_bits crc_bits_def by (rule lfsr_pow_inj)
  then show "c = d" by (rule xor_cancel)
qed

lemma crc_step_byte_inj: "crc_step c x = crc_step c y \<Longrightarrow> x = y"
proof -
  assume "crc_step c x = crc_step c y"
  then have "c XOR push_bit 24 (ucast x) = c XOR push_bit 24 (ucast y)"
    unfolding crc_step_bits crc_bits_def by (rule lfsr_pow_inj)
  then have p: "push_bit 24 (ucast x :: u32) = push_bit 24 (ucast y)" by (rule xor_cancel_left)
  show "x = y"
  proof (rule bit_word_eqI)
    fix n assume "n < LENGTH(8)"
    then have "n < 8" by simp
    moreover have "bit (push_bit 24 (ucast x :: u32)) (24 + n) = bit (push_bit 24 (ucast y :: u32)) (24 + n)" using p by simp
    ultimately show "bit x n = bit y n" by (simp add: bit_simps)
  qed
qed

lemma foldl_step_inj: "foldl crc_step c xs = foldl crc_step d xs \<Longrightarrow> c = d"
  by (induction xs arbitrary: c d) (auto dest: crc_step_inj)

lemma crc_length_inj: "crc_length c n = crc_length d n \<Longrightarrow> c = d"
proof (induction c n arbitrary: d rule: crc_length.induct)
  case (1 c n)
  show ?case
  proof (cases "n = 0")
    case True
    with 1(2) show ?thesis by (simp add: crc_length.simps)
  next
    case False
    with 1(2) have "crc_length (crc_step c (ucast n)) (drop_bit 8 n) = crc_length (crc_step d (ucast n)) (drop_bit 8 n)"
      by (simp add: crc_length.simps [of c] crc_length.simps [of d])
    from 1(1) [OF False this] show ?thesis by (rule crc_step_inj)
  qed
qed

text \<open>The length is folded in byte by byte, the low byte first, without leading zeros.\<close>

fun length_octets :: "nat \<Rightarrow> bytes" where
  "length_octets n = (if n = 0 then [] else of_nat n # length_octets (n div 256))"

declare length_octets.simps [simp del]

lemma crc_length_octets: "crc_length c n = foldl crc_step c (length_octets (unat n))"
proof (induction c n rule: crc_length.induct)
  case (1 c n)
  show ?case
  proof (cases "n = 0")
    case True
    then show ?thesis by (simp add: crc_length.simps length_octets.simps)
  next
    case False
    moreover have "unat (drop_bit 8 n) = unat n div 256" by (simp add: drop_bit_eq_div unat_div)
    moreover have "(of_nat (unat n) :: u8) = ucast n" by simp
    ultimately show ?thesis using 1 [OF False]
      by (simp add: crc_length.simps [of c] length_octets.simps [of "unat n"] unat_eq_0)
  qed
qed

section \<open>The sum of a file\<close>

text \<open>The checksum as POSIX defines it for \<^verbatim>\<open>cksum\<close>: bit by bit over the data and the octets of the length.\<close>

definition posix_cksum :: "bytes \<Rightarrow> u32" where
  "posix_cksum d = NOT (foldl crc_bits 0 (d @ length_octets (length d)))"

lemma foldl_step_bits: "foldl crc_step c xs = foldl crc_bits c xs"
  by (induction xs arbitrary: c) (simp_all add: crc_step_bits)

lemma and_all_ones: "w AND 0xFFFFFFFF = (w :: u32)"
proof -
  have "(0xFFFFFFFF :: u32) = - 1" by simp
  then show ?thesis by (simp only: and.right_neutral)
qed

lemma length_fold:
  "unat n = length d \<Longrightarrow> NOT (crc_length (foldl crc_step 0 d) n) AND 0xFFFFFFFF = posix_cksum d"
  unfolding and_all_ones posix_cksum_def by (simp add: crc_length_octets foldl_step_bits)

lemma unat_of_nat_u64: "n < 2 ^ 64 \<Longrightarrow> unat (of_nat n :: u64) = n"
  by (simp add: unat_of_nat take_bit_eq_mod)

text \<open>The number of bytes that the loop takes from the rest of the file.\<close>

definition taken :: "bytes \<Rightarrow> bool \<Rightarrow> nat" where
  "taken f tagged = (if tagged \<and> length f mod BUFLEN \<noteq> 0 then length f - 8 else length f)"

lemma calc_loop_result:
  assumes "unat len + length rest < 2 ^ 64" "tagged \<Longrightarrow> length rest mod BUFLEN = 0 \<or> 8 \<le> length rest mod BUFLEN"
  shows "calc_loop rest crc len tagged =
    Some (Some (foldl crc_step crc (take (taken rest tagged) rest), len + of_nat (taken rest tagged)))"
  using assms
proof (induction rest crc len tagged rule: calc_loop.induct)
  case (1 rest crc len tagged)
  let ?n = "min BUFLEN (length rest)"
  show ?case
  proof (cases "rest = []")
    case True
    then show ?thesis by (simp add: calc_loop.simps taken_def)
  next
    case False
    have u: "unat (of_nat m :: u64) = m" if "m \<le> length rest" for m
      using that 1(2) by (intro unat_of_nat_u64) simp
    have add: "unat (len + of_nat m) = unat len + m" if "m \<le> length rest" for m
      using u [OF that] that 1(2) by (simp add: unat_word_ariths)
    have nw: "\<not> len + of_nat ?n < len" using add [of ?n] by (simp add: word_less_nat_alt)
    show ?thesis
    proof (cases "length rest < BUFLEN")
      case True
      then have n: "?n = length rest" "length rest mod BUFLEN = length rest" by simp_all
      with 1(3) False have "tagged \<Longrightarrow> 8 \<le> length rest" by auto
      with n False nw True show ?thesis
        by (subst calc_loop.simps) (auto simp: Let_def calc_loop.simps [of "[]"] taken_def)
    next
      case big: False
      then have n: "?n = BUFLEN" by simp
      have m: "length (drop BUFLEN rest) mod BUFLEN = length rest mod BUFLEN"
        using big by (simp add: le_mod_geq)
      have pre: "unat (len + of_nat BUFLEN) + length (drop BUFLEN rest) < 2 ^ 64"
        "tagged \<Longrightarrow> length (drop BUFLEN rest) mod BUFLEN = 0 \<or> 8 \<le> length (drop BUFLEN rest) mod BUFLEN"
        using add [of BUFLEN] big 1(2,3) unfolding m by simp_all
      have ih: "calc_loop (drop BUFLEN rest) (foldl crc_step crc (take BUFLEN rest)) (len + of_nat BUFLEN) tagged =
        Some (Some (foldl crc_step (foldl crc_step crc (take BUFLEN rest))
            (take (taken (drop BUFLEN rest) tagged) (drop BUFLEN rest)),
          len + of_nat BUFLEN + of_nat (taken (drop BUFLEN rest) tagged)))"
        using 1(1) [OF False refl refl, unfolded n] nw n pre by simp
      have t: "taken rest tagged = BUFLEN + taken (drop BUFLEN rest) tagged"
      proof -
        have "8 \<le> length rest - BUFLEN" if "tagged" "length rest mod BUFLEN \<noteq> 0"
          using pre(2) that m mod_less_eq_dividend [of "length rest - BUFLEN" BUFLEN] by simp
        with big m show ?thesis by (auto simp: taken_def)
      qed
      have "take (taken rest tagged) rest = take BUFLEN rest @ take (taken (drop BUFLEN rest) tagged) (drop BUFLEN rest)"
        unfolding t by (simp only: take_add)
      with ih n nw False show ?thesis
        by (subst calc_loop.simps) (simp add: Let_def t add.assoc)
    qed
  qed
qed

lemma calc_loop_overrun:
  assumes "unat len + length rest < 2 ^ 64" "length rest mod BUFLEN \<noteq> 0" "length rest mod BUFLEN < 8"
  shows "calc_loop rest crc len True = None"
  using assms
proof (induction "length rest" arbitrary: rest crc len rule: less_induct)
  case less
  let ?n = "min BUFLEN (length rest)"
  have ne: "rest \<noteq> []" using less(3) by auto
  have u: "unat (of_nat ?n :: u64) = ?n" using less(2) by (intro unat_of_nat_u64) simp
  have add: "unat (len + of_nat ?n) = unat len + ?n" using u less(2) by (simp add: unat_word_ariths)
  have nw: "\<not> len + of_nat ?n < len" using add by (simp add: word_less_nat_alt)
  show ?case
  proof (cases "length rest < BUFLEN")
    case True
    then have "?n = length rest" "length rest mod BUFLEN = length rest" by simp_all
    with less(4) ne nw show ?thesis by (subst calc_loop.simps) (simp add: Let_def)
  next
    case False
    then have n: "?n = BUFLEN" by simp
    have m: "length (drop BUFLEN rest) mod BUFLEN = length rest mod BUFLEN" using False by (simp add: le_mod_geq)
    have "calc_loop (drop BUFLEN rest) (foldl crc_step crc (take BUFLEN rest)) (len + of_nat BUFLEN) True = None"
      using less(1) [of "drop BUFLEN rest" "len + of_nat BUFLEN"] False add n less(2-4) ne unfolding m by simp
    with n nw ne show ?thesis by (subst calc_loop.simps) (simp add: Let_def)
  qed
qed

lemma calc_sum_result:
  assumes "length f < 2 ^ 64" "tagged \<Longrightarrow> length f mod BUFLEN = 0 \<or> 8 \<le> length f mod BUFLEN"
  shows "cs_calc_sum False f tagged = Some (Some (posix_cksum (take (taken f tagged) f)))"
proof -
  have t: "taken f tagged \<le> length f" by (simp add: taken_def)
  then have "unat (of_nat (taken f tagged) :: u64) = length (take (taken f tagged) f)"
    using assms(1) by (subst unat_of_nat_u64) simp_all
  from length_fold [OF this] calc_loop_result [of 0 f tagged 0] assms show ?thesis
    by (simp add: cs_calc_sum_def)
qed

lemma posix_cksum_update:
  assumes "i < length f" "v \<noteq> f ! i"
  shows "posix_cksum (f[i := v]) \<noteq> posix_cksum f"
proof
  let ?a = "take i f" and ?b = "drop (Suc i) f @ length_octets (length f)"
  assume "posix_cksum (f[i := v]) = posix_cksum f"
  moreover have "f[i := v] = ?a @ v # drop (Suc i) f" using assms(1) by (simp add: upd_conv_take_nth_drop)
  moreover have "f = ?a @ f ! i # drop (Suc i) f" using assms(1) by (simp add: id_take_nth_drop)
  ultimately have "foldl crc_bits 0 (?a @ v # ?b) = foldl crc_bits 0 (?a @ f ! i # ?b)"
    unfolding posix_cksum_def by (metis append_Cons append_assoc bit.compl_eq_compl_iff length_list_update)
  then have "foldl crc_step (crc_step (foldl crc_step 0 ?a) v) ?b = foldl crc_step (crc_step (foldl crc_step 0 ?a) (f ! i)) ?b"
    unfolding foldl_step_bits [symmetric] by simp
  then have "v = f ! i" by (blast dest: foldl_step_inj crc_step_byte_inj)
  with assms(2) show False by simp
qed

text \<open>The tag and its fields.\<close>

definition tag :: "u32 \<Rightarrow> bytes" where
  "tag s = le32 MAGIC_NUMBER @ le32 s"

lemma length_tag [simp]: "length (tag s) = 8"
  by (simp add: tag_def)

lemma tag_fields:
  "last8 (f @ tag s) = Some (tag s)" "cs_is_tagged (f @ tag s) = Some True" "cs_get_sum (f @ tag s) = Some s"
proof -
  show l: "last8 (f @ tag s) = Some (tag s)" by (simp add: last8_def)
  have "rd32 (tag s) 0 = Some MAGIC_NUMBER" using rd32_le32 [of "[]" MAGIC_NUMBER "le32 s"] by (simp add: tag_def)
  with l show "cs_is_tagged (f @ tag s) = Some True" by (simp add: cs_is_tagged_def)
  have "rd32 (tag s) 4 = Some s" using rd32_le32 [of "le32 MAGIC_NUMBER" s "[]"] by (simp add: tag_def)
  with l show "cs_get_sum (f @ tag s) = Some s" by (simp add: cs_get_sum_def)
qed

lemma set_sum_appends: "4 \<le> w1 \<Longrightarrow> 4 \<le> w2 \<Longrightarrow> cs_set_sum w1 w2 f s False = Some (f @ tag s, True)"
  by (simp add: cs_set_sum_def fput_def tag_def)

lemma verify_tag:
  assumes "length g < 2 ^ 63" "8 \<le> (length g + 8) mod BUFLEN" "files name = Some (g @ tag s)" "\<not> ck_ferror io"
  shows "ck_main io [name] files = Some (Some (g @ tag s), Verified (posix_cksum g) s (posix_cksum g = s))"
proof -
  have "taken (g @ tag s) True = length g" using assms(2) by (simp add: taken_def)
  with calc_sum_result [of "g @ tag s" True] assms(1,2) have
    "cs_calc_sum False (g @ tag s) True = Some (Some (posix_cksum g))" by simp
  with assms(3,4) show ?thesis by (simp add: ck_main_def tag_fields)
qed

section \<open>Properties\<close>

text \<open>C6: The table-driven sum of a file without tag and of a buffer is the POSIX checksum, computed bit by
  bit with the generator polynomial over the data followed by the octets of its length.\<close>

theorem checksum_is_posix:
  assumes "length f < 2 ^ 31"
  shows "cs_calc_sum False f False = Some (Some (posix_cksum f)) \<and>
    cs_calc_buf_sum f (int (length f)) = Some (posix_cksum f)"
proof (intro conjI)
  have t: "taken f False = length f" by (simp add: taken_def)
  show "cs_calc_sum False f False = Some (Some (posix_cksum f))"
    using calc_sum_result [of f False] assms t by simp
  have "unat (of_nat (length f) :: u32) = length f" using assms by (simp add: unat_of_nat take_bit_eq_mod)
  then have "unat (ucast (of_int (int (length f)) :: u32) :: u64) = length f"
    using assms by (simp add: unsigned_ucast_eq take_bit_nat_eq_self)
  from length_fold [OF this] show "cs_calc_buf_sum f (int (length f)) = Some (posix_cksum f)"
    by (simp add: cs_calc_buf_sum_def rd_n_def)
qed

theorem checksum_is_posix_witness:
  "cs_calc_sum False [] False = Some (Some (posix_cksum [])) \<and> cs_calc_buf_sum [7] 1 = Some (posix_cksum [7])"
  using checksum_is_posix [of "[]"] checksum_is_posix [of "[7]"] by simp

text \<open>C19: The program adds a tag to a file that has none; run again on the result it confirms the
  checksum, and after any change of a single byte of the data it reports a mismatch.  This is for files shorter
  than \<open>2 ^ 63\<close> bytes whose length with the tag leaves at least eight bytes in the last, partial block of 65536
  bytes, so that the tag does not cross or fill a block, and for runs in which reading does not fail and
  both writes of the tag store all four bytes.\<close>

theorem tagged_file_verifies:
  assumes "length f < 2 ^ 63" "8 \<le> (length f + 8) mod BUFLEN" "cs_is_tagged f = Some False"
    and "files name = Some f" "\<not> ck_ferror io" "4 \<le> ck_w1 io" "4 \<le> ck_w2 io"
  shows "\<exists>s. ck_main io [name] files = Some (Some (f @ tag s), Added s True) \<and>
    ck_main io [name] (files(name := Some (f @ tag s))) = Some (Some (f @ tag s), Verified s s True) \<and>
    (\<forall>i v. i < length f \<longrightarrow> v \<noteq> f ! i \<longrightarrow> (\<exists>c. c \<noteq> s \<and>
       ck_main io [name] (files(name := Some (f[i := v] @ tag s))) = Some (Some (f[i := v] @ tag s), Verified c s False)))"
proof (rule exI [of _ "posix_cksum f"], intro conjI allI impI)
  let ?s = "posix_cksum f"
  have "taken f False = length f" by (simp add: taken_def)
  with calc_sum_result [of f False] assms(1) have "cs_calc_sum False f False = Some (Some ?s)" by simp
  with assms(3-7) show "ck_main io [name] files = Some (Some (f @ tag ?s), Added ?s True)"
    by (simp add: ck_main_def set_sum_appends)
  show "ck_main io [name] (files(name := Some (f @ tag ?s))) = Some (Some (f @ tag ?s), Verified ?s ?s True)"
    using verify_tag [of f] assms(1,2,5) by simp
  fix i v assume i: "i < length f" "v \<noteq> f ! i"
  show "\<exists>c. c \<noteq> ?s \<and> ck_main io [name] (files(name := Some (f[i := v] @ tag ?s))) =
      Some (Some (f[i := v] @ tag ?s), Verified c ?s False)"
    using posix_cksum_update [OF i] verify_tag [of "f[i := v]"] assms(1,2,5)
    by (intro exI [of _ "posix_cksum (f[i := v])"]) simp
qed

theorem tagged_file_verifies_witness:
  "\<exists>s. ck_main \<lparr>ck_ferror = False, ck_w1 = 4, ck_w2 = 4\<rparr> [[1]] (\<lambda>_. Some [0, 0, 0, 0, 0, 0, 0, 0, 0]) =
    Some (Some ([0, 0, 0, 0, 0, 0, 0, 0, 0] @ tag s), Added s True)"
proof -
  have "cs_is_tagged [0, 0, 0, 0, 0, 0, 0, 0, 0] = Some False"
    by (simp add: cs_is_tagged_def last8_def rd32_def rd_def of_le32_def)
  then show ?thesis
    using tagged_file_verifies [of "[0, 0, 0, 0, 0, 0, 0, 0, 0]" "\<lambda>_. Some [0, 0, 0, 0, 0, 0, 0, 0, 0]" "[1]" "\<lparr>ck_ferror = False, ck_w1 = 4, ck_w2 = 4\<rparr>"]
    by auto
qed

text \<open>C39: The sum of a tagged file, in full: it leaves the tag out only if the last block of 65536 bytes is
  short and holds the whole tag.  If the file ends with a block boundary the tag is part of the sum;
  if a boundary cuts the tag the loop runs out of its buffer.\<close>

theorem tagged_sum:
  assumes "length f < 2 ^ 64"
  shows "cs_calc_sum False f True =
    (if length f mod BUFLEN = 0 then Some (Some (posix_cksum f))
     else if length f mod BUFLEN < 8 then None
     else Some (Some (posix_cksum (take (length f - 8) f))))"
proof (cases "length f mod BUFLEN = 0 \<or> 8 \<le> length f mod BUFLEN")
  case True
  then show ?thesis using calc_sum_result [of f True] assms by (auto simp: taken_def)
next
  case False
  then show ?thesis using calc_loop_overrun [of 0 f 0] assms by (simp add: cs_calc_sum_def)
qed

theorem tagged_sum_witness: "cs_calc_sum False (replicate 65539 0) True = None"
  using tagged_sum [of "replicate 65539 0"] by simp

end
