(* ===== verification/Dns_Message.thy ===== *)
theory Dns_Message
  imports C_Lib
begin

text \<open>
  The messages of the DNS proxy \<^verbatim>\<open>src/dproxy-nexgen\<close>: the structures of \<^verbatim>\<open>dns.h\<close>, decoding
  (\<^verbatim>\<open>dns_decode.c\<close>) and construction (\<^verbatim>\<open>dns_construct.c\<close>).

  The fixed arrays of the structures are byte lists of their size.  The proxy reuses one
  structure for all packets, so the fields that a packet does not set keep their old contents;
  every decoding function takes the old value and returns the new one.  A pointer into the packet is
  its offset in \<^verbatim>\<open>original_buf\<close>; \<^verbatim>\<open>here\<close> is such an offset and local to the functions, and the field \<^verbatim>\<open>ttl\<close> of
  a request is never used.  \<^verbatim>\<open>char\<close> is signed: a label length or a compression offset above 127 is
  negative.
\<close>

section \<open>Structures\<close>

abbreviation (input) NAME_SIZE :: nat where "NAME_SIZE \<equiv> 255"
abbreviation (input) MAX_PACKET_SIZE :: nat where "MAX_PACKET_SIZE \<equiv> 512"
abbreviation (input) NUM_RRS :: nat where "NUM_RRS \<equiv> 5"
abbreviation (input) TYPE_A :: u16 where "TYPE_A \<equiv> 1"
abbreviation (input) TYPE_PTR :: u16 where "TYPE_PTR \<equiv> 12"
abbreviation (input) TYPE_AAA :: u16 where "TYPE_AAA \<equiv> 0x1c"
abbreviation (input) CLASS_IN :: u16 where "CLASS_IN \<equiv> 1"
abbreviation (input) DNS_NO_ERROR :: u16 where "DNS_NO_ERROR \<equiv> 0"
abbreviation (input) DNS_FMT_ERROR :: u16 where "DNS_FMT_ERROR \<equiv> 1"
abbreviation (input) DNS_NAME_ERR :: u16 where "DNS_NAME_ERR \<equiv> 3"

record dns_rr =
  rr_name :: bytes
  rr_type :: u16
  rr_class :: u16
  rr_ttl :: u32
  rr_rdatalen :: u16
  rr_data :: bytes

record dns_header_s =
  h_id :: u16
  h_flags :: u16
  h_qdcount :: u16
  h_ancount :: u16
  h_nscount :: u16
  h_arcount :: u16

record dns_message =
  dm_header :: dns_header_s
  dm_question :: "dns_rr list"
  dm_answer :: "dns_rr list"

type_synonym node = nat

text \<open>The field \<^verbatim>\<open>ttl\<close> of the source is never used; \<^verbatim>\<open>here\<close> is a cursor that is set anew before each use.\<close>

record dns_request_t =
  q_cname :: bytes
  q_ip :: bytes
  q_cache :: bool
  q_time_pending :: int
  q_message :: dns_message
  q_src_addr :: u32
  q_src_port :: u16
  q_original_buf :: bytes
  q_numread :: int
  q_next :: "node option"

text \<open>The bit fields of \<^verbatim>\<open>union header_flags\<close>, allocated from the low end.\<close>

definition flags_rcode :: "u16 \<Rightarrow> u16" where
  "flags_rcode f = f AND 0xF"

definition flags_authorative :: "u16 \<Rightarrow> bool" where
  "flags_authorative f = bit f 10"

definition flags_question :: "u16 \<Rightarrow> bool" where
  "flags_question f = bit f 15"

definition set_flags_question :: "u16 \<Rightarrow> u16" where
  "set_flags_question f = f OR 0x8000"

definition set_flags_rcode :: "u16 \<Rightarrow> u16 \<Rightarrow> u16" where
  "set_flags_rcode v f = (f AND 0xFFF0) OR v"

text \<open>The sizes that the declarations fix.\<close>

definition wf_rr :: "dns_rr \<Rightarrow> bool" where
  "wf_rr r \<longleftrightarrow> length (rr_name r) = NAME_SIZE \<and> length (rr_data r) = NAME_SIZE"

definition wf_request :: "dns_request_t \<Rightarrow> bool" where
  "wf_request m \<longleftrightarrow> length (q_cname m) = NAME_SIZE \<and> length (q_ip m) = 20 \<and>
     length (q_original_buf m) = MAX_PACKET_SIZE \<and>
     length (dm_question (q_message m)) = NUM_RRS \<and> list_all wf_rr (dm_question (q_message m)) \<and>
     length (dm_answer (q_message m)) = NUM_RRS \<and> list_all wf_rr (dm_answer (q_message m))"

abbreviation question0 :: "dns_request_t \<Rightarrow> dns_rr" where
  "question0 m \<equiv> dm_question (q_message m) ! 0"

section \<open>Decoding\<close>

definition rd_be16 :: "bytes \<Rightarrow> nat \<Rightarrow> u16 option" where
  "rd_be16 buf pos = map_option htons (rd16 buf pos)"

definition rd_be32 :: "bytes \<Rightarrow> nat \<Rightarrow> u32 option" where
  "rd_be32 buf pos = map_option htonl (rd32 buf pos)"

text \<open>\<^verbatim>\<open>for (j = 0; j < n; i++) if (name[i] == '.') j++;\<close>, which does not stop at a NUL.\<close>

function skip_dots :: "bytes \<Rightarrow> nat \<Rightarrow> nat \<Rightarrow> nat option" where
  "skip_dots name n i =
     (if n = 0 then Some i
      else if i < length name then skip_dots name (if name ! i = 46 then n - 1 else n) (i + 1)
      else None)"
  by auto
termination
  by (relation "measure (\<lambda>(name, n, i). length name - i)") auto

declare skip_dots.simps [simp del]

text \<open>\<^verbatim>\<open>for (; name[i] != '.'; i++) temp[k++] = name[i];\<close> returns the characters that are copied.\<close>

definition until_dot :: "bytes \<Rightarrow> nat \<Rightarrow> bytes option" where
  "until_dot name i =
     (if 46 \<in> set (drop i name) then Some (takeWhile (\<lambda>c. c \<noteq> 46) (drop i name)) else None)"

definition dns_decode_reverse_name :: "bytes \<Rightarrow> bytes option" where
  "dns_decode_reverse_name name = do {
     i3 \<leftarrow> skip_dots name 3 0;
     t3 \<leftarrow> until_dot name i3;
     name1 \<leftarrow> wr name (i3 + length t3) 0;
     i2 \<leftarrow> skip_dots name1 2 0;
     t2 \<leftarrow> until_dot name1 i2;
     i1 \<leftarrow> skip_dots name1 1 0;
     t1 \<leftarrow> until_dot name1 i1;
     t0 \<leftarrow> until_dot name1 0;
     temp \<leftarrow> wr_n (replicate NAME_SIZE 0) 0 (t3 @ [46] @ t2 @ [46] @ t1 @ [46] @ t0 @ [0]);
     s \<leftarrow> c_string_at temp 0;
     wr_n name1 0 (s @ [0]) }"

text \<open>
  The loop of \<^verbatim>\<open>dns_decode_name\<close>; the result is the array, the write index and the read position at the
  final zero.
\<close>

function decode_labels :: "bytes \<Rightarrow> nat \<Rightarrow> bytes \<Rightarrow> nat \<Rightarrow> (bytes \<times> nat \<times> nat) option" where
  "decode_labels name k buf pos =
     (if pos < length buf then
        if buf ! pos = 0 then Some (name, k, pos)
        else
          let len = nat (sint (buf ! pos)) in do {
          t \<leftarrow> rd_n buf (pos + 1) len;
          name1 \<leftarrow> wr_n name k t;
          name2 \<leftarrow> wr name1 (k + len) 46;
          decode_labels name2 (k + len + 1) buf (pos + 1 + len) }
      else None)"
  by auto
termination
  by (relation "measure (\<lambda>(name, k, buf, pos). length buf - pos)") auto

declare decode_labels.simps [simp del]

text \<open>The name of the root has no label: its terminator is stored before the array.\<close>

definition dns_decode_name :: "bytes \<Rightarrow> bytes \<Rightarrow> nat \<Rightarrow> (bytes \<times> nat) option" where
  "dns_decode_name name buf pos = do {
     (name1, k, pos1) \<leftarrow> decode_labels name 0 buf pos;
     if k = 0 then None
     else do { name2 \<leftarrow> wr name1 (k - 1) 0; Some (name2, pos1 + 1) } }"

text \<open>The name of a resource record, plain or through an offset from the start of the message.\<close>

definition decode_rr_name :: "dns_rr \<Rightarrow> bytes \<Rightarrow> nat \<Rightarrow> (bytes \<times> nat) option" where
  "decode_rr_name rr buf pos = do {
     c \<leftarrow> rd buf pos;
     if c AND 0xC0 \<noteq> 0 then do {
       off \<leftarrow> rd buf (pos + 1);
       if sint off < 0 then None
       else do { (name, pos1) \<leftarrow> dns_decode_name (rr_name rr) buf (nat (sint off)); Some (name, pos + 2) } }
     else dns_decode_name (rr_name rr) buf pos }"

text \<open>The fields after the name; a question has no time to live and no data.\<close>

definition decode_rr_fields :: "dns_rr \<Rightarrow> bytes \<Rightarrow> nat \<Rightarrow> bool \<Rightarrow> (dns_rr \<times> nat) option" where
  "decode_rr_fields rr buf pos is_question = do {
     ty \<leftarrow> rd_be16 buf pos;
     cl \<leftarrow> rd_be16 buf (pos + 2);
     let rr1 = rr\<lparr>rr_type := ty, rr_class := cl\<rparr>;
     if is_question then Some (rr1, pos + 4)
     else do {
       ttl \<leftarrow> rd_be32 buf (pos + 4);
       len \<leftarrow> rd_be16 buf (pos + 8);
       d \<leftarrow> rd_n buf (pos + 10) (unat len);
       d' \<leftarrow> wr_n (rr_data rr) 0 d;
       Some (rr1\<lparr>rr_ttl := ttl, rr_rdatalen := len, rr_data := d'\<rparr>, pos + 10 + unat len) } }"

definition dns_decode_rr :: "dns_rr \<Rightarrow> bytes \<Rightarrow> nat \<Rightarrow> bool \<Rightarrow> (dns_rr \<times> nat) option" where
  "dns_decode_rr rr buf pos is_question = do {
     (name, pos1) \<leftarrow> decode_rr_name rr buf pos;
     (rr1, pos2) \<leftarrow> decode_rr_fields (rr\<lparr>rr_name := name\<rparr>) buf pos1 is_question;
     if rr_type rr1 = TYPE_PTR then do { name1 \<leftarrow> dns_decode_reverse_name (rr_name rr1); Some (rr1\<lparr>rr_name := name1\<rparr>, pos2) }
     else Some (rr1, pos2) }"

text \<open>The loops over the first \<open>n\<close> records of an array.\<close>

fun decode_rrs :: "nat \<Rightarrow> nat \<Rightarrow> dns_rr list \<Rightarrow> bytes \<Rightarrow> nat \<Rightarrow> bool \<Rightarrow> (dns_rr list \<times> nat) option" where
  "decode_rrs 0 i rrs buf pos is_question = Some (rrs, pos)"
| "decode_rrs (Suc n) i rrs buf pos is_question = do {
     rr \<leftarrow> rd rrs i;
     (rr', pos') \<leftarrow> dns_decode_rr rr buf pos is_question;
     rrs' \<leftarrow> wr rrs i rr';
     decode_rrs n (i + 1) rrs' buf pos' is_question }"

definition decode_header :: "bytes \<Rightarrow> dns_header_s option" where
  "decode_header buf = do {
     i \<leftarrow> rd_be16 buf 0; f \<leftarrow> rd_be16 buf 2; qd \<leftarrow> rd_be16 buf 4; an \<leftarrow> rd_be16 buf 6; ns \<leftarrow> rd_be16 buf 8; ar \<leftarrow> rd_be16 buf 10;
     Some \<lparr>h_id = i, h_flags = f, h_qdcount = qd, h_ancount = an, h_nscount = ns, h_arcount = ar\<rparr> }"

definition dns_decode_message :: "dns_message \<Rightarrow> bytes \<Rightarrow> dns_message option" where
  "dns_decode_message m buf = do {
     h \<leftarrow> decode_header buf;
     (qs, pos) \<leftarrow> decode_rrs (min (unat (h_qdcount h)) NUM_RRS) 0 (dm_question m) buf 12 True;
     (as, pos') \<leftarrow> decode_rrs (min (unat (h_ancount h)) NUM_RRS) 0 (dm_answer m) buf pos False;
     Some \<lparr>dm_header = h, dm_question = qs, dm_answer = as\<rparr> }"

text \<open>
  The answers in turn: the first one of the type of the question that holds an address or a name sets
  the fields of the request.
\<close>

definition copy_text :: "nat \<Rightarrow> bytes \<Rightarrow> bytes \<Rightarrow> bytes" where
  "copy_text n dst src = strncpy dst (takeWhile (\<lambda>c. c \<noteq> 0) src) n"

fun scan_answers :: "dns_rr list \<Rightarrow> dns_request_t \<Rightarrow> dns_request_t option" where
  "scan_answers [] m = Some m"
| "scan_answers (r # rs) m =
     (if rr_type (question0 m) = rr_type r then
        if rr_type r = TYPE_A \<or> rr_type r = TYPE_AAA then do {
          addr \<leftarrow> rd32 (rr_data r) 0;
          Some (m\<lparr>q_ip := copy_text 20 (q_ip m) (inet_ntoa addr), q_cache := True\<rparr>) }
        else if rr_type r = TYPE_PTR then do {
          (cname, ptr) \<leftarrow> dns_decode_name (q_cname m) (rr_data r) 0;
          Some (m\<lparr>q_cname := cname, q_ip := copy_text 20 (q_ip m) (rr_name r), q_cache := True\<rparr>) }
        else scan_answers rs m
      else scan_answers rs m)"

definition dns_decode_request :: "dns_request_t \<Rightarrow> dns_request_t option" where
  "dns_decode_request m = do {
     msg \<leftarrow> dns_decode_message (q_message m) (q_original_buf m);
     let m1 = m\<lparr>q_message := msg\<rparr>;
     let q = question0 m1;
     let m2 = (if rr_type q = TYPE_PTR then m1\<lparr>q_ip := copy_text 20 (q_ip m1) (rr_name q)\<rparr>
               else if rr_type q = TYPE_A \<or> rr_type q = TYPE_AAA
                 then m1\<lparr>q_cname := copy_text NAME_SIZE (q_cname m1) (rr_name q)\<rparr>
               else m1);
     scan_answers (take (min (unat (h_ancount (dm_header msg))) NUM_RRS) (dm_answer msg)) m2 }"

section \<open>Construction\<close>

text \<open>\<^verbatim>\<open>dns_construct_name\<close>: the bytes that are stored for a name without its NUL.\<close>

function construct_labels :: "bytes \<Rightarrow> bytes" where
  "construct_labels name =
     (if name = [] then []
      else
        let l = takeWhile (\<lambda>c. c \<noteq> 46) name; r = dropWhile (\<lambda>c. c \<noteq> 46) name in
        of_nat (length l) # l @ (if r = [] then [] else construct_labels (tl r)))"
  by auto
termination
proof (relation "measure length")
  fix name l r :: bytes
  assume a: "l = takeWhile (\<lambda>c. c \<noteq> 46) name" "r = dropWhile (\<lambda>c. c \<noteq> 46) name" "r \<noteq> []"
  then have "length (tl r) < length r" "length r \<le> length name" by (simp_all add: length_dropWhile_le)
  then show "(tl r, name) \<in> measure length" by simp
qed simp

declare construct_labels.simps [simp del]

definition dns_construct_name :: "bytes \<Rightarrow> bytes" where
  "dns_construct_name name = construct_labels name @ [0]"

text \<open>\<^verbatim>\<open>SET_UINT16_TO_N\<close> and \<^verbatim>\<open>SET_UINT32_TO_N\<close> store the bytes of the value in network order.\<close>

definition be16 :: "u16 \<Rightarrow> bytes" where
  "be16 v = le16 (htons v)"

definition be32 :: "u32 \<Rightarrow> bytes" where
  "be32 v = le32 (htonl v)"

definition header_bytes :: "dns_header_s \<Rightarrow> bytes" where
  "header_bytes h = be16 (h_id h) @ be16 (h_flags h) @ be16 (h_qdcount h) @ be16 (h_ancount h) @ be16 (h_nscount h) @ be16 (h_arcount h)"

definition dns_construct_header :: "dns_request_t \<Rightarrow> dns_request_t option" where
  "dns_construct_header m = do {
     b \<leftarrow> wr_n (q_original_buf m) 0 (header_bytes (dm_header (q_message m)));
     Some (m\<lparr>q_original_buf := b\<rparr>) }"

definition set_header :: "(dns_header_s \<Rightarrow> dns_header_s) \<Rightarrow> dns_request_t \<Rightarrow> dns_request_t" where
  "set_header f m = m\<lparr>q_message := (q_message m)\<lparr>dm_header := f (dm_header (q_message m))\<rparr>\<rparr>"

text \<open>Bytes added at the end of the packet.  Before its start or past its end there is no array.\<close>

definition append_bytes :: "bytes \<Rightarrow> dns_request_t \<Rightarrow> dns_request_t option" where
  "append_bytes d m =
     (if q_numread m < 0 then None
      else do {
        b \<leftarrow> wr_n (q_original_buf m) (nat (q_numread m)) d;
        Some (m\<lparr>q_original_buf := b, q_numread := q_numread m + int (length d)\<rparr>) })"

definition answer_head :: "u16 \<Rightarrow> bytes" where
  "answer_head ty = be16 0xc00c @ be16 ty @ be16 CLASS_IN @ be32 10000"

definition dns_construct_reply :: "dns_request_t \<Rightarrow> dns_request_t option" where
  "dns_construct_reply m = do {
     m1 \<leftarrow> dns_construct_header (set_header (\<lambda>h. h\<lparr>h_ancount := 1, h_flags := set_flags_question (h_flags h)\<rparr>) m);
     if rr_type (question0 m1) = TYPE_A then do {
       s \<leftarrow> c_string_at (q_ip m1) 0;
       addr \<leftarrow> inet_aton s;
       append_bytes (answer_head TYPE_A @ be16 4 @ le32 addr) m1 }
     else if rr_type (question0 m1) = TYPE_PTR then do {
       s \<leftarrow> c_string_at (q_cname m1) 0;
       append_bytes (answer_head TYPE_PTR @ be16 (of_nat (length (dns_construct_name s))) @ dns_construct_name s) m1 }
     else Some m1 }"

definition dns_construct_error_reply :: "dns_request_t \<Rightarrow> dns_request_t option" where
  "dns_construct_error_reply m =
     dns_construct_header (set_header (\<lambda>h. h\<lparr>h_flags := set_flags_rcode 2 (set_flags_question (h_flags h))\<rparr>) m)"

section \<open>Names\<close>

text \<open>A name as the list of its labels.\<close>

fun dotted :: "bytes list \<Rightarrow> bytes" where
  "dotted [] = []"
| "dotted [l] = l"
| "dotted (l # ls) = l @ 46 # dotted ls"

definition label_ok :: "bytes \<Rightarrow> bool" where
  "label_ok l \<longleftrightarrow> l \<noteq> [] \<and> length l \<le> 63 \<and> 46 \<notin> set l \<and> 0 \<notin> set l"

definition name_ok :: "bytes list \<Rightarrow> bool" where
  "name_ok ls \<longleftrightarrow> ls \<noteq> [] \<and> list_all label_ok ls \<and> length (dotted ls) < NAME_SIZE"

definition enc_labels :: "bytes list \<Rightarrow> bytes" where
  "enc_labels ls = concat (map (\<lambda>l. of_nat (length l) # l) ls)"

definition with_dots :: "bytes list \<Rightarrow> bytes" where
  "with_dots ls = concat (map (\<lambda>l. l @ [46]) ls)"

lemma with_dots_dotted: "ls \<noteq> [] \<Longrightarrow> with_dots ls = dotted ls @ [46]"
  by (induction ls rule: dotted.induct) (auto simp: with_dots_def)

lemma no_zero_dotted: "list_all label_ok ls \<Longrightarrow> 0 \<notin> set (dotted ls)"
  by (induction ls rule: dotted.induct) (auto simp: label_ok_def)

lemma dotted_nonempty: "ls \<noteq> [] \<Longrightarrow> list_all label_ok ls \<Longrightarrow> dotted ls \<noteq> []"
  by (induction ls rule: dotted.induct) (auto simp: label_ok_def)

lemma length_enc_labels: "length (enc_labels ls) = length (with_dots ls)"
  by (induction ls) (simp_all add: enc_labels_def with_dots_def)

lemma takeWhile_stop: "x \<notin> set l \<Longrightarrow> takeWhile (\<lambda>c. c \<noteq> x) (l @ x # r) = l"
  and dropWhile_stop: "x \<notin> set l \<Longrightarrow> dropWhile (\<lambda>c. c \<noteq> x) (l @ x # r) = x # r"
  and takeWhile_all: "x \<notin> set l \<Longrightarrow> takeWhile (\<lambda>c. c \<noteq> x) l = l"
  and dropWhile_all: "x \<notin> set l \<Longrightarrow> dropWhile (\<lambda>c. c \<noteq> x) l = []"
  by (induction l) auto

lemma construct_labels_dotted: "list_all label_ok ls \<Longrightarrow> construct_labels (dotted ls) = enc_labels ls"
proof (induction ls rule: dotted.induct)
  case 1
  then show ?case by (simp add: enc_labels_def construct_labels.simps)
next
  case (2 l)
  then show ?case
    by (subst construct_labels.simps) (simp add: enc_labels_def label_ok_def takeWhile_all dropWhile_all)
next
  case (3 l v va)
  then have l: "l \<noteq> []" "46 \<notin> set l" by (simp_all add: label_ok_def)
  with 3 show ?case
    by (subst construct_labels.simps) (simp add: enc_labels_def takeWhile_stop dropWhile_stop)
qed

lemma sint_of_length: "n \<le> 127 \<Longrightarrow> sint (of_nat n :: u8) = int n"
  by (simp add: signed_of_nat signed_take_bit_eq_if_positive take_bit_int_eq_self bit_iff_odd)

lemma of_nat_u8_0: "0 < n \<Longrightarrow> n \<le> 127 \<Longrightarrow> (of_nat n :: u8) \<noteq> 0"
  using sint_of_length [of n] by auto

lemma decode_labels_enc:
  "list_all label_ok ls \<Longrightarrow> k + length (with_dots ls) \<le> length name \<Longrightarrow>
   decode_labels name k (pre @ enc_labels ls @ 0 # post) (length pre) =
   Some (take k name @ with_dots ls @ drop (k + length (with_dots ls)) name, k + length (with_dots ls),
         length pre + length (enc_labels ls))"
proof (induction ls arbitrary: name k pre)
  case Nil
  then show ?case by (subst decode_labels.simps) (simp add: enc_labels_def with_dots_def)
next
  case (Cons l ls)
  then have l: "0 < length l" "length l \<le> 127" by (auto simp: label_ok_def)
  have e: "enc_labels (l # ls) = of_nat (length l) # l @ enc_labels ls" "with_dots (l # ls) = l @ 46 # with_dots ls"
    by (simp_all add: enc_labels_def with_dots_def)
  let ?name2 = "take k name @ l @ 46 # drop (k + length l + 1) name"
  let ?pre = "pre @ of_nat (length l) # l"
  have w: "wr_n name k l = Some (take k name @ l @ drop (k + length l) name)"
    using Cons.prems(2) by (simp add: wr_n_def e)
  have w2: "wr (take k name @ l @ drop (k + length l) name) (k + length l) 46 = Some ?name2"
  proof -
    have "drop (k + length l) name = name ! (k + length l) # drop (k + length l + 1) name"
      using Cons.prems(2) e by (simp add: Cons_nth_drop_Suc)
    moreover have "length (take k name @ l) = k + length l" using Cons.prems(2) by (simp add: e)
    ultimately show ?thesis
      using Cons.prems(2) by (simp add: wr_def e list_update_append)
  qed
  have r: "rd_n (pre @ of_nat (length l) # l @ enc_labels ls @ 0 # post) (length pre + 1) (length l) = Some l"
    by (simp add: rd_n_def)
  have ih: "decode_labels ?name2 (k + length l + 1) (?pre @ enc_labels ls @ 0 # post) (length ?pre) =
    Some (take (k + length l + 1) ?name2 @ with_dots ls @ drop (k + length l + 1 + length (with_dots ls)) ?name2,
      k + length l + 1 + length (with_dots ls), length ?pre + length (enc_labels ls))"
    using Cons by (intro Cons.IH) (simp_all add: e)
  have t: "take (k + length l + 1) ?name2 = take k name @ l @ [46]"
    "drop (k + length l + 1 + length (with_dots ls)) ?name2 = drop (k + length l + 1 + length (with_dots ls)) name"
    using Cons.prems(2) by (simp_all add: e add.commute add.left_commute)
  show ?case
    using ih l w w2 r unfolding t
    by (subst decode_labels.simps) (simp add: e nth_append sint_of_length of_nat_u8_0 Let_def add.assoc add.left_commute)
qed

text \<open>Decoding a constructed name gives the name back, wherever it stands in the packet.\<close>

lemma decode_constructed_name:
  assumes "name_ok ls" "length name = NAME_SIZE"
  shows "dns_decode_name name (pre @ dns_construct_name (dotted ls) @ post) (length pre) =
    Some (dotted ls @ 0 # drop (length (dotted ls) + 1) name, length pre + length (dns_construct_name (dotted ls)))"
proof -
  have ls: "ls \<noteq> []" "list_all label_ok ls" "length (dotted ls) < NAME_SIZE" using assms(1) by (simp_all add: name_ok_def)
  have c: "dns_construct_name (dotted ls) = enc_labels ls @ [0]"
    using ls(2) by (simp add: dns_construct_name_def construct_labels_dotted)
  have d: "with_dots ls = dotted ls @ [46]" using ls(1) by (rule with_dots_dotted)
  have fits: "0 + length (with_dots ls) \<le> length name" using ls(3) assms(2) by (simp add: d)
  show ?thesis
    using decode_labels_enc [OF ls(2) fits, of pre post] ls(3) assms(2)
    by (simp add: dns_decode_name_def c d length_enc_labels wr_def list_update_append)
qed

section \<open>The sizes of the arrays are kept\<close>

lemma decode_labels_length: "decode_labels name k buf pos = Some (name', k', pos') \<Longrightarrow> length name' = length name"
proof (induction name k buf pos rule: decode_labels.induct)
  case (1 name k buf pos)
  let ?len = "nat (sint (buf ! pos))"
  have lt: "pos < length buf" using 1(2) by (subst (asm) decode_labels.simps) (simp split: if_splits)
  show ?case
  proof (cases "buf ! pos = 0")
    case True
    with 1(2) lt show ?thesis by (simp add: decode_labels.simps)
  next
    case False
    with 1(2) lt obtain t name1 name2 where t: "rd_n buf (pos + 1) ?len = Some t" "wr_n name k t = Some name1"
      "wr name1 (k + ?len) 46 = Some name2" "decode_labels name2 (k + ?len + 1) buf (pos + 1 + ?len) = Some (name', k', pos')"
      by (subst (asm) decode_labels.simps) (auto simp: Let_def bind_Some_iff)
    from 1(1) [OF lt False refl t] t(2,3) show ?thesis by (simp add: wr_n_length wr_length)
  qed
qed

lemma dns_decode_name_length: "dns_decode_name name buf pos = Some (name', pos') \<Longrightarrow> length name' = length name"
  by (auto simp: dns_decode_name_def bind_Some_iff split: if_splits dest!: wr_length decode_labels_length)

lemma dns_decode_reverse_name_length: "dns_decode_reverse_name name = Some name' \<Longrightarrow> length name' = length name"
  by (auto simp: dns_decode_reverse_name_def bind_Some_iff dest!: wr_length wr_n_length)

lemma decode_rr_name_length: "decode_rr_name rr buf pos = Some (name, pos') \<Longrightarrow> length name = length (rr_name rr)"
  by (auto simp: decode_rr_name_def bind_Some_iff split: if_splits dest!: dns_decode_name_length)

lemma decode_rr_fields_wf: "decode_rr_fields rr buf pos q = Some (rr', pos') \<Longrightarrow> wf_rr rr \<Longrightarrow> wf_rr rr'"
  by (cases q) (auto simp: decode_rr_fields_def bind_Some_iff wf_rr_def dest: wr_n_length)

lemma dns_decode_rr_wf:
  assumes "dns_decode_rr rr buf pos q = Some (rr', pos')" "wf_rr rr"
  shows "wf_rr rr'"
proof -
  from assms(1) obtain name pos1 rr1 pos2 where
    n: "decode_rr_name rr buf pos = Some (name, pos1)"
    and f: "decode_rr_fields (rr\<lparr>rr_name := name\<rparr>) buf pos1 q = Some (rr1, pos2)"
    and r: "(if rr_type rr1 = TYPE_PTR then do { name1 \<leftarrow> dns_decode_reverse_name (rr_name rr1); Some (rr1\<lparr>rr_name := name1\<rparr>, pos2) }
      else Some (rr1, pos2)) = Some (rr', pos')"
    by (auto simp: dns_decode_rr_def bind_Some_iff)
  have "wf_rr (rr\<lparr>rr_name := name\<rparr>)" using assms(2) decode_rr_name_length [OF n] by (simp add: wf_rr_def)
  with f have "wf_rr rr1" by (rule decode_rr_fields_wf)
  with r show ?thesis
    by (auto simp: wf_rr_def bind_Some_iff split: if_splits dest: dns_decode_reverse_name_length)
qed

lemma decode_rrs_wf:
  "decode_rrs n i rrs buf pos q = Some (rrs', pos') \<Longrightarrow> list_all wf_rr rrs \<Longrightarrow> list_all wf_rr rrs' \<and> length rrs' = length rrs"
proof (induction n arbitrary: i rrs pos)
  case (Suc n)
  from Suc.prems(1) obtain rr rr' pos1 rrs1 where s: "rd rrs i = Some rr" "dns_decode_rr rr buf pos q = Some (rr', pos1)"
    "wr rrs i rr' = Some rrs1" "decode_rrs n (i + 1) rrs1 buf pos1 q = Some (rrs', pos')"
    by (auto simp: bind_Some_iff)
  have "wf_rr rr" using s(1) Suc.prems(2) by (auto simp: rd_Some_iff list_all_length)
  then have "wf_rr rr'" using s(2) dns_decode_rr_wf by blast
  then have "list_all wf_rr rrs1" "length rrs1 = length rrs"
    using s(3) Suc.prems(2) by (auto simp: wr_Some_iff list_all_length nth_list_update)
  with Suc.IH [OF s(4)] show ?case by simp
qed simp

lemma copy_text_length [simp]: "n \<le> length dst \<Longrightarrow> length (copy_text n dst src) = length dst"
  by (simp add: copy_text_def)

lemma scan_answers_wf: "scan_answers rs m = Some m' \<Longrightarrow> wf_request m \<Longrightarrow> wf_request m'"
  by (induction rs m rule: scan_answers.induct)
    (auto simp: wf_request_def bind_Some_iff split: if_splits dest: dns_decode_name_length)

lemma dns_decode_message_wf:
  assumes "dns_decode_message msg buf = Some msg'" "list_all wf_rr (dm_question msg)" "list_all wf_rr (dm_answer msg)"
  shows "list_all wf_rr (dm_question msg')" "list_all wf_rr (dm_answer msg')"
    "length (dm_question msg') = length (dm_question msg)" "length (dm_answer msg') = length (dm_answer msg)"
  using assms decode_rrs_wf by (fastforce simp: dns_decode_message_def bind_Some_iff)+

lemma dns_decode_request_wf: "dns_decode_request m = Some m' \<Longrightarrow> wf_request m \<Longrightarrow> wf_request m'"
proof -
  assume d: "dns_decode_request m = Some m'" and wf: "wf_request m"
  then obtain msg m2 where msg: "dns_decode_message (q_message m) (q_original_buf m) = Some msg"
    and m2: "scan_answers (take (min (unat (h_ancount (dm_header msg))) NUM_RRS) (dm_answer msg)) m2 = Some m'"
    "m2 = (let m1 = m\<lparr>q_message := msg\<rparr>; q = question0 m1 in
       if rr_type q = TYPE_PTR then m1\<lparr>q_ip := copy_text 20 (q_ip m1) (rr_name q)\<rparr>
       else if rr_type q = TYPE_A \<or> rr_type q = TYPE_AAA then m1\<lparr>q_cname := copy_text NAME_SIZE (q_cname m1) (rr_name q)\<rparr>
       else m1)"
    by (auto simp: dns_decode_request_def bind_Some_iff Let_def)
  have "wf_request m2"
    using wf dns_decode_message_wf [OF msg] unfolding m2(2) by (simp add: wf_request_def Let_def)
  with m2(1) show "wf_request m'" by (rule scan_answers_wf)
qed

section \<open>Headers\<close>

lemma length_be16 [simp]: "length (be16 v) = 2"
  by (simp add: be16_def)

lemma length_be32 [simp]: "length (be32 v) = 4"
  by (simp add: be32_def)

lemma rd_be16_be16: "rd_be16 (xs @ be16 v @ ys) (length xs) = Some v"
  by (simp add: rd_be16_def be16_def rd16_le16)

lemma rd_be32_be32: "rd_be32 (xs @ be32 v @ ys) (length xs) = Some v"
  by (simp add: rd_be32_def be32_def rd32_le32)

lemma length_header_bytes [simp]: "length (header_bytes h) = 12"
  by (simp add: header_bytes_def)

lemma decode_header_bytes: "decode_header (header_bytes h @ rest) = Some h"
proof -
  let ?b = "header_bytes h @ rest"
  let ?f = "[h_id h, h_flags h, h_qdcount h, h_ancount h, h_nscount h, h_arcount h]"
  have "rd_be16 ?b 0 = Some (h_id h)" using rd_be16_be16 [of "[]"] by (simp add: header_bytes_def)
  moreover have "rd_be16 ?b 2 = Some (h_flags h)" using rd_be16_be16 [of "be16 (h_id h)"] by (simp add: header_bytes_def)
  moreover have "rd_be16 ?b 4 = Some (h_qdcount h)"
    using rd_be16_be16 [of "be16 (h_id h) @ be16 (h_flags h)"] by (simp add: header_bytes_def)
  moreover have "rd_be16 ?b 6 = Some (h_ancount h)"
    using rd_be16_be16 [of "be16 (h_id h) @ be16 (h_flags h) @ be16 (h_qdcount h)"] by (simp add: header_bytes_def)
  moreover have "rd_be16 ?b 8 = Some (h_nscount h)"
    using rd_be16_be16 [of "be16 (h_id h) @ be16 (h_flags h) @ be16 (h_qdcount h) @ be16 (h_ancount h)"]
    by (simp add: header_bytes_def)
  moreover have "rd_be16 ?b 10 = Some (h_arcount h)"
    using rd_be16_be16 [of "be16 (h_id h) @ be16 (h_flags h) @ be16 (h_qdcount h) @ be16 (h_ancount h) @ be16 (h_nscount h)"]
    by (simp add: header_bytes_def)
  ultimately show ?thesis by (simp add: decode_header_def)
qed

section \<open>Queries and replies\<close>

lemma construct_name_enc: "name_ok ls \<Longrightarrow> dns_construct_name (dotted ls) = enc_labels ls @ [0]"
  by (simp add: dns_construct_name_def construct_labels_dotted name_ok_def)

lemma length_construct_name: "name_ok ls \<Longrightarrow> length (dns_construct_name (dotted ls)) = length (dotted ls) + 2"
  by (simp add: construct_name_enc length_enc_labels with_dots_dotted name_ok_def)

text \<open>The first octet of a constructed name is a plain length.\<close>

lemma length_octet_plain: "n \<le> 63 \<Longrightarrow> (of_nat n :: u8) AND 0xC0 = 0"
proof (rule bit_word_eqI)
  fix i assume n: "n \<le> 63" and i: "i < LENGTH(8)"
  have "\<not> bit (of_nat n :: u8) i" if "6 \<le> i"
  proof -
    have "n < 2 ^ 6" using n by simp
    also have "(2 :: nat) ^ 6 \<le> 2 ^ i" using that by (rule power_increasing) simp
    finally have "\<not> bit n i" by (simp add: bit_iff_odd)
    then show ?thesis by (simp add: bit_of_nat_iff)
  qed
  moreover have "\<not> bit (0xC0 :: u8) i" if "i < 6"
  proof -
    from that have "i \<in> {0, 1, 2, 3, 4, 5}" by auto
    then show ?thesis by auto
  qed
  ultimately show "bit ((of_nat n :: u8) AND 0xC0) i = bit (0 :: u8) i"
    by (cases "i < 6") (simp_all add: bit_and_iff not_less)
qed

lemma construct_name_first:
  assumes "name_ok ls"
  shows "\<exists>c r. dns_construct_name (dotted ls) = c # r \<and> c AND 0xC0 = 0"
proof -
  obtain l ls' where l: "ls = l # ls'" "length l \<le> 63"
    using assms by (cases ls) (auto simp: name_ok_def label_ok_def)
  then have "dns_construct_name (dotted ls) = of_nat (length l) # l @ enc_labels ls' @ [0]"
    using construct_name_enc [OF assms] by (simp add: enc_labels_def)
  with length_octet_plain [OF l(2)] show ?thesis by blast
qed

lemma rd_be16_at: "buf = pre @ be16 v @ post \<Longrightarrow> i = length pre \<Longrightarrow> rd_be16 buf i = Some v"
  by (simp add: rd_be16_be16)

lemma rd_be32_at: "buf = pre @ be32 v @ post \<Longrightarrow> i = length pre \<Longrightarrow> rd_be32 buf i = Some v"
  by (simp add: rd_be32_be32)

text \<open>A name of the packet in the array of a record.\<close>

definition named :: "bytes list \<Rightarrow> bytes \<Rightarrow> bytes" where
  "named ls name = dotted ls @ 0 # drop (length (dotted ls) + 1) name"

lemma length_named [simp]: "name_ok ls \<Longrightarrow> length name = NAME_SIZE \<Longrightarrow> length (named ls name) = NAME_SIZE"
  by (simp add: named_def name_ok_def)

lemma takeWhile_named: "name_ok ls \<Longrightarrow> takeWhile (\<lambda>c. c \<noteq> 0) (named ls name) = dotted ls"
  by (simp add: named_def name_ok_def takeWhile_stop no_zero_dotted)

lemma decode_rr_name_plain:
  assumes "name_ok ls" "length (rr_name rr) = NAME_SIZE"
  shows "decode_rr_name rr (pre @ dns_construct_name (dotted ls) @ post) (length pre) =
    Some (named ls (rr_name rr), length pre + length (dns_construct_name (dotted ls)))"
proof -
  obtain c r where c: "dns_construct_name (dotted ls) = c # r" "c AND 0xC0 = 0"
    using construct_name_first [OF assms(1)] by blast
  have "rd (pre @ dns_construct_name (dotted ls) @ post) (length pre) = Some c" by (simp add: c(1))
  then show ?thesis
    using decode_constructed_name [OF assms, of pre post] c(2) by (simp add: decode_rr_name_def named_def)
qed

text \<open>The name of an answer that points back to the name at \<open>off\<close>.\<close>

lemma decode_rr_name_pointer:
  assumes "name_ok ls" "length (rr_name rr) = NAME_SIZE" "length pre = 12"
    and "buf = pre @ dns_construct_name (dotted ls) @ post" "buf = x @ be16 0xc00c @ y"
  shows "decode_rr_name rr buf (length x) = Some (named ls (rr_name rr), length x + 2)"
proof -
  have "be16 0xc00c = [0xC0, 0x0C]" by (simp add: be16_def le16_def ntohs_def of_le16_def)
  then have b: "buf = x @ [0xC0, 0x0C] @ y" using assms(5) by simp
  have r: "rd buf (length x) = Some 0xC0" "rd buf (length x + 1) = Some 0x0C" unfolding b by (simp_all add: rd_def nth_append)
  have "dns_decode_name (rr_name rr) buf 12 = Some (named ls (rr_name rr), 12 + length (dns_construct_name (dotted ls)))"
    using decode_constructed_name [OF assms(1,2), of pre post] assms(3,4) by (simp add: named_def)
  with r show ?thesis by (simp add: decode_rr_name_def)
qed

text \<open>A query for a name.\<close>

definition query_bytes :: "dns_header_s \<Rightarrow> bytes list \<Rightarrow> u16 \<Rightarrow> bytes" where
  "query_bytes h ls ty = header_bytes h @ dns_construct_name (dotted ls) @ be16 ty @ be16 CLASS_IN"

lemma length_query_bytes: "name_ok ls \<Longrightarrow> length (query_bytes h ls ty) = length (dotted ls) + 18"
  by (simp add: query_bytes_def length_construct_name)

lemma decode_question:
  assumes "name_ok ls" "ty \<noteq> TYPE_PTR" "wf_rr rr"
  shows "dns_decode_rr rr (query_bytes h ls ty @ rest) 12 True =
    Some (rr\<lparr>rr_name := named ls (rr_name rr), rr_type := ty, rr_class := CLASS_IN\<rparr>, length (query_bytes h ls ty))"
proof -
  let ?n = "dns_construct_name (dotted ls)"
  have len: "length (rr_name rr) = NAME_SIZE" using assms(3) by (simp add: wf_rr_def)
  have n: "decode_rr_name rr (query_bytes h ls ty @ rest) 12 = Some (named ls (rr_name rr), 12 + length ?n)"
    using decode_rr_name_plain [OF assms(1) len, of "header_bytes h" "be16 ty @ be16 CLASS_IN @ rest"]
    by (simp add: query_bytes_def)
  have t: "rd_be16 (query_bytes h ls ty @ rest) (12 + length ?n) = Some ty"
    using rd_be16_be16 [of "header_bytes h @ ?n" ty "be16 CLASS_IN @ rest"] by (simp add: query_bytes_def)
  have c: "rd_be16 (query_bytes h ls ty @ rest) (12 + length ?n + 2) = Some CLASS_IN"
    using rd_be16_be16 [of "header_bytes h @ ?n @ be16 ty" CLASS_IN rest] by (simp add: query_bytes_def)
  show ?thesis using n t c assms(2) by (simp add: dns_decode_rr_def decode_rr_fields_def query_bytes_def)
qed

lemma unat_small [simp]: "unat (1 :: u16) = 1" "unat (0 :: u16) = 0"
  by simp_all

lemma decode_query:
  assumes "name_ok ls" "ty \<noteq> TYPE_PTR" "h_qdcount h = 1" "h_ancount h = 0"
    and "length (dm_question msg) = NUM_RRS" "list_all wf_rr (dm_question msg)"
  shows "dns_decode_message msg (query_bytes h ls ty @ rest) = Some \<lparr>dm_header = h,
    dm_question = (dm_question msg)[0 := (dm_question msg ! 0)\<lparr>rr_name := named ls (rr_name (dm_question msg ! 0)),
      rr_type := ty, rr_class := CLASS_IN\<rparr>], dm_answer = dm_answer msg\<rparr>"
proof -
  let ?rr = "dm_question msg ! 0"
  have "wf_rr ?rr" using assms(5,6) by (simp add: list_all_length)
  note q = decode_question [OF assms(1,2) this]
  have h: "decode_header (query_bytes h ls ty @ rest) = Some h" by (simp add: query_bytes_def decode_header_bytes)
  have "rd (dm_question msg) 0 = Some ?rr" using assms(5) by (simp add: rd_def)
  then show ?thesis using q h assms(3-5) by (simp add: dns_decode_message_def wr_def)
qed

text \<open>A reply with one address.\<close>

definition address_reply :: "dns_header_s \<Rightarrow> bytes list \<Rightarrow> u32 \<Rightarrow> bytes" where
  "address_reply h ls a = query_bytes h ls TYPE_A @ answer_head TYPE_A @ be16 4 @ le32 a"

lemma decode_address_answer:
  assumes "name_ok ls" "wf_rr rr"
  shows "\<exists>rr' pos. dns_decode_rr rr (address_reply h ls a @ rest) (length (query_bytes h ls TYPE_A)) False = Some (rr', pos) \<and>
    rr_name rr' = named ls (rr_name rr) \<and> rr_type rr' = TYPE_A \<and> rr_data rr' = le32 a @ drop 4 (rr_data rr)"
proof -
  let ?q = "query_bytes h ls TYPE_A"
  let ?b = "address_reply h ls a @ rest"
  have len: "length (rr_name rr) = NAME_SIZE" "length (rr_data rr) = NAME_SIZE" using assms(2) by (simp_all add: wf_rr_def)
  have b: "?b = ?q @ be16 0xc00c @ be16 TYPE_A @ be16 CLASS_IN @ be32 10000 @ be16 4 @ le32 a @ rest"
    by (simp add: address_reply_def answer_head_def)
  have n: "decode_rr_name rr ?b (length ?q) = Some (named ls (rr_name rr), length ?q + 2)"
    using decode_rr_name_pointer [OF assms(1) len(1) length_header_bytes [of h] _ b]
    unfolding b query_bytes_def by simp
  have "rd_be16 ?b (length ?q + 2) = Some TYPE_A" by (rule rd_be16_at [of _ "?q @ be16 0xc00c"]) (simp_all add: b)
  moreover have "rd_be16 ?b (length ?q + 2 + 2) = Some CLASS_IN"
    by (rule rd_be16_at [of _ "?q @ be16 0xc00c @ be16 TYPE_A"]) (simp_all add: b)
  moreover have "rd_be32 ?b (length ?q + 2 + 4) = Some 10000"
    by (rule rd_be32_at [of _ "?q @ be16 0xc00c @ be16 TYPE_A @ be16 CLASS_IN"]) (simp_all add: b)
  moreover have "rd_be16 ?b (length ?q + 2 + 8) = Some 4"
    by (rule rd_be16_at [of _ "?q @ be16 0xc00c @ be16 TYPE_A @ be16 CLASS_IN @ be32 10000"]) (simp_all add: b)
  moreover have "rd_n ?b (length ?q + 2 + 10) 4 = Some (le32 a)" unfolding b by (simp add: rd_n_def)
  moreover have "wr_n (rr_data rr) 0 (le32 a) = Some (le32 a @ drop 4 (rr_data rr))" using len by (simp add: wr_n_def)
  ultimately show ?thesis using n by (simp add: dns_decode_rr_def decode_rr_fields_def)
qed

lemma decode_address_reply:
  assumes "name_ok ls" "h_qdcount h = 1" "h_ancount h = 1"
    and "length (dm_question msg) = NUM_RRS" "list_all wf_rr (dm_question msg)"
    and "length (dm_answer msg) = NUM_RRS" "list_all wf_rr (dm_answer msg)"
  shows "\<exists>msg'. dns_decode_message msg (address_reply h ls a @ rest) = Some msg' \<and> dm_header msg' = h \<and>
    rr_type (dm_answer msg' ! 0) = TYPE_A \<and> take 4 (rr_data (dm_answer msg' ! 0)) = le32 a \<and>
    takeWhile (\<lambda>c. c \<noteq> 0) (rr_name (dm_answer msg' ! 0)) = dotted ls \<and>
    rr_type (dm_question msg' ! 0) = TYPE_A \<and> takeWhile (\<lambda>c. c \<noteq> 0) (rr_name (dm_question msg' ! 0)) = dotted ls"
proof -
  let ?rr = "dm_question msg ! 0" and ?an = "dm_answer msg ! 0"
  let ?b = "address_reply h ls a @ rest" and ?q = "query_bytes h ls TYPE_A"
  have wf: "wf_rr ?rr" "wf_rr ?an" using assms(4-7) by (simp_all add: list_all_length)
  have b: "?b = ?q @ answer_head TYPE_A @ be16 4 @ le32 a @ rest" by (simp add: address_reply_def)
  have q: "dns_decode_rr ?rr ?b 12 True =
      Some (?rr\<lparr>rr_name := named ls (rr_name ?rr), rr_type := TYPE_A, rr_class := CLASS_IN\<rparr>, length ?q)"
    unfolding b by (rule decode_question [OF assms(1) _ wf(1)]) simp
  from decode_address_answer [OF assms(1) wf(2), of h a rest] obtain rr' pos where
    an: "dns_decode_rr ?an ?b (length ?q) False = Some (rr', pos)" "rr_name rr' = named ls (rr_name ?an)"
      "rr_type rr' = TYPE_A" "rr_data rr' = le32 a @ drop 4 (rr_data ?an)" by blast
  have h: "decode_header ?b = Some h" by (simp add: b query_bytes_def decode_header_bytes)
  have r: "rd (dm_question msg) 0 = Some ?rr" "rd (dm_answer msg) 0 = Some ?an" using assms(4,6) by (simp_all add: rd_def)
  have "dns_decode_message msg ?b = Some \<lparr>dm_header = h,
      dm_question = (dm_question msg)[0 := ?rr\<lparr>rr_name := named ls (rr_name ?rr), rr_type := TYPE_A, rr_class := CLASS_IN\<rparr>],
      dm_answer = (dm_answer msg)[0 := rr']\<rparr>"
    using q an(1) h r assms(2-4,6) by (simp add: dns_decode_message_def wr_def)
  then show ?thesis using an(2-4) assms(1,4,6) by (simp add: takeWhile_named)
qed

text \<open>What decoding a query stores in the request.\<close>

definition decoded_query :: "dns_header_s \<Rightarrow> bytes list \<Rightarrow> u16 \<Rightarrow> dns_request_t \<Rightarrow> bool" where
  "decoded_query h ls ty m \<longleftrightarrow> wf_request m \<and> dm_header (q_message m) = h \<and> rr_type (question0 m) = ty \<and>
     (ty = TYPE_A \<or> ty = TYPE_AAA \<longrightarrow> c_string_at (q_cname m) 0 = Some (dotted ls))"

lemma c_string_copy_text:
  assumes "name_ok ls" "length dst = NAME_SIZE"
  shows "c_string_at (copy_text NAME_SIZE dst (named ls name)) 0 = Some (dotted ls)"
proof -
  have ls: "0 \<notin> set (dotted ls)" "length (dotted ls) < NAME_SIZE"
    using assms(1) no_zero_dotted by (auto simp: name_ok_def)
  then have "copy_text NAME_SIZE dst (named ls name) = dotted ls @ 0 # replicate (NAME_SIZE - length (dotted ls) - 1) 0"
    using assms(2) takeWhile_named [OF assms(1)]
    by (simp add: copy_text_def strncpy_def replicate_add [symmetric] flip: replicate_Suc)
  with ls(1) show ?thesis by (simp add: c_string_at_def takeWhile_stop)
qed

lemma decode_request_query:
  assumes "name_ok ls" "ty \<noteq> TYPE_PTR" "h_qdcount h = 1" "h_ancount h = 0" "wf_request m"
    and "q_original_buf m = query_bytes h ls ty @ rest"
  shows "\<exists>m'. dns_decode_request m = Some m' \<and> decoded_query h ls ty m' \<and>
    q_original_buf m' = q_original_buf m \<and> q_numread m' = q_numread m \<and> q_ip m' = q_ip m \<and>
    q_src_addr m' = q_src_addr m \<and> q_src_port m' = q_src_port m"
proof -
  have wf: "length (dm_question (q_message m)) = NUM_RRS" "list_all wf_rr (dm_question (q_message m))"
    "length (q_cname m) = NAME_SIZE"
    using assms(5) by (simp_all add: wf_request_def)
  from decode_query [OF assms(1-4) wf(1,2), of rest] assms(6) obtain msg where
    msg: "dns_decode_message (q_message m) (q_original_buf m) = Some msg" "dm_header msg = h"
      "rr_type (dm_question msg ! 0) = ty" "rr_name (dm_question msg ! 0) = named ls (rr_name (dm_question (q_message m) ! 0))"
    using wf(1) by simp
  let ?m' = "if ty = TYPE_A \<or> ty = TYPE_AAA
     then m\<lparr>q_message := msg, q_cname := copy_text NAME_SIZE (q_cname m) (named ls (rr_name (dm_question (q_message m) ! 0)))\<rparr>
     else m\<lparr>q_message := msg\<rparr>"
  have d: "dns_decode_request m = Some ?m'"
    using msg assms(2,4) by (simp add: dns_decode_request_def Let_def)
  moreover have "decoded_query h ls ty ?m'"
    using dns_decode_request_wf [OF d assms(5)] msg assms(1) wf(3) c_string_copy_text by (simp add: decoded_query_def)
  ultimately show ?thesis by (intro exI [of _ ?m']) simp
qed

text \<open>The reply that is constructed for a query whose address is known.\<close>

definition reply_header :: "dns_header_s \<Rightarrow> dns_header_s" where
  "reply_header h = h\<lparr>h_ancount := 1, h_flags := set_flags_question (h_flags h)\<rparr>"

lemma construct_address_reply:
  assumes "name_ok ls" "decoded_query h ls TYPE_A m" "q_original_buf m = query_bytes h ls TYPE_A @ rest"
    and "q_numread m = int (length (query_bytes h ls TYPE_A))" "c_string_at (q_ip m) 0 = Some (inet_ntoa a)"
  shows "\<exists>m'. dns_construct_reply m = Some m' \<and> wf_request m' \<and>
    rd_n (q_original_buf m') 0 (nat (q_numread m')) = Some (address_reply (reply_header h) ls a) \<and> 0 \<le> q_numread m' \<and>
    q_src_addr m' = q_src_addr m \<and> q_src_port m' = q_src_port m"
proof -
  let ?q = "query_bytes h ls TYPE_A" and ?h = "reply_header h"
  have wf: "wf_request m" "dm_header (q_message m) = h" "rr_type (question0 m) = TYPE_A"
    using assms(2) by (simp_all add: decoded_query_def)
  have len: "length ?q + length rest = MAX_PACKET_SIZE" using wf(1) assms(3) by (simp add: wf_request_def)
  have lq: "length ?q = length (query_bytes ?h ls TYPE_A)" by (simp add: query_bytes_def)
  have small: "length ?q + 16 \<le> MAX_PACKET_SIZE"
    using assms(1) by (simp add: length_query_bytes name_ok_def)
  have w: "wr_n (?q @ rest) 0 (header_bytes ?h) = Some (query_bytes ?h ls TYPE_A @ rest)"
    by (simp add: wr_n_def query_bytes_def)
  let ?m1 = "m\<lparr>q_message := (q_message m)\<lparr>dm_header := ?h\<rparr>, q_original_buf := query_bytes ?h ls TYPE_A @ rest\<rparr>"
  let ?d = "answer_head TYPE_A @ be16 4 @ le32 a"
  have ld: "length ?d = 16" by (simp add: answer_head_def)
  have h1: "dns_construct_header (set_header (\<lambda>h. h\<lparr>h_ancount := 1, h_flags := set_flags_question (h_flags h)\<rparr>) m) = Some ?m1"
    using w wf(2) assms(3) by (simp add: dns_construct_header_def set_header_def reply_header_def)
  have ap: "append_bytes ?d ?m1 = Some (?m1\<lparr>q_original_buf := address_reply ?h ls a @ drop 16 rest,
      q_numread := int (length ?q + 16)\<rparr>)"
    using len small lq ld assms(4) by (simp add: append_bytes_def wr_n_def address_reply_def)
  have r: "dns_construct_reply m = append_bytes ?d ?m1"
    using h1 wf(3) assms(5) by (simp add: dns_construct_reply_def inet_aton_ntoa)
  have la: "length (address_reply ?h ls a) = length ?q + 16" using lq ld by (simp add: address_reply_def)
  show ?thesis
    unfolding r ap using wf(1) la len small
    by (intro exI [of _ "?m1\<lparr>q_original_buf := address_reply ?h ls a @ drop 16 rest, q_numread := int (length ?q + 16)\<rparr>"])
      (simp add: wf_request_def rd_n_def)
qed

lemma construct_header_returns:
  assumes "wf_request m"
  shows "\<exists>b. dns_construct_header m = Some (m\<lparr>q_original_buf := b\<rparr>) \<and> length b = MAX_PACKET_SIZE"
  using assms
  by (intro exI [of _ "header_bytes (dm_header (q_message m)) @ drop 12 (q_original_buf m)"])
    (simp add: dns_construct_header_def wf_request_def wr_n_def)

lemma error_reply_returns:
  assumes "wf_request m"
  shows "\<exists>m'. dns_construct_error_reply m = Some m' \<and> wf_request m' \<and> q_src_addr m' = q_src_addr m \<and>
    q_src_port m' = q_src_port m \<and> q_numread m' = q_numread m \<and> q_next m' = q_next m \<and> q_time_pending m' = q_time_pending m"
proof -
  let ?m = "set_header (\<lambda>h. h\<lparr>h_flags := set_flags_rcode 2 (set_flags_question (h_flags h))\<rparr>) m"
  have "wf_request ?m" using assms by (simp add: wf_request_def set_header_def)
  from construct_header_returns [OF this] obtain b where
    "dns_construct_header ?m = Some (?m\<lparr>q_original_buf := b\<rparr>)" "length b = MAX_PACKET_SIZE" by blast
  with \<open>wf_request ?m\<close> show ?thesis
    unfolding dns_construct_error_reply_def by (auto simp: wf_request_def set_header_def)
qed

section \<open>Reverse names\<close>

lemma skip_dots_0 [simp]: "skip_dots name 0 i = Some i"
  by (simp add: skip_dots.simps)

lemma skip_dots_label:
  "46 \<notin> set l \<Longrightarrow> skip_dots (pre @ l @ 46 # r) (Suc n) (length pre) = skip_dots (pre @ l @ 46 # r) n (length pre + length l + 1)"
proof (induction l arbitrary: pre)
  case Nil
  then show ?case by (subst skip_dots.simps) simp
next
  case (Cons c l)
  have "skip_dots ((pre @ [c]) @ l @ 46 # r) (Suc n) (length (pre @ [c])) =
      skip_dots ((pre @ [c]) @ l @ 46 # r) n (length (pre @ [c]) + length l + 1)"
    using Cons by (intro Cons.IH) simp
  with Cons.prems show ?case by (subst skip_dots.simps) simp
qed

lemma until_dot_label: "46 \<notin> set l \<Longrightarrow> until_dot (pre @ l @ 46 # r) (length pre) = Some l"
  by (simp add: until_dot_def takeWhile_stop)

lemma wr_append_hit: "wr (xs @ y # ys) (length xs) v = Some (xs @ v # ys)"
  by (simp add: wr_def list_update_append)

text \<open>The first four labels of a name are reversed.\<close>

lemma decode_reverse_labels:
  assumes "46 \<notin> set a" "46 \<notin> set b" "46 \<notin> set c" "46 \<notin> set d"
    and "0 \<notin> set a" "0 \<notin> set b" "0 \<notin> set c" "0 \<notin> set d"
    and "name = dotted [a, b, c, d] @ 46 # rest" "length name = NAME_SIZE"
  shows "\<exists>tail. dns_decode_reverse_name name = Some (dotted [d, c, b, a] @ 0 # tail)"
proof -
  let ?rev = "d @ [46] @ c @ [46] @ b @ [46] @ a"
  let ?n = "a @ 46 # b @ 46 # c @ 46 # d @ 0 # rest"
  have name: "name = a @ 46 # b @ 46 # c @ 46 # d @ 46 # rest" using assms(9) by simp
  have s3: "skip_dots (a @ 46 # b @ 46 # c @ 46 # r) 3 0 = Some (length a + length b + length c + 3)" for r
    using skip_dots_label [OF assms(1), of "[]" "b @ 46 # c @ 46 # r" 2] skip_dots_label [OF assms(2), of "a @ [46]" "c @ 46 # r" 1]
      skip_dots_label [OF assms(3), of "a @ 46 # b @ [46]" r 0] by (simp add: eval_nat_numeral)
  have s2: "skip_dots (a @ 46 # b @ 46 # r) 2 0 = Some (length a + length b + 2)" for r
    using skip_dots_label [OF assms(1), of "[]" "b @ 46 # r" 1] skip_dots_label [OF assms(2), of "a @ [46]" r 0]
    by (simp add: eval_nat_numeral)
  have s1: "skip_dots (a @ 46 # r) 1 0 = Some (length a + 1)" for r
    using skip_dots_label [OF assms(1), of "[]" r 0] by simp
  have u3: "until_dot name (length a + length b + length c + 3) = Some d"
    using until_dot_label [OF assms(4), of "a @ 46 # b @ 46 # c @ [46]" rest] by (simp add: name numeral_3_eq_3 add.assoc)
  have u2: "until_dot ?n (length a + length b + 2) = Some c"
    using until_dot_label [OF assms(3), of "a @ 46 # b @ [46]" "d @ 0 # rest"] by simp
  have u1: "until_dot ?n (length a + 1) = Some b"
    using until_dot_label [OF assms(2), of "a @ [46]" "c @ 46 # d @ 0 # rest"] by simp
  have u0: "until_dot ?n 0 = Some a"
    using until_dot_label [OF assms(1), of "[]"] by simp
  have w: "wr name (length a + length b + length c + 3 + length d) 0 = Some ?n"
    using wr_append_hit [of "a @ 46 # b @ 46 # c @ 46 # d" 46 rest 0] by (simp add: name algebra_simps numeral_3_eq_3)
  have len: "length ?rev + 1 \<le> NAME_SIZE" "length ?n = NAME_SIZE" using assms(10) by (simp_all add: name)
  have t: "wr_n (replicate NAME_SIZE 0) 0 (?rev @ [0]) = Some (?rev @ 0 # replicate (NAME_SIZE - length ?rev - 1) 0)"
    using len(1) by (simp add: wr_n_def)
  have z: "0 \<notin> set ?rev" using assms(5-8) by simp
  have cs: "c_string_at (?rev @ 0 # r) 0 = Some ?rev" for r
    using takeWhile_stop [OF z, of r] by (simp add: c_string_at_def)
  have wn: "wr_n ?n 0 (?rev @ [0]) = Some (?rev @ 0 # drop (length ?rev + 1) ?n)"
    using len by (simp add: wr_n_def)
  have "dns_decode_reverse_name name = Some (?rev @ 0 # drop (length ?rev + 1) ?n)"
    unfolding dns_decode_reverse_name_def
    using s3 [of "d @ 46 # rest"] u3 w s2 [of "c @ 46 # d @ 0 # rest"] u2 s1 [of "b @ 46 # c @ 46 # d @ 0 # rest"] u1 u0 t cs wn
    by (simp add: name)
  then show ?thesis by simp
qed

section \<open>Properties\<close>

text \<open>C17: A name of non-empty labels of at most 63 characters that fits the array is encoded and decoded
  without change, wherever its encoding stands in a packet, and decoding ends behind it.\<close>

theorem name_roundtrip:
  assumes "name_ok ls" "length name = NAME_SIZE"
  shows "\<exists>name'. dns_decode_name name (pre @ dns_construct_name (dotted ls) @ post) (length pre) =
      Some (name', length pre + length (dns_construct_name (dotted ls))) \<and>
    c_string_at name' 0 = Some (dotted ls) \<and> length name' = NAME_SIZE"
proof -
  have "0 \<notin> set (dotted ls)" using assms(1) no_zero_dotted by (simp add: name_ok_def)
  then have "c_string_at (named ls name) 0 = Some (dotted ls)" by (simp add: c_string_at_def named_def takeWhile_stop)
  with decode_constructed_name [OF assms] length_named [OF assms] show ?thesis by (simp add: named_def)
qed

theorem name_roundtrip_witness:
  "\<exists>name'. dns_decode_name (replicate 255 0) ([1, 2] @ dns_construct_name (dotted [[119], [99]]) @ [9]) (length [1 :: u8, 2 :: u8]) =
      Some (name', length [1 :: u8, 2 :: u8] + length (dns_construct_name (dotted [[119], [99]]))) \<and>
    c_string_at name' 0 = Some [119, 46, 99]"
  using name_roundtrip [of "[[119], [99]]" "replicate 255 0" "[1, 2]" "[9]"]
  by (simp add: name_ok_def label_ok_def) blast

text \<open>C40: A packet whose first question is for the root of the name space has no defined decoding: the
  terminator of the empty name is stored before the array.\<close>

theorem root_query_underflow:
  assumes "h_qdcount h \<noteq> 0" "length (dm_question msg) = NUM_RRS"
  shows "dns_decode_message msg (header_bytes h @ 0 # rest) = None"
proof -
  let ?b = "header_bytes h @ 0 # rest"
  have r: "rd ?b 12 = Some 0" using rd_append_hit [of "header_bytes h" 0 rest] by simp
  have "?b ! 12 = 0" using r by (simp add: rd_Some_iff)
  then have "dns_decode_name name ?b 12 = None" for name
    by (simp add: dns_decode_name_def decode_labels.simps [of name 0])
  then have "dns_decode_rr rr ?b 12 True = None" for rr
    using r by (simp add: dns_decode_rr_def decode_rr_name_def)
  moreover have "rd (dm_question msg) 0 = Some (dm_question msg ! 0)" using assms(2) by (simp add: rd_def)
  moreover obtain n where "min (unat (h_qdcount h)) NUM_RRS = Suc n"
  proof -
    have "0 < unat (h_qdcount h)" using assms(1) by (simp add: unat_gt_0)
    then have "0 < min (unat (h_qdcount h)) NUM_RRS" by simp
    then show ?thesis using that gr0_implies_Suc by blast
  qed
  ultimately show ?thesis by (simp add: dns_decode_message_def decode_header_bytes)
qed

theorem root_query_underflow_witness:
  "dns_decode_message \<lparr>dm_header = \<lparr>h_id = 1, h_flags = 0x100, h_qdcount = 1, h_ancount = 0, h_nscount = 0, h_arcount = 0\<rparr>,
      dm_question = replicate 5 \<lparr>rr_name = replicate 255 0, rr_type = 0, rr_class = 0, rr_ttl = 0, rr_rdatalen = 0, rr_data = replicate 255 0\<rparr>,
      dm_answer = []\<rparr>
    (header_bytes \<lparr>h_id = 1, h_flags = 0x100, h_qdcount = 1, h_ancount = 0, h_nscount = 0, h_arcount = 0\<rparr> @ 0 # be16 2 @ be16 1) = None"
  by (rule root_query_underflow) simp_all

end
