(* ===== verification/Dns_Conf.thy ===== *)
theory Dns_Conf
  imports C_Lib
begin

text \<open>
  \<^verbatim>\<open>src/dproxy-nexgen/conf.c\<close>: the configuration of the DNS proxy, its parameter table, the reader of the
  configuration file and the printer.

  The \<^verbatim>\<open>char\<close> arrays of \<^verbatim>\<open>struct config\<close> are the strings they hold: \<^verbatim>\<open>copy_string\<close> gets at most 254
  characters (a word of a line buffer of 256), so that the copy always ends with a NUL.
  \<^verbatim>\<open>int\<close> is 32 bits, and \<^verbatim>\<open>mask <<= i\<close> drops the bits that leave them.
\<close>

section \<open>The configuration and its parameters\<close>

abbreviation (input) CONF_PATH_LEN :: nat where "CONF_PATH_LEN \<equiv> 256"
abbreviation (input) MAX_NAME_SERVER :: nat where "MAX_NAME_SERVER \<equiv> 5"

record config =
  cf_name_server :: "bytes list"
  cf_daemon_mode :: int
  cf_ppp_detect :: int
  cf_purge_time :: int
  cf_config_file :: bytes
  cf_deny_file :: bytes
  cf_cache_file :: bytes
  cf_hosts_file :: bytes
  cf_ppp_device_file :: bytes
  cf_dhcp_lease_file :: bytes
  cf_debug_file :: bytes

definition config_defaults :: config where
  "config_defaults = \<lparr>
     cf_name_server = [cstr ''0.0.0.0'', [], [], [], []],
     cf_daemon_mode = 1,
     cf_ppp_detect = 0,
     cf_purge_time = 300,
     cf_config_file = cstr ''/etc/dproxy.conf'',
     cf_deny_file = cstr ''/etc/dproxy.deny'',
     cf_cache_file = cstr ''/var/cache/dproxy.cache'',
     cf_hosts_file = cstr ''/etc/hosts'',
     cf_ppp_device_file = cstr ''/var/run/ppp0.pid'',
     cf_dhcp_lease_file = cstr ''/var/state/dhcp.leases'',
     cf_debug_file = cstr ''/var/log/dproxy.debug.log'' \<rparr>"

text \<open>The global \<^verbatim>\<open>config\<close> before anything is stored in it.\<close>

definition config_zero :: config where
  "config_zero = \<lparr>cf_name_server = replicate 5 [], cf_daemon_mode = 0, cf_ppp_detect = 0, cf_purge_time = 0,
     cf_config_file = [], cf_deny_file = [], cf_cache_file = [], cf_hosts_file = [], cf_ppp_device_file = [],
     cf_dhcp_lease_file = [], cf_debug_file = []\<rparr>"

text \<open>The field a parameter points to; its type selects the init, copy and print functions.\<close>

datatype conf_field = Name_server nat | Ppp_detect | Purge_time | Deny_file | Cache_file | Hosts_file
  | Dhcp_lease_file | Ppp_dev | Debug_file

record config_param =
  p_name :: bytes
  p_comment :: bytes
  p_field :: conf_field

definition param :: "string \<Rightarrow> string list \<Rightarrow> conf_field \<Rightarrow> config_param" where
  "param name comment f = \<lparr>p_name = cstr name, p_comment = concat (map (\<lambda>l. cstr l @ [10]) comment), p_field = f\<rparr>"

definition config_params :: "config_param list" where
  "config_params =
     map (\<lambda>i. param ''nameserver'' [''# This is the IP of the upstream nameserver that dproxy queries''] (Name_server i)) [0, 1, 2, 3, 4] @
     [param ''ppp_detect'' [''# Do you want to check for a connection?'',
        ''# Set this only if you are using a ppp or isdn connection!''] Ppp_detect,
      param ''purge_time'' [''# This will set the purge time, the time for a cached lookup'',
        ''# become invalid (in seconds)''] Purge_time,
      param ''deny_file'' [''# Edit this file if you want some sites blocked....''] Deny_file,
      param ''cache_file'' [''# Location of the cache file''] Cache_file,
      param ''hosts_file'' [''# Location of the hosts file.''] Hosts_file,
      param ''dhcp_lease_file'' [''# If you use dhcp, set this to tell dproxy where to find'',
        ''# the dhcp leases.''] Dhcp_lease_file,
      param ''ppp_dev'' [''# dproxy monitors this file to determine when the machine is'',
        ''# connected to the net''] Ppp_dev,
      param ''debug_file'' [''# Debug info log file'',
        ''# If you want dproxy to log debug info specify a file here.''] Debug_file]"

section \<open>Copy functions\<close>

definition copy_bool :: "bytes \<Rightarrow> int" where
  "copy_bool str = (if str = cstr ''1'' \<or> strcaseeq str (cstr ''yes'') \<or> strcaseeq str (cstr ''on'') then 1 else 0)"

definition atoi :: "bytes \<Rightarrow> u32" where
  "atoi str = fst (strtol 10 str)"

definition copy_int :: "bytes \<Rightarrow> int" where
  "copy_int str = sint (atoi str)"

definition copy_string :: "bytes \<Rightarrow> bytes" where
  "copy_string str = take CONF_PATH_LEN str"

text \<open>\<^verbatim>\<open>copy\<close> of a parameter, applied to its field.\<close>

definition param_copy :: "conf_field \<Rightarrow> bytes \<Rightarrow> config \<Rightarrow> config" where
  "param_copy f str c = (case f of
     Name_server i \<Rightarrow> c\<lparr>cf_name_server := (cf_name_server c)[i := copy_string str]\<rparr>
   | Ppp_detect \<Rightarrow> c\<lparr>cf_ppp_detect := copy_bool str\<rparr>
   | Purge_time \<Rightarrow> c\<lparr>cf_purge_time := copy_int str\<rparr>
   | Deny_file \<Rightarrow> c\<lparr>cf_deny_file := copy_string str\<rparr>
   | Cache_file \<Rightarrow> c\<lparr>cf_cache_file := copy_string str\<rparr>
   | Hosts_file \<Rightarrow> c\<lparr>cf_hosts_file := copy_string str\<rparr>
   | Dhcp_lease_file \<Rightarrow> c\<lparr>cf_dhcp_lease_file := copy_string str\<rparr>
   | Ppp_dev \<Rightarrow> c\<lparr>cf_ppp_device_file := copy_string str\<rparr>
   | Debug_file \<Rightarrow> c\<lparr>cf_debug_file := copy_string str\<rparr>)"

text \<open>\<^verbatim>\<open>init\<close> of a parameter: the field gets the value it has in the configuration \<open>d\<close>.\<close>

definition param_init :: "config \<Rightarrow> conf_field \<Rightarrow> config \<Rightarrow> config" where
  "param_init d f c = (case f of
     Name_server i \<Rightarrow> c\<lparr>cf_name_server := (cf_name_server c)[i := copy_string (cf_name_server d ! i)]\<rparr>
   | Ppp_detect \<Rightarrow> c\<lparr>cf_ppp_detect := cf_ppp_detect d\<rparr>
   | Purge_time \<Rightarrow> c\<lparr>cf_purge_time := cf_purge_time d\<rparr>
   | Deny_file \<Rightarrow> c\<lparr>cf_deny_file := copy_string (cf_deny_file d)\<rparr>
   | Cache_file \<Rightarrow> c\<lparr>cf_cache_file := copy_string (cf_cache_file d)\<rparr>
   | Hosts_file \<Rightarrow> c\<lparr>cf_hosts_file := copy_string (cf_hosts_file d)\<rparr>
   | Dhcp_lease_file \<Rightarrow> c\<lparr>cf_dhcp_lease_file := copy_string (cf_dhcp_lease_file d)\<rparr>
   | Ppp_dev \<Rightarrow> c\<lparr>cf_ppp_device_file := copy_string (cf_ppp_device_file d)\<rparr>
   | Debug_file \<Rightarrow> c\<lparr>cf_debug_file := copy_string (cf_debug_file d)\<rparr>)"

definition conf_defaults :: "config \<Rightarrow> config" where
  "conf_defaults c =
     (foldl (\<lambda>c p. param_init config_defaults (p_field p) c) c config_params)
     \<lparr>cf_daemon_mode := 1, cf_dhcp_lease_file := [], cf_debug_file := []\<rparr>"

section \<open>Reading a configuration file\<close>

text \<open>
  \<^verbatim>\<open>conf_cmdparse\<close> from parameter \<open>i\<close> on.  The mask of a parameter is that of the one before it, shifted by
  \<open>i\<close>; the state holds the masks of the parameters that have been set.
\<close>

fun cmdparse_loop :: "bytes \<Rightarrow> bytes \<Rightarrow> config_param list \<Rightarrow> nat \<Rightarrow> u32 \<Rightarrow> config \<times> u32 \<Rightarrow> config \<times> u32" where
  "cmdparse_loop cmd arg1 [] i bm (c, cfg_state) = (c, cfg_state)"
| "cmdparse_loop cmd arg1 (p # ps) i bm (c, cfg_state) =
     (let bm' = push_bit i bm in
      if strncaseeq cmd (p_name p) (CONF_PATH_LEN + 50) \<and> cfg_state AND bm' = 0
      then (param_copy (p_field p) arg1 c, cfg_state OR bm')
      else cmdparse_loop cmd arg1 ps (i + 1) bm' (c, cfg_state))"

definition conf_cmdparse :: "bytes option \<Rightarrow> bytes option \<Rightarrow> config \<times> u32 \<Rightarrow> config \<times> u32" where
  "conf_cmdparse cmd arg1 s =
     (case (cmd, arg1) of (Some w, Some a) \<Rightarrow> cmdparse_loop w a config_params 0 1 s | _ \<Rightarrow> s)"

text \<open>
  One line.  The last character is taken for the newline; an empty string (a NUL at the start of
  the line) makes the index -1.
\<close>

definition conf_line :: "bytes \<Rightarrow> config \<times> u32 \<Rightarrow> (config \<times> u32) option" where
  "conf_line line s =
     (if line ! 0 = 35 then Some s
      else
        let str = takeWhile (\<lambda>c. c \<noteq> 0) line in
        if str = [] then None
        else
          let (cmd, rest) = strtok (Some (butlast str)) (cstr '' ='');
              (arg1, rest') = strtok rest (cstr '' ='') in
          Some (conf_cmdparse cmd arg1 s))"

function conf_lines :: "bytes \<Rightarrow> config \<times> u32 \<Rightarrow> (config \<times> u32) option" where
  "conf_lines inp s =
     (if inp = [] then Some s
      else do { s' \<leftarrow> conf_line (fst (fgets 256 inp)) s; conf_lines (snd (fgets 256 inp)) s' })"
  by auto
termination
  by (relation "measure (\<lambda>(inp, s). length inp)") (auto simp: fgets_shorter)

declare conf_lines.simps [simp del]

text \<open>
  \<^verbatim>\<open>conf_load\<close> with the contents of the files by name.  A name of 256 or more characters does not fit
  \<^verbatim>\<open>config.config_file\<close>.
\<close>

definition conf_load :: "(bytes \<Rightarrow> bytes option) \<Rightarrow> bytes \<Rightarrow> config \<Rightarrow> config option" where
  "conf_load files conf_file c =
     (let c0 = conf_defaults c in
      case files conf_file of
        None \<Rightarrow> (case files (cf_config_file c0) of
            None \<Rightarrow> Some c0
          | Some inp \<Rightarrow> map_option fst (conf_lines inp (c0, 0)))
      | Some inp \<Rightarrow>
          if CONF_PATH_LEN \<le> length conf_file then None
          else map_option fst (conf_lines inp (c0\<lparr>cf_config_file := conf_file\<rparr>, 0)))"

section \<open>Printing the configuration\<close>

definition print_bool :: "int \<Rightarrow> bytes" where
  "print_bool v = (if v \<noteq> 0 then cstr ''yes'' else cstr ''no'')"

definition print_int :: "int \<Rightarrow> bytes" where
  "print_int v = dec_int v"

definition print_string :: "bytes \<Rightarrow> bytes" where
  "print_string v = v"

definition param_print :: "conf_field \<Rightarrow> config \<Rightarrow> bytes" where
  "param_print f c = (case f of
     Name_server i \<Rightarrow> print_string (cf_name_server c ! i)
   | Ppp_detect \<Rightarrow> print_bool (cf_ppp_detect c)
   | Purge_time \<Rightarrow> print_int (cf_purge_time c)
   | Deny_file \<Rightarrow> print_string (cf_deny_file c)
   | Cache_file \<Rightarrow> print_string (cf_cache_file c)
   | Hosts_file \<Rightarrow> print_string (cf_hosts_file c)
   | Dhcp_lease_file \<Rightarrow> print_string (cf_dhcp_lease_file c)
   | Ppp_dev \<Rightarrow> print_string (cf_ppp_device_file c)
   | Debug_file \<Rightarrow> print_string (cf_debug_file c))"

definition print_param :: "config \<Rightarrow> config_param \<Rightarrow> bytes" where
  "print_param c p =
     cstr ''# param '' @ p_name p @ cstr '' '' @ [10] @ p_comment p @ cstr ''#'' @ [10] @
     cstr ''# Default : '' @ param_print (p_field p) config_defaults @ [10] @ cstr ''#'' @ [10] @
     p_name p @ cstr '' = '' @ param_print (p_field p) c @ [10, 10]"

definition conf_print :: "config \<Rightarrow> bytes" where
  "conf_print c = concat (map (print_param c) config_params)"

section \<open>Name servers\<close>

text \<open>The state of the table after \<open>k\<close> name servers.\<close>

fun ns_state :: "nat \<Rightarrow> u32" where
  "ns_state 0 = 0"
| "ns_state (Suc 0) = 1"
| "ns_state (Suc (Suc 0)) = 3"
| "ns_state (Suc (Suc (Suc 0))) = 0xB"
| "ns_state (Suc (Suc (Suc (Suc 0)))) = 0x4B"
| "ns_state (Suc (Suc (Suc (Suc (Suc k))))) = 0x44B"

lemma param_names:
  "strncaseeq (cstr ''nameserver'') (cstr ''nameserver'') 306"
  "\<not> strncaseeq (cstr ''nameserver'') (cstr ''ppp_detect'') 306"
  "\<not> strncaseeq (cstr ''nameserver'') (cstr ''purge_time'') 306"
  "\<not> strncaseeq (cstr ''nameserver'') (cstr ''deny_file'') 306"
  "\<not> strncaseeq (cstr ''nameserver'') (cstr ''cache_file'') 306"
  "\<not> strncaseeq (cstr ''nameserver'') (cstr ''hosts_file'') 306"
  "\<not> strncaseeq (cstr ''nameserver'') (cstr ''dhcp_lease_file'') 306"
  "\<not> strncaseeq (cstr ''nameserver'') (cstr ''ppp_dev'') 306"
  "\<not> strncaseeq (cstr ''nameserver'') (cstr ''debug_file'') 306"
  by code_simp+

definition set_server :: "nat \<Rightarrow> bytes \<Rightarrow> config \<Rightarrow> config" where
  "set_server k w c = c\<lparr>cf_name_server := (cf_name_server c)[k := copy_string w]\<rparr>"

lemma param_simps [simp]: "p_name (param n c f) = cstr n" "p_field (param n c f) = f"
  by (simp_all add: param_def)

lemma ns_states [simp]: "ns_state 1 = 1" "ns_state 2 = 3" "ns_state 3 = 0xB" "ns_state 4 = 0x4B" "5 \<le> k \<Longrightarrow> ns_state k = 0x44B"
proof -
  show "ns_state 1 = 1" "ns_state 2 = 3" "ns_state 3 = 0xB" "ns_state 4 = 0x4B" by (simp_all add: eval_nat_numeral)
  assume "5 \<le> k"
  then have "k = Suc (Suc (Suc (Suc (Suc (k - 5)))))" by simp
  then show "ns_state k = 0x44B" by (metis ns_state.simps(6))
qed

lemma ns_cmdparse:
  "conf_cmdparse (Some (cstr ''nameserver'')) (Some w) (c, ns_state k) =
     (if k < 5 then (set_server k w c, ns_state (k + 1)) else (c, ns_state k))"
proof (cases "k < 5")
  case True
  then have "k = 0 \<or> k = 1 \<or> k = 2 \<or> k = 3 \<or> k = 4" by auto
  then show ?thesis
    by (elim disjE)
      (simp_all add: conf_cmdparse_def config_params_def param_names param_copy_def set_server_def Let_def)
next
  case False
  then show ?thesis by (simp add: conf_cmdparse_def config_params_def param_names Let_def)
qed

definition word_ok :: "bytes \<Rightarrow> bool" where
  "word_ok w \<longleftrightarrow> w \<noteq> [] \<and> length w \<le> 200 \<and> (\<forall>c\<in>set w. c \<notin> {0, 10, 32, 61})"

definition ns_line :: "bytes \<Rightarrow> bytes" where
  "ns_line w = cstr ''nameserver '' @ w @ [10]"

lemma ns_word: "cstr ''nameserver '' = cstr ''nameserver'' @ [32]" "\<forall>c\<in>set (cstr ''nameserver''). c \<notin> {0, 10, 32, 61}"
  "cstr ''nameserver'' \<noteq> []" "length (cstr ''nameserver'') = 10" "cstr ''nameserver'' ! 0 = 110"
  by (simp_all add: cstr_def)

lemma separators: "cstr '' ='' = [32, 61]"
  by (simp add: cstr_def)

lemma ns_conf_line:
  assumes "word_ok w"
  shows "conf_line (ns_line w) s = Some (conf_cmdparse (Some (cstr ''nameserver'')) (Some w) s)"
proof -
  let ?n = "cstr ''nameserver''"
  have w: "w \<noteq> []" "\<forall>c\<in>set w. c \<notin> set [32, 61]" "0 \<notin> set w" using assms by (auto simp: word_ok_def)
  have n: "\<forall>c\<in>set ?n. c \<notin> set [32, 61]" "0 \<notin> set ?n" using ns_word(2) by auto
  have l: "ns_line w = (?n @ 32 # w) @ [10]" by (simp add: ns_line_def ns_word(1))
  have "takeWhile (\<lambda>c. c \<noteq> 0) (ns_line w) = ns_line w"
    unfolding l using w(3) n(2) by (auto simp: takeWhile_eq_all_conv)
  moreover have "ns_line w ! 0 \<noteq> 35" unfolding l using ns_word(4,5) by (simp add: nth_append)
  moreover have "butlast (ns_line w) = ?n @ 32 # w" unfolding l by (rule butlast_snoc)
  moreover have "strtok (Some (?n @ 32 # w)) [32, 61] = (Some ?n, Some w)" using strtok_word(1) [OF ns_word(3) n(1)] by simp
  moreover have "strtok (Some w) [32, 61] = (Some w, None)" using strtok_word(2) [OF w(1,2), of 32] by simp
  moreover have "ns_line w \<noteq> []" by (simp add: l)
  ultimately show ?thesis by (simp add: conf_line_def separators Let_def del: takeWhile_eq_all_conv)
qed

lemma ns_fgets: "word_ok w \<Longrightarrow> fgets 256 (ns_line w @ rest) = (ns_line w, rest)"
  using fgets_line [of "cstr ''nameserver '' @ w" 256 rest] ns_word(1,2,4) by (auto simp: ns_line_def word_ok_def)

text \<open>The servers of the lines fill the places from \<open>k\<close> on.\<close>

fun fill_servers :: "nat \<Rightarrow> bytes list \<Rightarrow> config \<Rightarrow> config" where
  "fill_servers k [] c = c"
| "fill_servers k (w # ws) c = (if k < 5 then fill_servers (k + 1) ws (set_server k w c) else c)"

lemma fill_servers_full: "5 \<le> k \<Longrightarrow> fill_servers k ws c = c"
  by (cases ws) simp_all

lemma conf_lines_servers:
  "list_all word_ok ws \<Longrightarrow> \<exists>st. conf_lines (concat (map ns_line ws)) (c, ns_state k) = Some (fill_servers k ws c, st)"
proof (induction ws arbitrary: k c)
  case Nil
  then show ?case by (simp add: conf_lines.simps)
next
  case (Cons w ws)
  have ne: "ns_line w \<noteq> []" by (simp add: ns_line_def)
  have s: "conf_lines (concat (map ns_line (w # ws))) (c, ns_state k) =
      conf_lines (concat (map ns_line ws)) (conf_cmdparse (Some (cstr ''nameserver'')) (Some w) (c, ns_state k))"
    using Cons.prems ne by (subst conf_lines.simps) (simp add: ns_fgets ns_conf_line)
  show ?case
  proof (cases "k < 5")
    case True
    then show ?thesis unfolding s ns_cmdparse using Cons.IH [of "set_server k w c" "k + 1"] Cons.prems by simp
  next
    case False
    then show ?thesis unfolding s ns_cmdparse using Cons.IH [of c k] Cons.prems by (simp add: fill_servers_full)
  qed
qed

lemma fill_servers_list:
  "k \<le> length (cf_name_server c) \<Longrightarrow> length (cf_name_server c) = 5 \<Longrightarrow> list_all word_ok ws \<Longrightarrow>
   cf_name_server (fill_servers k ws c) =
     take 5 (take k (cf_name_server c) @ ws @ drop (k + length ws) (cf_name_server c))"
proof (induction k ws c rule: fill_servers.induct)
  case (2 k w ws c)
  have cw: "copy_string w = w" using 2(4) by (simp add: copy_string_def word_ok_def)
  show ?case
  proof (cases "k < 5")
    case True
    with 2 have "cf_name_server (fill_servers (k + 1) ws (set_server k w c)) =
        take 5 (take (k + 1) ((cf_name_server c)[k := w]) @ ws @ drop (k + 1 + length ws) ((cf_name_server c)[k := w]))"
      by (simp add: set_server_def cw)
    moreover have "take (k + 1) ((cf_name_server c)[k := w]) @ ws @ drop (k + 1 + length ws) ((cf_name_server c)[k := w]) =
        take k (cf_name_server c) @ (w # ws) @ drop (k + length (w # ws)) (cf_name_server c)"
      using True 2(3) by (simp add: take_Suc_conv_app_nth)
    ultimately show ?thesis using True by (simp only: fill_servers.simps if_True)
  next
    case False
    with 2 show ?thesis by simp
  qed
qed simp

lemma fill_servers_keeps: "cf_name_server (fill_servers k ws c) = xs \<Longrightarrow> fill_servers k ws c = c\<lparr>cf_name_server := xs\<rparr>"
  by (induction k ws c arbitrary: xs rule: fill_servers.induct) (auto simp: set_server_def)

lemma conf_defaults_servers:
  assumes "length (cf_name_server c) = 5"
  shows "cf_name_server (conf_defaults c) = [cstr ''0.0.0.0'', [], [], [], []]"
proof -
  obtain a0 a1 a2 a3 a4 where "cf_name_server c = [a0, a1, a2, a3, a4]"
    using assms by (auto simp: length_Suc_conv eval_nat_numeral)
  then show ?thesis
    by (simp add: conf_defaults_def config_params_def param_init_def config_defaults_def copy_string_def cstr_def)
qed

section \<open>Properties\<close>

text \<open>C27: A file of \<^verbatim>\<open>nameserver\<close> lines, as \<^verbatim>\<open>resolv.conf\<close> has them, sets the name servers in the order of the
  lines; the first five count, and the places that no line fills have their defaults.\<close>

theorem nameservers_loaded:
  assumes "list_all word_ok ws" "files conf_file = Some (concat (map ns_line ws))" "length conf_file < CONF_PATH_LEN"
    and "length (cf_name_server c) = 5"
  shows "conf_load files conf_file c = Some ((conf_defaults c)\<lparr>cf_config_file := conf_file,
    cf_name_server := take 5 (ws @ drop (length ws) [cstr ''0.0.0.0'', [], [], [], []])\<rparr>)"
proof -
  let ?c = "(conf_defaults c)\<lparr>cf_config_file := conf_file\<rparr>"
  obtain st where st: "conf_lines (concat (map ns_line ws)) (?c, ns_state 0) = Some (fill_servers 0 ws ?c, st)"
    using conf_lines_servers [OF assms(1)] by blast
  have "cf_name_server (fill_servers 0 ws ?c) = take 5 (ws @ drop (length ws) [cstr ''0.0.0.0'', [], [], [], []])"
    using fill_servers_list [of 0 ?c ws] conf_defaults_servers [OF assms(4)] assms(1) by simp
  from fill_servers_keeps [OF this] st assms(2,3) show ?thesis by (simp add: conf_load_def Let_def)
qed

theorem nameservers_loaded_witness:
  "\<exists>c'. conf_load (\<lambda>_. Some (concat (map ns_line [[49], [50]]))) [47] config_zero = Some c' \<and>
    cf_name_server c' = [[49], [50], [], [], []]"
  using nameservers_loaded [of "[[49], [50]]" "\<lambda>_. Some (concat (map ns_line [[49], [50]]))" "[47]" config_zero]
  by (simp add: word_ok_def config_zero_def)

end
