(* ===== verification/Dns_Cache.thy ===== *)
theory Dns_Cache
  imports Dns_Conf
begin

text \<open>
  \<^verbatim>\<open>src/dproxy-nexgen/cache.c\<close>: the cache file of the DNS proxy.  A line of the file holds a name, an address and
  the time of the entry.

  A file is the byte string it holds, \<^term>\<open>None\<close> if it does not exist.  The caller's buffers are byte
  lists of their size.  The use of a NULL token, a write outside a buffer and the read of a string without
  NUL are \<^term>\<open>None\<close>.  \<^verbatim>\<open>time_t\<close> is a 32-bit word.
\<close>

section \<open>Lookup\<close>

abbreviation (input) BUF_SIZE :: nat where "BUF_SIZE \<equiv> 255"

definition cache_char :: "u8 \<Rightarrow> bool" where
  "cache_char c \<longleftrightarrow> isalnum c \<or> c = 46"

text \<open>The string that \<^verbatim>\<open>fgets\<close> leaves in \<^verbatim>\<open>line\<close>.\<close>

definition line_of :: "bytes \<Rightarrow> bytes" where
  "line_of inp = takeWhile (\<lambda>c. c \<noteq> 0) (fst (fgets BUF_SIZE inp))"

abbreviation rest_of :: "bytes \<Rightarrow> bytes" where
  "rest_of inp \<equiv> snd (fgets BUF_SIZE inp)"

text \<open>The loop of \<^verbatim>\<open>cache_byname\<close>; the result is the return value and the buffer \<^verbatim>\<open>ip\<close>.\<close>

function byname_loop :: "bytes \<Rightarrow> bytes \<Rightarrow> bytes \<Rightarrow> (bool \<times> bytes) option" where
  "byname_loop inp name ip =
     (if inp = [] then Some (False, ip)
      else
        let (token, rest) = strtok (Some (line_of inp)) (cstr '' '') in do {
        t \<leftarrow> token;
        if strcaseeq t name then do {
          t' \<leftarrow> fst (strtok rest (cstr '' ''));
          ip' \<leftarrow> wr_n ip 0 (takeWhile cache_char t' @ [0]);
          Some (True, ip') }
        else byname_loop (rest_of inp) name ip })"
  by auto
termination
  by (relation "measure (\<lambda>(inp, name, ip). length inp)") (auto simp: fgets_shorter)

declare byname_loop.simps [simp del]

definition cache_byname :: "bytes \<Rightarrow> bytes \<Rightarrow> bytes \<Rightarrow> (bool \<times> bytes) option" where
  "cache_byname inp name ip = do { ip' \<leftarrow> wr ip 0 0; byname_loop inp name ip' }"

definition cache_lookup_name :: "bytes option \<Rightarrow> bytes \<Rightarrow> bytes \<Rightarrow> (bool \<times> bytes) option" where
  "cache_lookup_name file name ip = (case file of None \<Rightarrow> Some (False, ip) | Some inp \<Rightarrow> cache_byname inp name ip)"

text \<open>
  The loop of \<^verbatim>\<open>cache_lookup_ip\<close>.  The comparison is limited to the length of the address that is looked for.
  \<^verbatim>\<open>result[i] = line[i++]\<close> is taken to store at the old index.
\<close>

function byip_loop :: "bytes \<Rightarrow> bytes \<Rightarrow> bytes \<Rightarrow> (bool \<times> bytes) option" where
  "byip_loop inp ip result =
     (if inp = [] then Some (False, result)
      else
        let (token, rest) = strtok (Some (line_of inp)) (cstr '' '') in do {
        t \<leftarrow> fst (strtok rest (cstr '' ''));
        if strncaseeq t ip (length ip) then do {
          result' \<leftarrow> wr_n result 0 (takeWhile cache_char (line_of inp) @ [0]);
          Some (True, result') }
        else byip_loop (rest_of inp) ip result })"
  by auto
termination
  by (relation "measure (\<lambda>(inp, ip, result). length inp)") (auto simp: fgets_shorter)

declare byip_loop.simps [simp del]

definition cache_lookup_ip :: "bytes option \<Rightarrow> bytes \<Rightarrow> bytes \<Rightarrow> (bool \<times> bytes) option" where
  "cache_lookup_ip file ip result = do {
     c \<leftarrow> rd ip 0;
     if c = 0 then Some (False, result)
     else do {
       result' \<leftarrow> wr result 0 0;
       (case file of
          None \<Rightarrow> Some (False, result')
        | Some inp \<Rightarrow>
            if inp = [] then Some (False, result')
            else do { s \<leftarrow> c_string_at ip 0; byip_loop inp s result' }) } }"

section \<open>Adding an entry\<close>

definition entry_text :: "bytes \<Rightarrow> bytes \<Rightarrow> u32 \<Rightarrow> bytes" where
  "entry_text name ip t = name @ [32] @ ip @ [32] @ dec_int (sint t) @ [10]"

text \<open>
  The stream is opened for appending only, so that the search for the name in it reads nothing.  The
  input \<open>can_open\<close> tells whether \<^verbatim>\<open>fopen\<close> succeeds.
\<close>

definition cache_name_append :: "bool \<Rightarrow> u32 \<Rightarrow> bytes option \<Rightarrow> bytes \<Rightarrow> bytes \<Rightarrow> bytes option option" where
  "cache_name_append can_open now file name ip =
     (if \<not> can_open then Some file
      else do {
        n \<leftarrow> c_string_at name 0;
        (found, dummy) \<leftarrow> cache_byname [] n (replicate BUF_SIZE 0);
        if found then Some file
        else do {
          i \<leftarrow> c_string_at ip 0;
          Some (Some ((case file of None \<Rightarrow> [] | Some f \<Rightarrow> f) @ entry_text n i now)) } })"

section \<open>Purging\<close>

text \<open>The names of a line of the hosts file, up to a comment.\<close>

function host_names :: "bytes \<Rightarrow> bytes option \<Rightarrow> bytes" where
  "host_names ip s =
     (case strtok s [32, 9] of
        (None, rest) \<Rightarrow> []
      | (Some name, rest) \<Rightarrow> if name ! 0 = 35 then [] else entry_text name ip 0 @ host_names ip rest)"
  by auto

definition tok_rest_size :: "bytes option \<Rightarrow> nat" where
  "tok_rest_size s = (case s of None \<Rightarrow> 0 | Some r \<Rightarrow> Suc (length r))"

lemma strtok_rest_size:
  assumes "strtok s d = (Some t, r)"
  shows "tok_rest_size r < tok_rest_size s"
proof -
  from assms obtain cs where cs: "s = Some cs" by (cases s) (auto simp: strtok_def)
  define u where "u = dropWhile (\<lambda>c. c \<in> set d) cs"
  define v where "v = dropWhile (\<lambda>c. c \<notin> set d) u"
  have r: "r = (case v of [] \<Rightarrow> None | c # r \<Rightarrow> Some r)"
    using assms by (simp add: cs strtok_def Let_def u_def [symmetric] v_def [symmetric] split: if_splits)
  have "length v \<le> length u" "length u \<le> length cs" by (simp_all add: u_def v_def length_dropWhile_le)
  then show ?thesis using r by (auto simp: cs tok_rest_size_def split: list.splits)
qed

termination host_names
  by (relation "measure (\<lambda>(ip, s). tok_rest_size s)") (auto dest: strtok_rest_size [OF sym])

declare host_names.simps [simp del]

text \<open>A line of the hosts file.  Its last character is taken for the newline.\<close>

definition hosts_line :: "bytes \<Rightarrow> bytes option" where
  "hosts_line line =
     (if line = [] then None
      else Some (case strtok (Some (butlast line)) [32, 9] of
          (None, rest) \<Rightarrow> []
        | (Some ip, rest) \<Rightarrow> if ip ! 0 = 35 then [] else host_names ip rest))"

function hosts_lines :: "bytes \<Rightarrow> bytes option" where
  "hosts_lines inp =
     (if inp = [] then Some []
      else do { a \<leftarrow> hosts_line (line_of inp); b \<leftarrow> hosts_lines (rest_of inp); Some (a @ b) })"
  by auto
termination
  by (relation "measure length") (auto simp: fgets_shorter)

declare hosts_lines.simps [simp del]

definition cache_add_hosts_entries :: "bytes option \<Rightarrow> bytes option" where
  "cache_add_hosts_entries hosts = (case hosts of None \<Rightarrow> Some [] | Some inp \<Rightarrow> hosts_lines inp)"

text \<open>The lines that are kept.\<close>

definition purge_line :: "u32 \<Rightarrow> int \<Rightarrow> bytes \<Rightarrow> bytes" where
  "purge_line now older_than line =
     (let (name, r1) = strtok (Some line) (cstr '' '');
          (ip, r2) = strtok r1 (cstr '' '');
          (time_made, r3) = strtok r2 (cstr '' '') in
      case (name, ip, time_made) of
        (Some n, Some i, Some t) \<Rightarrow>
          if sint (now - atoi t) < older_than then n @ [32] @ i @ [32] @ t else []
      | _ \<Rightarrow> [])"

function purge_lines :: "u32 \<Rightarrow> int \<Rightarrow> bytes \<Rightarrow> bytes" where
  "purge_lines now older_than inp =
     (if inp = [] then [] else purge_line now older_than (line_of inp) @ purge_lines now older_than (rest_of inp))"
  by auto
termination
  by (relation "measure (\<lambda>(now, older_than, inp). length inp)") (auto simp: fgets_shorter)

declare purge_lines.simps [simp del]

text \<open>
  \<open>can_rename\<close> and \<open>can_open\<close> tell whether \<^verbatim>\<open>rename\<close> and \<^verbatim>\<open>fopen\<close> of the new file succeed; \<open>hosts\<close> is the hosts
  file.  The result is the cache file.
\<close>

definition cache_purge :: "bool \<Rightarrow> bool \<Rightarrow> u32 \<Rightarrow> bytes option \<Rightarrow> int \<Rightarrow> bytes option \<Rightarrow> bytes option option" where
  "cache_purge can_rename can_open now hosts older_than file =
     (if file \<noteq> None \<and> \<not> can_rename then Some file
      else if \<not> can_open then Some None
      else do {
        h \<leftarrow> cache_add_hosts_entries hosts;
        Some (Some (h @ (case file of None \<Rightarrow> [] | Some inp \<Rightarrow> purge_lines now older_than inp))) })"

section \<open>The cache as a list of entries\<close>

type_synonym entry = "bytes \<times> bytes \<times> u32"

definition name_char :: "u8 \<Rightarrow> bool" where
  "name_char c \<longleftrightarrow> c \<noteq> 0 \<and> c \<noteq> 10 \<and> c \<noteq> 32"

text \<open>An entry that fits a line and the buffers.\<close>

definition entry_ok :: "entry \<Rightarrow> bool" where
  "entry_ok e \<longleftrightarrow> (case e of (n, i, t) \<Rightarrow> n \<noteq> [] \<and> (\<forall>c\<in>set n. name_char c) \<and> i \<noteq> [] \<and> (\<forall>c\<in>set i. cache_char c) \<and>
     length i < 20 \<and> length n + length i + 14 \<le> 254)"

definition line_text :: "entry \<Rightarrow> bytes" where
  "line_text e = (case e of (n, i, t) \<Rightarrow> entry_text n i t)"

definition cache_text :: "entry list \<Rightarrow> bytes" where
  "cache_text es = concat (map line_text es)"

lemma cache_text_simps [simp]: "cache_text [] = []" "cache_text (e # es) = line_text e @ cache_text es"
  "cache_text (es @ fs) = cache_text es @ cache_text fs"
  by (simp_all add: cache_text_def)

lemma cache_char_name_char: "cache_char c \<Longrightarrow> name_char c"
proof -
  assume "cache_char c"
  then have "isalnum c \<or> c = 46" by (simp add: cache_char_def)
  moreover have "\<not> isalnum 0" "\<not> isalnum 10" "\<not> isalnum 32"
    by (simp_all add: isalnum_def isdigit_def isupper_def islower_def)
  ultimately show ?thesis by (auto simp: name_char_def)
qed

lemma dec_int_chars: "\<forall>c\<in>set (dec_int i). name_char c"
proof -
  have "name_char c" if "isdigit c" for c using that by (intro cache_char_name_char) (simp add: cache_char_def isalnum_def)
  moreover have "name_char 45" by (simp add: name_char_def)
  ultimately show ?thesis using dec_digits by (auto simp: dec_int_def)
qed

text \<open>The line of an entry, cut at its newline.\<close>

lemma entry_line:
  assumes "entry_ok e"
  shows "line_of (line_text e @ rest) = line_text e" "rest_of (line_text e @ rest) = rest" "line_text e \<noteq> []"
proof -
  obtain n i t where e: "e = (n, i, t)" by (cases e)
  let ?x = "n @ [32] @ i @ [32] @ dec_int (sint t)"
  have x: "line_text e = ?x @ [10]" by (simp add: e line_text_def entry_text_def)
  have "\<forall>c\<in>set i. name_char c" using assms by (auto simp: e entry_ok_def intro: cache_char_name_char)
  then have c: "10 \<notin> set ?x" "0 \<notin> set ?x" using assms dec_int_chars [of "sint t"] by (auto simp: e entry_ok_def name_char_def)
  have "length ?x + 1 < 255" using assms length_dec_int32 [of t] by (simp add: e entry_ok_def)
  from fgets_line [OF c(1) this] have f: "fgets 255 (line_text e @ rest) = (line_text e, rest)" by (simp add: x)
  show "rest_of (line_text e @ rest) = rest" by (simp add: f)
  have "takeWhile (\<lambda>c. c \<noteq> 0) (line_text e) = line_text e" using c(2) by (auto simp: x takeWhile_eq_all_conv)
  then show "line_of (line_text e @ rest) = line_text e" by (simp add: line_of_def f)
  show "line_text e \<noteq> []" by (simp add: x)
qed

lemma blank [simp]: "cstr '' '' = [32]"
  by (simp add: cstr_def)

lemma entry_tokens:
  assumes "entry_ok (n, i, t)"
  shows "strtok (Some (line_text (n, i, t))) [32] = (Some n, Some (i @ [32] @ dec_int (sint t) @ [10]))"
    "strtok (Some (i @ [32] @ dec_int (sint t) @ [10])) [32] = (Some i, Some (dec_int (sint t) @ [10]))"
    "strtok (Some (dec_int (sint t) @ [10])) [32] = (Some (dec_int (sint t) @ [10]), None)"
proof -
  have ni: "n \<noteq> []" "i \<noteq> []" "\<forall>c\<in>set n. c \<notin> set [32]" "\<forall>c\<in>set i. c \<notin> set [32]"
    using assms cache_char_name_char by (auto simp: entry_ok_def) (auto simp: name_char_def)
  show "strtok (Some (line_text (n, i, t))) [32] = (Some n, Some (i @ [32] @ dec_int (sint t) @ [10]))"
    using strtok_word(1) [OF ni(1,3), of 32] by (simp add: line_text_def entry_text_def)
  show "strtok (Some (i @ [32] @ dec_int (sint t) @ [10])) [32] = (Some i, Some (dec_int (sint t) @ [10]))"
    using strtok_word(1) [OF ni(2,4), of 32] by simp
  have "\<forall>c\<in>set (dec_int (sint t) @ [10]). c \<notin> set [32]" using dec_int_chars [of "sint t"] by (auto simp: name_char_def)
  then show "strtok (Some (dec_int (sint t) @ [10])) [32] = (Some (dec_int (sint t) @ [10]), None)"
    by (intro strtok_word(2) [of _ _ 32]) simp_all
qed

lemma takeWhile_cache_char: "\<forall>c\<in>set i. cache_char c \<Longrightarrow> takeWhile cache_char i = i"
  by (simp add: takeWhile_eq_all_conv)

text \<open>Lookup by name is the first entry with that name, in any case of letters.\<close>

definition same_name :: "entry \<Rightarrow> bytes \<Rightarrow> bool" where
  "same_name e name \<longleftrightarrow> strcaseeq (fst e) name"

definition entry_ip :: "entry \<Rightarrow> bytes" where
  "entry_ip e = fst (snd e)"

definition find_name :: "bytes \<Rightarrow> entry list \<Rightarrow> entry option" where
  "find_name name = find (\<lambda>e. same_name e name)"

definition find_ip :: "bytes \<Rightarrow> entry list \<Rightarrow> entry option" where
  "find_ip ip = find (\<lambda>(n, i, t). strncaseeq i ip (length ip))"

lemma byname_loop_entries:
  "list_all entry_ok es \<Longrightarrow> length ip = 20 \<Longrightarrow>
   byname_loop (cache_text es) name ip = Some (case find_name name es of
     None \<Rightarrow> (False, ip) | Some (n, i, t) \<Rightarrow> (True, i @ 0 # drop (length i + 1) ip))"
proof (induction es)
  case Nil
  then show ?case by (simp add: byname_loop.simps find_name_def)
next
  case (Cons e es)
  obtain n i t where e: "e = (n, i, t)" by (cases e)
  have ok: "entry_ok (n, i, t)" using Cons.prems(1) by (simp add: e)
  note l = entry_line(1,2) [OF ok, of "cache_text es"] entry_line(3) [OF ok] and tk = entry_tokens [OF ok]
  have i: "length i < 20" "takeWhile cache_char i = i" using ok by (auto simp: entry_ok_def takeWhile_cache_char)
  have w: "wr_n ip 0 (i @ [0]) = Some (i @ 0 # drop (length i + 1) ip)" using i(1) Cons.prems(2) by (simp add: wr_n_def)
  show ?case
  proof (cases "strcaseeq n name")
    case True
    then show ?thesis
      by (subst byname_loop.simps) (simp add: e l tk [unfolded append_Cons append_Nil] i(2) w find_name_def same_name_def)
  next
    case False
    with Cons show ?thesis
      by (subst byname_loop.simps) (simp add: e l tk [unfolded append_Cons append_Nil] find_name_def same_name_def)
  qed
qed

lemma byip_loop_entries:
  "list_all entry_ok es \<Longrightarrow> length result = BUF_SIZE \<Longrightarrow>
   byip_loop (cache_text es) ip result = Some (case find_ip ip es of
     None \<Rightarrow> (False, result)
   | Some (n, i, t) \<Rightarrow> (True, takeWhile cache_char n @ 0 # drop (length (takeWhile cache_char n) + 1) result))"
proof (induction es)
  case Nil
  then show ?case by (simp add: byip_loop.simps find_ip_def)
next
  case (Cons e es)
  obtain n i t where e: "e = (n, i, t)" by (cases e)
  have ok: "entry_ok (n, i, t)" using Cons.prems(1) by (simp add: e)
  note l = entry_line(1,2) [OF ok, of "cache_text es"] entry_line(3) [OF ok] and tk = entry_tokens [OF ok]
  have "\<not> cache_char 32" by (simp add: cache_char_def isalnum_def isdigit_def isupper_def islower_def)
  then have p: "takeWhile cache_char (line_text (n, i, t)) = takeWhile cache_char n"
    by (cases "\<forall>c\<in>set n. cache_char c") (simp_all add: line_text_def entry_text_def takeWhile_append takeWhile_cache_char)
  have "length (takeWhile cache_char n) < 255"
    using ok length_takeWhile_le [of cache_char n] by (simp add: entry_ok_def)
  then have w: "wr_n result 0 (takeWhile cache_char n @ [0]) =
      Some (takeWhile cache_char n @ 0 # drop (length (takeWhile cache_char n) + 1) result)"
    using Cons.prems(2) by (simp add: wr_n_def)
  show ?case
  proof (cases "strncaseeq i ip (length ip)")
    case True
    then show ?thesis
      by (subst byip_loop.simps) (simp add: e l tk [unfolded append_Cons append_Nil] p w find_ip_def)
  next
    case False
    with Cons show ?thesis
      by (subst byip_loop.simps) (simp add: e l tk [unfolded append_Cons append_Nil] find_ip_def)
  qed
qed

text \<open>Purging keeps the entries that are young enough.\<close>

definition young :: "u32 \<Rightarrow> int \<Rightarrow> entry \<Rightarrow> bool" where
  "young now older_than e = (case e of (n, i, t) \<Rightarrow> sint (now - t) < older_than)"

lemma purge_lines_entries:
  "list_all entry_ok es \<Longrightarrow> purge_lines now older_than (cache_text es) = cache_text (filter (young now older_than) es)"
proof (induction es)
  case Nil
  then show ?case by (simp add: purge_lines.simps)
next
  case (Cons e es)
  obtain n i t where e: "e = (n, i, t)" by (cases e)
  have ok: "entry_ok (n, i, t)" using Cons.prems by (simp add: e)
  have "10 \<le> digit_value 10" by (simp add: digit_value_def isdigit_def islower_def isupper_def)
  then have a: "atoi (dec_int (sint t) @ [10]) = t" by (simp add: atoi_def strtol_dec)
  have "purge_line now older_than (line_text (n, i, t)) = (if young now older_than e then line_text e else [])"
    using entry_tokens [OF ok] by (simp add: purge_line_def a e young_def line_text_def entry_text_def)
  with Cons entry_line(1,2) [OF ok, of "cache_text es"] entry_line(3) [OF ok] show ?case
    by (subst purge_lines.simps) (simp add: e)
qed

section \<open>The interface of the cache\<close>

text \<open>
  What the proxy relies on: a lookup after an insertion finds what it found before, or else the new
  entry if the key is the same.  So the first entry for a key is the one that is found.
\<close>

locale name_cache =
  fixes inv :: "'s \<Rightarrow> bool" and lookup :: "'s \<Rightarrow> 'k \<Rightarrow> 'v option" and add :: "'e \<Rightarrow> 's \<Rightarrow> 's"
    and ok :: "'e \<Rightarrow> bool" and matches :: "'e \<Rightarrow> 'k \<Rightarrow> bool" and val :: "'e \<Rightarrow> 'v"
  assumes add_inv: "inv s \<Longrightarrow> ok e \<Longrightarrow> inv (add e s)"
    and lookup_add: "inv s \<Longrightarrow> ok e \<Longrightarrow>
      lookup (add e s) k = (case lookup s k of Some v \<Rightarrow> Some v | None \<Rightarrow> if matches e k then Some (val e) else None)"
begin

lemma adds_inv: "inv s \<Longrightarrow> list_all ok es \<Longrightarrow> inv (fold add es s)"
  by (induction es arbitrary: s) (simp_all add: add_inv)

lemma first_wins:
  "inv s \<Longrightarrow> list_all ok es \<Longrightarrow> lookup (fold add es s) k =
    (case lookup s k of Some v \<Rightarrow> Some v | None \<Rightarrow> map_option val (find (\<lambda>e. matches e k) es))"
proof (induction es arbitrary: s)
  case Nil
  then show ?case by (simp split: option.split)
next
  case (Cons e es)
  then have "inv (add e s)" "lookup (add e s) k =
      (case lookup s k of Some v \<Rightarrow> Some v | None \<Rightarrow> if matches e k then Some (val e) else None)"
    by (simp_all add: add_inv lookup_add)
  with Cons show ?case by (auto split: option.splits)
qed

end

text \<open>The cache file with the functions of \<^verbatim>\<open>cache.c\<close>: the address found for a name, and an entry added at its time.\<close>

definition cached :: "bytes option \<Rightarrow> bytes \<Rightarrow> bytes option" where
  "cached file name =
     (case cache_lookup_name file name (replicate 20 0) of Some (True, ip) \<Rightarrow> c_string_at ip 0 | _ \<Rightarrow> None)"

definition add_entry :: "entry \<Rightarrow> bytes option \<Rightarrow> bytes option" where
  "add_entry e file = (case e of (n, i, t) \<Rightarrow>
     (case cache_name_append True t file (n @ [0]) (i @ [0]) of Some f \<Rightarrow> f | None \<Rightarrow> file))"

definition cache_file_ok :: "bytes option \<Rightarrow> bool" where
  "cache_file_ok file \<longleftrightarrow> (\<exists>es. list_all entry_ok es \<and> file = Some (cache_text es))"

lemma c_string_nul: "0 \<notin> set x \<Longrightarrow> c_string_at (x @ 0 # r) 0 = Some x"
proof -
  assume "0 \<notin> set x"
  then have "takeWhile (\<lambda>c. c \<noteq> 0) (x @ 0 # r) = x" by (induction x) auto
  then show ?thesis by (simp add: c_string_at_def)
qed

lemma entry_ok_no_nul: "entry_ok (n, i, t) \<Longrightarrow> 0 \<notin> set n \<and> 0 \<notin> set i"
  using cache_char_name_char by (auto simp: entry_ok_def) (auto simp: name_char_def)

lemma append_entries:
  assumes "entry_ok (n, i, t)" "c_string_at name 0 = Some n" "c_string_at ip 0 = Some i"
  shows "cache_name_append True t (Some (cache_text es)) name ip = Some (Some (cache_text (es @ [(n, i, t)])))"
  using assms
  by (simp add: cache_name_append_def cache_byname_def wr_def byname_loop.simps line_text_def)

lemma lookup_name_entries:
  assumes "list_all entry_ok es" "length ip = 20"
  shows "cache_lookup_name (Some (cache_text es)) name ip = Some (case find_name name es of
     None \<Rightarrow> (False, ip[0 := 0]) | Some (n, i, t) \<Rightarrow> (True, i @ 0 # drop (length i + 1) ip))"
proof -
  have "drop (length i + 1) (ip[0 := 0]) = drop (length i + 1) ip" for i :: bytes by (cases ip) simp_all
  with assms byname_loop_entries [of es "ip[0 := 0]" name] show ?thesis
    by (simp add: cache_lookup_name_def cache_byname_def wr_def split: option.split)
qed

lemma cached_entries:
  assumes "list_all entry_ok es"
  shows "cached (Some (cache_text es)) name = map_option entry_ip (find_name name es)"
proof (cases "find_name name es")
  case None
  with assms show ?thesis by (simp add: cached_def lookup_name_entries)
next
  case (Some e)
  obtain n i t where e: "e = (n, i, t)" by (cases e)
  have "entry_ok (n, i, t)"
    using Some assms by (auto simp: e find_name_def find_Some_iff list_all_length)
  with Some assms show ?thesis by (simp add: cached_def lookup_name_entries e entry_ip_def c_string_nul entry_ok_no_nul)
qed

lemma add_entry_entries:
  assumes "entry_ok (n, i, t)"
  shows "add_entry (n, i, t) (Some (cache_text es)) = Some (cache_text (es @ [(n, i, t)]))"
  using append_entries [OF assms c_string_nul [of n "[]"] c_string_nul [of i "[]"], of es] entry_ok_no_nul [OF assms]
  by (simp add: add_entry_def)

interpretation fc: name_cache cache_file_ok cached add_entry entry_ok same_name entry_ip
proof
  fix s and e :: entry
  assume s: "cache_file_ok s" and ok: "entry_ok e"
  obtain n i t where e: "e = (n, i, t)" by (cases e)
  from s obtain es where es: "list_all entry_ok es" "s = Some (cache_text es)" by (auto simp: cache_file_ok_def)
  have ok': "list_all entry_ok (es @ [(n, i, t)])" using es(1) ok by (simp add: e)
  have a: "add_entry e s = Some (cache_text (es @ [(n, i, t)]))"
    unfolding e es(2) using ok by (intro add_entry_entries) (simp add: e)
  with ok' show "cache_file_ok (add_entry e s)" unfolding cache_file_ok_def by blast
  have "find_name k (es @ [(n, i, t)]) = (case find_name k es of Some x \<Rightarrow> Some x
      | None \<Rightarrow> if same_name (n, i, t) k then Some (n, i, t) else None)" for k
    unfolding find_name_def by (induction es) auto
  then show "cached (add_entry e s) k = (case cached s k of Some v \<Rightarrow> Some v
      | None \<Rightarrow> if same_name e k then Some (entry_ip e) else None)" for k
    unfolding a cached_entries [OF ok'] unfolding es(2) cached_entries [OF es(1)] e by (simp split: option.split)
qed

section \<open>Properties\<close>

text \<open>C10: The cache file is a list of entries.  On the text of a list of well-formed entries, a lookup by
  name returns the address of the first entry with that name, an insertion adds an entry at the
  end, and purging writes the entries of the hosts file and keeps the entries that are young enough.\<close>

theorem cache_refines_entries:
  assumes "list_all entry_ok es" "entry_ok (n, i, t)" "length ip = 20" "cache_add_hosts_entries hosts = Some h"
  shows "cache_lookup_name (Some (cache_text es)) name ip = Some (case find_name name es of
      None \<Rightarrow> (False, ip[0 := 0]) | Some (n, i, t) \<Rightarrow> (True, i @ 0 # drop (length i + 1) ip)) \<and>
    cache_name_append True t (Some (cache_text es)) (n @ [0]) (i @ [0]) = Some (Some (cache_text (es @ [(n, i, t)]))) \<and>
    cache_purge True True now hosts older_than (Some (cache_text es)) =
      Some (Some (h @ cache_text (filter (young now older_than) es)))"
proof (intro conjI)
  show "cache_name_append True t (Some (cache_text es)) (n @ [0]) (i @ [0]) = Some (Some (cache_text (es @ [(n, i, t)])))"
    using append_entries [OF assms(2) c_string_nul [of n "[]"] c_string_nul [of i "[]"]] entry_ok_no_nul [OF assms(2)] by simp
  show "cache_purge True True now hosts older_than (Some (cache_text es)) =
      Some (Some (h @ cache_text (filter (young now older_than) es)))"
    using assms(1,4) by (simp add: cache_purge_def purge_lines_entries)
qed (rule lookup_name_entries [OF assms(1,3)])

theorem cache_refines_entries_witness:
  "cache_lookup_name (Some (cache_text [([97], [49], 5)])) [65] (replicate 20 0) = Some (True, 49 # 0 # replicate 18 0) \<and>
   cache_purge True True 100 None 60 (Some (cache_text [([97], [49], 5)])) = Some (Some [])"
proof -
  have ok: "entry_ok ([97], [49], 5)"
    by (simp add: entry_ok_def name_char_def cache_char_def isalnum_def isdigit_def isupper_def islower_def)
  have "strcaseeq [97] [65]" by (simp add: strcaseeq_def tolower_def isupper_def)
  moreover have "sint (95 :: u32) = 95" by simp
  ultimately show ?thesis
    using cache_refines_entries [of "[([97], [49], 5)]" "[97]" "[49]" 5 "replicate 20 0" None "[]" "[65]" 100 60] ok
    by (simp add: cache_add_hosts_entries_def find_name_def young_def same_name_def)
qed

text \<open>C28: When entries are written to an empty cache one after the other, a lookup returns the address of
  the first entry with the name, whatever is written later.\<close>

theorem cache_first_entry_wins:
  assumes "list_all entry_ok es"
  shows "cached (fold add_entry es (Some [])) name = map_option entry_ip (find (\<lambda>e. same_name e name) es)"
proof -
  have e: "cache_file_ok (Some [])" unfolding cache_file_ok_def by (rule exI [of _ "[]"]) simp
  have c: "cached (Some []) name = None" using cached_entries [of "[]" name] by (simp add: find_name_def)
  from fc.first_wins [OF e assms, of name] c show ?thesis by simp
qed

theorem cache_first_entry_wins_witness:
  "cached (fold add_entry [([97], [49], 5), ([97], [50], 6)] (Some [])) [65] = Some [49]"
proof -
  have "list_all entry_ok [([97], [49], 5), ([97], [50], 6)]"
    by (simp add: entry_ok_def name_char_def cache_char_def isalnum_def isdigit_def isupper_def islower_def)
  moreover have "strcaseeq [97] [65]" by (simp add: strcaseeq_def tolower_def isupper_def)
  ultimately show ?thesis
    using cache_first_entry_wins [of "[([97], [49], 5), ([97], [50], 6)]" "[65]"] by (simp add: same_name_def entry_ip_def)
qed

text \<open>The reverse lookup compares only as many characters as the address has: an entry for 10.0.0.12 answers
  for 10.0.0.1.  A name is returned only up to its first hyphen.\<close>

theorem reverse_lookup_prefix:
  assumes "entry_ok (n, i @ c # cs, t)" "length result = BUF_SIZE" "i \<noteq> []" "0 \<notin> set i"
  shows "\<exists>tail. cache_lookup_ip (Some (cache_text [(n, i @ c # cs, t)])) (i @ [0]) result =
    Some (True, takeWhile cache_char n @ 0 # tail)"
proof -
  have "find_ip i [(n, i @ c # cs, t)] = Some (n, i @ c # cs, t)"
    by (simp add: find_ip_def strncaseeq_def strcaseeq_def)
  moreover have "cache_text [(n, i @ c # cs, t)] \<noteq> []" by (simp add: line_text_def entry_text_def)
  moreover obtain x xs where "i = x # xs" "x \<noteq> 0" using assms(3,4) by (cases i) auto
  ultimately show ?thesis
    using byip_loop_entries [of "[(n, i @ c # cs, t)]" "result[0 := 0]" i] c_string_nul [OF assms(4), of "[]"] assms
    by (auto simp: cache_lookup_ip_def rd_def wr_def c_string_nul)
qed

end
