(* ===== verification/Dns_Proxy.thy ===== *)
theory Dns_Proxy
  imports Dns_Message Dns_Cache
begin

text \<open>
  The DNS proxy itself: the list of pending requests (\<^verbatim>\<open>dns_list.c\<close>), the socket (\<^verbatim>\<open>dns_io.c\<close>) and the daemon
  (\<^verbatim>\<open>dproxy.c\<close>).

  The list is a chain of allocated nodes.  The heap maps the address of a node to its contents and
  a freed or foreign address to \<^term>\<open>None\<close>; the use of such an address, and a walk that does not end, are
  \<^term>\<open>None\<close>.  \<^verbatim>\<open>malloc\<close> is a parameter.  What the operating system delivers in a round of the main loop
  is an input, the packets that are sent are recorded.
\<close>

section \<open>The request list\<close>

type_synonym heap = "node \<Rightarrow> dns_request_t option"

definition dns_list_add ::
    "(heap \<Rightarrow> node option) \<Rightarrow> heap \<Rightarrow> node option \<Rightarrow> dns_request_t \<Rightarrow> heap \<times> node option" where
  "dns_list_add malloc h list m =
     (case malloc h of
        None \<Rightarrow> (h, list)
      | Some new_node \<Rightarrow> (h(new_node \<mapsto> m\<lparr>q_next := list\<rparr>), Some new_node))"

abbreviation request_id :: "dns_request_t \<Rightarrow> u16" where
  "request_id m \<equiv> h_id (dm_header (q_message m))"

partial_function (option) dns_list_find_by_id :: "heap \<Rightarrow> node option \<Rightarrow> u16 \<Rightarrow> node option option" where
  "dns_list_find_by_id h list i =
     (case list of
        None \<Rightarrow> Some None
      | Some a \<Rightarrow> do { n \<leftarrow> h a; if request_id n = i then Some (Some a) else dns_list_find_by_id h (q_next n) i })"

text \<open>The node whose \<^verbatim>\<open>next\<close> is \<open>m\<close>.\<close>

partial_function (option) find_prev :: "heap \<Rightarrow> node option \<Rightarrow> node \<Rightarrow> node option option" where
  "find_prev h prev m =
     (case prev of
        None \<Rightarrow> Some None
      | Some a \<Rightarrow> do { n \<leftarrow> h a; if q_next n = Some m then Some (Some a) else find_prev h (q_next n) m })"

definition dns_list_remove :: "heap \<Rightarrow> node option \<Rightarrow> node option \<Rightarrow> (heap \<times> node option) option" where
  "dns_list_remove h list m =
     (case m of
        None \<Rightarrow> Some (h, list)
      | Some a \<Rightarrow> do {
          prev \<leftarrow> find_prev h list a;
          n \<leftarrow> h a;
          (case prev of
             None \<Rightarrow> Some (h(a := None), q_next n)
           | Some p \<Rightarrow> do { pn \<leftarrow> h p; Some ((h(p \<mapsto> pn\<lparr>q_next := q_next n\<rparr>))(a := None), list) }) })"

section \<open>State and environment\<close>

abbreviation (input) DNS_TIMEOUT :: int where "DNS_TIMEOUT \<equiv> 240"
abbreviation (input) DNS_SERVER_TIMEOUT :: int where "DNS_SERVER_TIMEOUT \<equiv> 2"
abbreviation (input) DNS_PORT :: u16 where "DNS_PORT \<equiv> 53"

datatype dns_event = Sent u32 u16 bytes

record dproxy =
  dp_heap :: heap
  dp_list :: "node option"
  dp_conf :: config
  dp_cache :: "bytes option"
  dp_ctime :: int
  dp_m :: dns_request_t
  dp_purge :: int
  dp_out :: "dns_event list"

text \<open>
  The inputs of a round: whether \<^verbatim>\<open>select\<close> reports data, what \<^verbatim>\<open>recvfrom\<close> returns (data, address and port of
  the sender), the change time of the configuration file, the files, the clock, and the success of
  the operations on the cache file.
\<close>

record dns_io =
  io_malloc :: "heap \<Rightarrow> node option"
  io_ready :: bool
  io_recv :: "(bytes \<times> u32 \<times> u16) option"
  io_stat :: "int option"
  io_files :: "bytes \<Rightarrow> bytes option"
  io_now :: u32
  io_append :: bool
  io_rename :: bool
  io_create :: bool

section \<open>Socket operations\<close>

text \<open>The first component is the return value 0.\<close>

definition dns_read_packet :: "dns_io \<Rightarrow> dns_request_t \<Rightarrow> (bool \<times> dns_request_t) option" where
  "dns_read_packet io m =
     (case io_recv io of
        None \<Rightarrow> Some (False, m\<lparr>q_numread := - 1\<rparr>)
      | Some (d, addr, port) \<Rightarrow>
          let d' = take MAX_PACKET_SIZE d in do {
          b \<leftarrow> wr_n (q_original_buf m) 0 d';
          let m1 = m\<lparr>q_original_buf := b, q_numread := int (length d'), q_src_addr := addr, q_src_port := port\<rparr>;
          if length d' < 12 then Some (False, m1)
          else do { m2 \<leftarrow> dns_decode_request (m1\<lparr>q_cache := False\<rparr>); Some (True, m2) } })"

text \<open>A negative length makes \<^verbatim>\<open>sendto\<close> fail.\<close>

definition dns_write_packet :: "u32 \<Rightarrow> u16 \<Rightarrow> dns_request_t \<Rightarrow> dns_event list option" where
  "dns_write_packet addr port m =
     (if q_numread m < 0 then Some []
      else do { d \<leftarrow> rd_n (q_original_buf m) 0 (nat (q_numread m)); Some [Sent addr port d] })"

definition emit_packet :: "u32 \<Rightarrow> u16 \<Rightarrow> dns_request_t \<Rightarrow> dproxy \<Rightarrow> dproxy option" where
  "emit_packet addr port m s = do {
     e \<leftarrow> dns_write_packet addr port m;
     Some (s\<lparr>dp_out := dp_out s @ e\<rparr>) }"

section \<open>Handling a packet\<close>

definition is_connected :: "dns_io \<Rightarrow> config \<Rightarrow> bool" where
  "is_connected io c \<longleftrightarrow> cf_ppp_detect c = 0 \<or> io_files io (cf_ppp_device_file c) \<noteq> None"

text \<open>
  The lookup of \<^verbatim>\<open>dns_handle_new_query\<close>: the return value (\<^term>\<open>None\<close> for -1) and the request with the fields
  that the lookup fills in.
\<close>

definition query_lookup :: "dproxy \<Rightarrow> dns_request_t \<Rightarrow> (bool option \<times> dns_request_t) option" where
  "query_lookup s m =
     (let ty = rr_type (question0 m) in
      if ty = TYPE_A then do {
        name \<leftarrow> c_string_at (q_cname m) 0;
        (found, ip) \<leftarrow> cache_lookup_name (dp_cache s) name (q_ip m);
        Some (Some found, m\<lparr>q_ip := ip\<rparr>) }
      else if ty = TYPE_AAA then Some (Some False, m)
      else if ty = TYPE_PTR then do {
        (found, cname) \<leftarrow> cache_lookup_ip (dp_cache s) (q_ip m) (q_cname m);
        Some (Some found, m\<lparr>q_cname := cname\<rparr>) }
      else Some (None, m))"

text \<open>An address that \<^verbatim>\<open>inet_aton\<close> rejects leaves \<^verbatim>\<open>in\<close> undefined.\<close>

definition relay_query :: "dns_io \<Rightarrow> dns_request_t \<Rightarrow> dproxy \<Rightarrow> dproxy option" where
  "relay_query io m s = do {
     let (h, l) = dns_list_add (io_malloc io) (dp_heap s) (dp_list s) m;
     server \<leftarrow> rd (cf_name_server (dp_conf s)) 0;
     addr \<leftarrow> inet_aton server;
     emit_packet addr DNS_PORT m (s\<lparr>dp_heap := h, dp_list := l\<rparr>) }"

definition dns_handle_new_query :: "dns_io \<Rightarrow> dproxy \<Rightarrow> dproxy option" where
  "dns_handle_new_query io s = do {
     (r, m) \<leftarrow> query_lookup s (dp_m s);
     let s1 = s\<lparr>dp_m := m\<rparr>;
     (case r of
        Some False \<Rightarrow>
          if is_connected io (dp_conf s) then relay_query io m s1
          else do {
            m' \<leftarrow> dns_construct_error_reply m;
            emit_packet (q_src_addr m') (q_src_port m') m' (s1\<lparr>dp_m := m'\<rparr>) }
      | Some True \<Rightarrow> do {
          m' \<leftarrow> dns_construct_reply m;
          emit_packet (q_src_addr m') (q_src_port m') m' (s1\<lparr>dp_m := m'\<rparr>) }
      | None \<Rightarrow> Some s1) }"

text \<open>The \<^verbatim>\<open>switch\<close> on the response code: whether the response is forwarded, and the cache file.\<close>

definition response_action :: "dns_io \<Rightarrow> dproxy \<Rightarrow> dns_request_t \<Rightarrow> (bool \<times> bytes option) option" where
  "response_action io s m =
     (let f = h_flags (dm_header (q_message m)) in
      if flags_rcode f = DNS_NO_ERROR then
        if rr_type (question0 m) \<noteq> TYPE_AAA \<and> q_cache m then do {
          c \<leftarrow> cache_name_append (io_append io) (io_now io) (dp_cache s) (q_cname m) (q_ip m);
          Some (True, c) }
        else Some (True, dp_cache s)
      else if flags_rcode f = DNS_FMT_ERROR then Some (True, dp_cache s)
      else if flags_rcode f = DNS_NAME_ERR then Some (flags_authorative f, dp_cache s)
      else Some (False, dp_cache s))"

definition dns_handle_request :: "dns_io \<Rightarrow> dproxy \<Rightarrow> dproxy option" where
  "dns_handle_request io s = do {
     let m = dp_m s;
     ptr \<leftarrow> dns_list_find_by_id (dp_heap s) (dp_list s) (request_id m);
     (case ptr of
        None \<Rightarrow> dns_handle_new_query io s
      | Some a \<Rightarrow>
          if flags_question (h_flags (dm_header (q_message m))) then do {
            (forward_resp, c) \<leftarrow> response_action io s m;
            let s1 = s\<lparr>dp_cache := c\<rparr>;
            if forward_resp then do {
              n \<leftarrow> dp_heap s1 a;
              s2 \<leftarrow> emit_packet (q_src_addr n) (q_src_port n) m s1;
              (h, l) \<leftarrow> dns_list_remove (dp_heap s2) (dp_list s2) (Some a);
              Some (s2\<lparr>dp_heap := h, dp_list := l\<rparr>) }
            else Some s1 }
          else Some s) }"

section \<open>The main loop\<close>

text \<open>An error reply to the client of a pending request, which is then removed.\<close>

definition drop_request :: "node \<Rightarrow> dproxy \<Rightarrow> dproxy option" where
  "drop_request ptr s = do {
     n \<leftarrow> dp_heap s ptr;
     n' \<leftarrow> dns_construct_error_reply n;
     s1 \<leftarrow> emit_packet (q_src_addr n') (q_src_port n') n' (s\<lparr>dp_heap := (dp_heap s)(ptr \<mapsto> n')\<rparr>);
     (h, l) \<leftarrow> dns_list_remove (dp_heap s1) (dp_list s1) (Some ptr);
     Some (s1\<lparr>dp_heap := h, dp_list := l\<rparr>) }"

text \<open>Every two seconds the request goes to the next server; when there is none it is dropped.\<close>

definition try_next_server :: "node \<Rightarrow> dproxy \<Rightarrow> dproxy option" where
  "try_next_server ptr s = do {
     n \<leftarrow> dp_heap s ptr;
     let t = q_time_pending n;
     if t mod DNS_SERVER_TIMEOUT = 0 \<and> t < DNS_TIMEOUT then
       let next_server_index = t div DNS_SERVER_TIMEOUT in
       if int MAX_NAME_SERVER \<le> next_server_index then drop_request ptr s
       else do {
         server \<leftarrow> rd (cf_name_server (dp_conf s)) (nat next_server_index);
         if server = [] then drop_request ptr s
         else do { addr \<leftarrow> inet_aton server; emit_packet addr DNS_PORT n s } }
     else Some s }"

text \<open>
  The body of the loop over the pending requests, after \<^verbatim>\<open>next\<close> is saved.  The second test reads the node
  again, which the first may have freed.
\<close>

definition age_request :: "node \<Rightarrow> dproxy \<Rightarrow> dproxy option" where
  "age_request ptr s = do {
     n \<leftarrow> dp_heap s ptr;
     let t = q_time_pending n + 1;
     let s1 = s\<lparr>dp_heap := (dp_heap s)(ptr \<mapsto> n\<lparr>q_time_pending := t\<rparr>)\<rparr>;
     s2 \<leftarrow> (if DNS_TIMEOUT < t then drop_request ptr s1 else Some s1);
     try_next_server ptr s2 }"

partial_function (option) age_requests :: "node option \<Rightarrow> dproxy \<Rightarrow> dproxy option" where
  "age_requests ptr s =
     (case ptr of
        None \<Rightarrow> Some s
      | Some a \<Rightarrow> do {
          n \<leftarrow> dp_heap s a;
          s' \<leftarrow> age_request a s;
          age_requests (q_next n) s' })"

definition reload_config :: "dns_io \<Rightarrow> dproxy \<Rightarrow> dproxy option" where
  "reload_config io s =
     (case io_stat io of
        Some t \<Rightarrow>
          if dp_ctime s \<noteq> t then do {
            c \<leftarrow> conf_load (io_files io) (cf_config_file (dp_conf s)) (dp_conf s);
            Some (s\<lparr>dp_conf := c, dp_ctime := t\<rparr>) }
          else Some s
      | None \<Rightarrow> Some s)"

definition purge_cache :: "dns_io \<Rightarrow> dproxy \<Rightarrow> dproxy option" where
  "purge_cache io s = do {
     c \<leftarrow> cache_purge (io_rename io) (io_create io) (io_now io) (io_files io (cf_hosts_file (dp_conf s)))
       (cf_purge_time (dp_conf s)) (dp_cache s);
     Some (s\<lparr>dp_cache := c\<rparr>) }"

text \<open>\<^verbatim>\<open>config.purge_time / 60\<close> rounds towards zero.\<close>

definition purge_interval :: "config \<Rightarrow> int" where
  "purge_interval c = (if cf_purge_time c < 0 then - (- cf_purge_time c div 60) else cf_purge_time c div 60)"

definition tick_purge :: "dns_io \<Rightarrow> dproxy \<Rightarrow> dproxy option" where
  "tick_purge io s =
     (let p = dp_purge s - 1 in
      if p = 0 then do { s' \<leftarrow> purge_cache io s; Some (s'\<lparr>dp_purge := purge_interval (dp_conf s')\<rparr>) }
      else Some (s\<lparr>dp_purge := p\<rparr>))"

text \<open>One round of \<^verbatim>\<open>dns_main_loop\<close>.\<close>

definition dns_main_round :: "dns_io \<Rightarrow> dproxy \<Rightarrow> dproxy option" where
  "dns_main_round io s =
     (if io_ready io then do {
        (ok, m) \<leftarrow> dns_read_packet io (dp_m s);
        dns_handle_request io (s\<lparr>dp_m := m\<lparr>q_time_pending := 0\<rparr>\<rparr>) }
      else do {
        s1 \<leftarrow> reload_config io s;
        s2 \<leftarrow> age_requests (dp_list s1) s1;
        tick_purge io s2 })"

section \<open>Start\<close>

datatype dns_option = Opt_c bytes | Opt_d | Opt_h | Opt_P | Opt_other

datatype start_result = Refused | Printed bytes | Configured config int

text \<open>
  \<^verbatim>\<open>get_options\<close>: the options in turn, with the configuration, the change time of its file, and the flags
  \<^verbatim>\<open>not_daemon\<close> and \<^verbatim>\<open>want_printout\<close>.
\<close>

fun option_loop :: "dns_io \<Rightarrow> dns_option list \<Rightarrow> config \<Rightarrow> int \<Rightarrow> bool \<Rightarrow> bool \<Rightarrow> start_result option" where
  "option_loop io [] c t not_daemon want_printout =
     (let c' = (if not_daemon then c\<lparr>cf_daemon_mode := 0\<rparr> else c) in
      Some (if want_printout then Printed (conf_print c') else Configured c' t))"
| "option_loop io (Opt_c file # os) c t not_daemon want_printout = do {
     c' \<leftarrow> conf_load (io_files io) file c;
     option_loop io os c' (case io_stat io of None \<Rightarrow> t | Some t' \<Rightarrow> t') not_daemon want_printout }"
| "option_loop io (Opt_d # os) c t not_daemon want_printout = option_loop io os c t True want_printout"
| "option_loop io (Opt_P # os) c t not_daemon want_printout = option_loop io os c t not_daemon True"
| "option_loop io (_ # os) c t not_daemon want_printout = Some Refused"

definition get_options :: "dns_io \<Rightarrow> dns_option list \<Rightarrow> start_result option" where
  "get_options io os = option_loop io os (conf_defaults config_zero) 0 False False"

text \<open>
  \<^verbatim>\<open>dns_init\<close> and the entry of \<^verbatim>\<open>dns_main_loop\<close>, once the socket is bound.  The request structure on the
  stack of the main loop has arbitrary contents \<open>m\<close>.
\<close>

definition dns_init :: "dns_io \<Rightarrow> config \<Rightarrow> int \<Rightarrow> bytes option \<Rightarrow> dns_request_t \<Rightarrow> dproxy option" where
  "dns_init io c t cache m =
     purge_cache io \<lparr>dp_heap = (\<lambda>_. None), dp_list = None, dp_conf = c, dp_cache = cache, dp_ctime = t, dp_m = m,
       dp_purge = purge_interval c, dp_out = []\<rparr>"

definition sig_hup :: "dns_io \<Rightarrow> dproxy \<Rightarrow> dproxy option" where
  "sig_hup io s = do {
     c \<leftarrow> conf_load (io_files io) (cf_config_file (dp_conf s)) (dp_conf s);
     Some (s\<lparr>dp_conf := c\<rparr>) }"

section \<open>Chains of nodes\<close>

text \<open>The nodes of a list in the heap.\<close>

fun chain :: "heap \<Rightarrow> node option \<Rightarrow> node list \<Rightarrow> bool" where
  "chain h p [] \<longleftrightarrow> p = None"
| "chain h p (a # as) \<longleftrightarrow> p = Some a \<and> (\<exists>n. h a = Some n \<and> chain h (q_next n) as)"

lemma chain_unique: "chain h p as \<Longrightarrow> chain h p bs \<Longrightarrow> as = bs"
proof (induction as arbitrary: p bs)
  case Nil
  then show ?case by (cases bs) auto
next
  case (Cons a as)
  then show ?case by (cases bs) auto
qed

lemma chain_suffix: "chain h p (xs @ a # ys) \<Longrightarrow> \<exists>n. h a = Some n \<and> chain h (q_next n) ys"
  by (induction xs arbitrary: p) auto

lemma chain_distinct: "chain h p as \<Longrightarrow> distinct as"
proof (induction as arbitrary: p)
  case (Cons a as)
  then obtain n where n: "h a = Some n" "chain h (q_next n) as" by auto
  have "a \<notin> set as"
  proof
    assume "a \<in> set as"
    then obtain us vs where as: "as = us @ a # vs" by (auto simp: in_set_conv_decomp)
    from chain_suffix [OF n(2) [unfolded as]] n(1) have "chain h (q_next n) vs" by auto
    from chain_unique [OF this n(2)] have "length vs = length (us @ a # vs)" by (simp add: as)
    then show False by simp
  qed
  with Cons.IH [OF n(2)] show ?case by simp
qed simp

lemma chain_frame: "chain h p as \<Longrightarrow> (\<And>a. a \<in> set as \<Longrightarrow> h' a = h a) \<Longrightarrow> chain h' p as"
  by (induction as arbitrary: p) auto

lemma chain_alloc: "chain h p as \<Longrightarrow> a \<in> set as \<Longrightarrow> \<exists>n. h a = Some n"
  by (induction as arbitrary: p) auto

text \<open>Changing the contents of a node leaves the chain as it is.\<close>

lemma chain_update:
  assumes "chain h p as" "h a = Some n" "q_next n' = q_next n"
  shows "chain (h(a \<mapsto> n')) p as"
  using assms(1)
proof (induction as arbitrary: p)
  case (Cons b as)
  then obtain m where "p = Some b" "h b = Some m" "chain h (q_next m) as" by auto
  then show ?case using Cons.IH assms(2,3) by (cases "b = a") auto
qed simp

lemma find_by_id_chain:
  "chain h p as \<Longrightarrow> dns_list_find_by_id h p i = Some (find (\<lambda>a. request_id (the (h a)) = i) as)"
proof (induction as arbitrary: p)
  case Nil
  then show ?case by (simp add: dns_list_find_by_id.simps)
next
  case (Cons a as)
  then show ?case by (subst dns_list_find_by_id.simps) auto
qed

lemma find_prev_first: "chain h p as \<Longrightarrow> (\<And>b n. b \<in> set as \<Longrightarrow> h b = Some n \<Longrightarrow> q_next n \<noteq> Some a) \<Longrightarrow> find_prev h p a = Some None"
proof (induction as arbitrary: p)
  case Nil
  then show ?case by (simp add: find_prev.simps)
next
  case (Cons b as)
  then obtain n where n: "p = Some b" "h b = Some n" "chain h (q_next n) as" by auto
  with Cons.prems(2) [of b n] have "q_next n \<noteq> Some a" by simp
  moreover have "find_prev h (q_next n) a = Some None" using Cons n by auto
  ultimately show ?case using n by (subst find_prev.simps) simp
qed

lemma chain_next_in: "chain h p as \<Longrightarrow> b \<in> set as \<Longrightarrow> h b = Some n \<Longrightarrow> q_next n = Some a \<Longrightarrow> \<exists>us vs. as = us @ b # a # vs"
proof (induction as arbitrary: p)
  case (Cons c as)
  then obtain m where m: "h c = Some m" "chain h (q_next m) as" by auto
  show ?case
  proof (cases "b = c")
    case True
    with Cons.prems m obtain vs where "as = a # vs" by (cases as) auto
    with True show ?thesis by (intro exI [of _ "[]"] exI [of _ vs]) simp
  next
    case False
    with Cons.IH [OF m(2)] Cons.prems(2-4) obtain us vs where "as = us @ b # a # vs" by auto
    then show ?thesis by (intro exI [of _ "c # us"] exI [of _ vs]) simp
  qed
qed simp

lemma find_prev_head: "chain h p (a # ys) \<Longrightarrow> find_prev h p a = Some None"
proof (rule find_prev_first)
  assume c: "chain h p (a # ys)"
  fix b n assume "b \<in> set (a # ys)" "h b = Some n"
  show "q_next n \<noteq> Some a"
  proof
    assume "q_next n = Some a"
    with chain_next_in [OF c] \<open>b \<in> set (a # ys)\<close> \<open>h b = Some n\<close> obtain us vs where "a # ys = us @ b # a # vs" by blast
    moreover have "distinct (a # ys)" using c by (rule chain_distinct)
    ultimately show False by (cases us) auto
  qed
qed assumption

lemma find_prev_inner: "chain h p (us @ b # a # vs) \<Longrightarrow> find_prev h p a = Some (Some b)"
proof (induction us arbitrary: p)
  case Nil
  then show ?case by (subst find_prev.simps) auto
next
  case (Cons c us)
  then obtain n where n: "p = Some c" "h c = Some n" "chain h (q_next n) (us @ b # a # vs)" by auto
  have "q_next n \<noteq> Some a"
  proof
    assume "q_next n = Some a"
    with n(3) chain_distinct [OF n(3)] show False by (cases us) auto
  qed
  with n Cons.IH [OF n(3)] show ?case by (subst find_prev.simps) simp
qed

text \<open>Nodes whose contents are the same up to the link.\<close>

definition same_nodes :: "heap \<Rightarrow> heap \<Rightarrow> node list \<Rightarrow> bool" where
  "same_nodes h h' as \<longleftrightarrow> (\<forall>a\<in>set as. \<exists>n x. h a = Some n \<and> h' a = Some (n\<lparr>q_next := x\<rparr>))"

lemma same_nodes_eq: "chain h p as \<Longrightarrow> (\<And>a. a \<in> set as \<Longrightarrow> h' a = h a) \<Longrightarrow> same_nodes h h' as"
proof -
  assume c: "chain h p as" and e: "\<And>a. a \<in> set as \<Longrightarrow> h' a = h a"
  have "\<exists>n x. h a = Some n \<and> h' a = Some (n\<lparr>q_next := x\<rparr>)" if "a \<in> set as" for a
  proof -
    obtain n where "h a = Some n" using chain_alloc [OF c \<open>a \<in> set as\<close>] by blast
    with e [OF that] show ?thesis by (intro exI [of _ n] exI [of _ "q_next n"]) simp
  qed
  then show ?thesis by (simp add: same_nodes_def)
qed

lemma chain_relink:
  assumes "chain h p (us @ b # a # vs)" "h b = Some nb" "h a = Some na"
    and "h' b = Some (nb\<lparr>q_next := q_next na\<rparr>)" "\<And>d. d \<noteq> a \<Longrightarrow> d \<noteq> b \<Longrightarrow> h' d = h d"
  shows "chain h' p (us @ b # vs)"
  using assms(1)
proof (induction us arbitrary: p)
  case Nil
  then have c: "chain h (q_next na) vs" "distinct (b # a # vs)" "p = Some b"
    using assms(2,3) chain_distinct [of h p "[] @ b # a # vs"] by auto
  have "chain h' (q_next na) vs"
  proof (rule chain_frame [OF c(1)])
    fix d assume "d \<in> set vs"
    then have "d \<noteq> a" "d \<noteq> b" using c(2) by auto
    then show "h' d = h d" by (rule assms(5))
  qed
  with assms(4) c(3) show ?case by simp
next
  case (Cons c us)
  then have "distinct (c # us @ b # a # vs)" using chain_distinct [of h p "(c # us) @ b # a # vs"] by simp
  then have "h' c = h c" using assms(5) by simp
  with Cons show ?case by auto
qed

text \<open>Removing a node of the list takes it out of the chain and frees it; the other nodes keep their contents, and the
  nodes behind it are not touched at all.\<close>

lemma remove_chain:
  assumes "chain h p (xs @ a # ys)"
  shows "\<exists>h' p'. dns_list_remove h p (Some a) = Some (h', p') \<and> chain h' p' (xs @ ys) \<and> same_nodes h h' (xs @ ys) \<and>
    h' a = None \<and> (\<forall>b. b \<notin> set xs \<longrightarrow> b \<noteq> a \<longrightarrow> h' b = h b)"
proof -
  obtain na where na: "h a = Some na" "chain h (q_next na) ys" using chain_suffix [OF assms] by blast
  have dist: "distinct (xs @ a # ys)" using assms by (rule chain_distinct)
  show ?thesis
  proof (cases xs rule: rev_cases)
    case Nil
    have fp: "find_prev h p a = Some None" using assms Nil by (intro find_prev_head [of h p a ys]) simp
    let ?h = "h(a := None)"
    have c: "chain ?h (q_next na) ys" using na(2) dist by (elim chain_frame) auto
    have s: "same_nodes h ?h ys" using na(2) dist by (elim same_nodes_eq) auto
    have "dns_list_remove h p (Some a) = Some (?h, q_next na)" using fp na(1) by (simp add: dns_list_remove_def)
    with c s Nil show ?thesis by (intro exI [of _ ?h] exI [of _ "q_next na"]) simp
  next
    case (snoc us b)
    have ch: "chain h p (us @ b # a # ys)" using assms snoc by simp
    obtain nb where nb: "h b = Some nb" using chain_suffix [OF ch] by blast
    have fp: "find_prev h p a = Some (Some b)" using ch by (rule find_prev_inner)
    let ?h = "(h(b \<mapsto> nb\<lparr>q_next := q_next na\<rparr>))(a := None)"
    have c: "chain ?h p (us @ b # ys)"
      using dist snoc by (intro chain_relink [OF ch nb na(1)]) auto
    have s: "same_nodes h ?h (us @ b # ys)"
      unfolding same_nodes_def
    proof
      fix d assume d: "d \<in> set (us @ b # ys)"
      then have "d \<noteq> a" using dist snoc by auto
      show "\<exists>n x. h d = Some n \<and> ?h d = Some (n\<lparr>q_next := x\<rparr>)"
      proof (cases "d = b")
        case True
        with nb \<open>d \<noteq> a\<close> show ?thesis by (intro exI [of _ nb] exI [of _ "q_next na"]) simp
      next
        case False
        obtain n where "h d = Some n" using chain_alloc [OF ch, of d] d by auto
        with False \<open>d \<noteq> a\<close> show ?thesis by (intro exI [of _ n] exI [of _ "q_next n"]) simp
      qed
    qed
    have "dns_list_remove h p (Some a) = Some (?h, p)" using fp na(1) nb by (simp add: dns_list_remove_def)
    with c s snoc show ?thesis by (intro exI [of _ ?h] exI [of _ p]) simp
  qed
qed

section \<open>The pending requests as a list\<close>

definition strip :: "dns_request_t \<Rightarrow> dns_request_t" where
  "strip m = m\<lparr>q_next := None\<rparr>"

definition reqs :: "heap \<Rightarrow> node list \<Rightarrow> dns_request_t list" where
  "reqs h as = map (\<lambda>a. strip (the (h a))) as"

definition pending :: "heap \<Rightarrow> node option \<Rightarrow> dns_request_t list \<Rightarrow> bool" where
  "pending h p ms \<longleftrightarrow> (\<exists>as. chain h p as \<and> ms = reqs h as)"

lemma strip_simps [simp]:
  "request_id (strip m) = request_id m" "q_src_addr (strip m) = q_src_addr m" "q_src_port (strip m) = q_src_port m"
  "q_time_pending (strip m) = q_time_pending m" "wf_request (strip m) = wf_request m" "q_numread (strip m) = q_numread m"
  "q_original_buf (strip m) = q_original_buf m" "q_message (strip m) = q_message m" "strip (m\<lparr>q_next := x\<rparr>) = strip m"
  "strip (strip m) = strip m" "strip (m\<lparr>q_time_pending := t\<rparr>) = (strip m)\<lparr>q_time_pending := t\<rparr>"
  by (simp_all add: strip_def wf_request_def)

lemma same_nodes_reqs: "same_nodes h h' as \<Longrightarrow> reqs h' as = reqs h as"
  by (induction as) (auto simp: same_nodes_def reqs_def)

lemma reqs_simps [simp]: "reqs h [] = []" "reqs h (a # as) = strip (the (h a)) # reqs h as" "reqs h (as @ bs) = reqs h as @ reqs h bs"
  by (simp_all add: reqs_def)

lemma reqs_frame: "(\<And>a. a \<in> set as \<Longrightarrow> h' a = h a) \<Longrightarrow> reqs h' as = reqs h as"
  by (simp add: reqs_def)

text \<open>Removing the first request with an identifier.\<close>

fun drop_id :: "u16 \<Rightarrow> dns_request_t list \<Rightarrow> dns_request_t list" where
  "drop_id i [] = []"
| "drop_id i (m # ms) = (if request_id m = i then ms else m # drop_id i ms)"

definition malloc_ok :: "(heap \<Rightarrow> node option) \<Rightarrow> bool" where
  "malloc_ok malloc \<longleftrightarrow> (\<forall>h a. malloc h = Some a \<longrightarrow> h a = None)"

lemma add_pending:
  assumes "pending h p ms" "malloc_ok malloc" "dns_list_add malloc h p m = (h', p')"
  shows "pending h' p' ms \<and> malloc h = None \<and> h' = h \<and> p' = p \<or> pending h' p' (strip m # ms)"
proof (cases "malloc h")
  case None
  then show ?thesis using assms by (simp add: dns_list_add_def)
next
  case (Some a)
  obtain as where as: "chain h p as" "ms = reqs h as" using assms(1) by (auto simp: pending_def)
  have "a \<notin> set as" using chain_alloc [OF as(1), of a] Some assms(2) unfolding malloc_ok_def by (metis option.distinct(1))
  then have "chain h' p' (a # as)" "reqs h' (a # as) = strip m # ms"
    using Some assms(3) as by (auto simp: dns_list_add_def reqs_def intro!: chain_frame [OF as(1)])
  then show ?thesis unfolding pending_def by metis
qed

lemma find_split:
  assumes "find P xs = Some x"
  shows "\<exists>us vs. xs = us @ x # vs \<and> P x \<and> (\<forall>u\<in>set us. \<not> P u)"
  using assms by (induction xs) (auto split: if_splits intro: exI [of _ "[]"] elim!: meta_mp, metis append_Cons set_ConsD)

lemma find_first: "(\<forall>u\<in>set us. \<not> P u) \<Longrightarrow> P x \<Longrightarrow> find P (us @ x # vs) = Some x"
  by (induction us) simp_all

lemma drop_id_append: "(\<forall>u\<in>set us. request_id u \<noteq> i) \<Longrightarrow> request_id m = i \<Longrightarrow> drop_id i (us @ m # vs) = us @ vs"
  by (induction us) simp_all

lemma find_pending:
  assumes "pending h p ms"
  shows "dns_list_find_by_id h p i = Some None \<and> (\<forall>m\<in>set ms. request_id m \<noteq> i) \<or>
    (\<exists>a n h' p'. dns_list_find_by_id h p i = Some (Some a) \<and> h a = Some n \<and>
       find (\<lambda>m. request_id m = i) ms = Some (strip n) \<and>
       dns_list_remove h p (Some a) = Some (h', p') \<and> pending h' p' (drop_id i ms))"
proof -
  obtain as where as: "chain h p as" "ms = reqs h as" using assms by (auto simp: pending_def)
  show ?thesis
  proof (cases "find (\<lambda>a. request_id (the (h a)) = i) as")
    case None
    then have "\<forall>a\<in>set as. request_id (the (h a)) \<noteq> i" by (simp add: find_None_iff)
    with None as find_by_id_chain [OF as(1)] show ?thesis by (simp add: reqs_def)
  next
    case (Some a)
    then obtain us vs where s: "as = us @ a # vs" "request_id (the (h a)) = i" "\<forall>u\<in>set us. request_id (the (h u)) \<noteq> i"
      using find_split [OF Some] by blast
    obtain n where n: "h a = Some n" using chain_suffix [OF as(1) [unfolded s(1)]] by blast
    from remove_chain [OF as(1) [unfolded s(1)]] obtain h' p' where
      r: "dns_list_remove h p (Some a) = Some (h', p')" "chain h' p' (us @ vs)" "same_nodes h h' (us @ vs)" by blast
    have ms: "ms = reqs h us @ strip n # reqs h vs" using as(2) s(1) n by simp
    have us: "\<forall>u\<in>set (reqs h us). request_id u \<noteq> i" using s(3) by (auto simp: reqs_def)
    have "find (\<lambda>m. request_id m = i) (reqs h us @ strip n # reqs h vs) = Some (strip n)"
      using us s(2) n by (intro find_first) simp_all
    moreover have "drop_id i ms = reqs h' (us @ vs)"
      unfolding ms same_nodes_reqs [OF r(3)] using drop_id_append [OF us, of "strip n"] s(2) n by simp
    then have "pending h' p' (drop_id i ms)" using r(2) unfolding pending_def by metis
    ultimately show ?thesis using find_by_id_chain [OF as(1)] Some n r(1) ms by auto
  qed
qed

section \<open>Aging of the pending requests\<close>

definition sendable :: "dns_request_t \<Rightarrow> bool" where
  "sendable m \<longleftrightarrow> wf_request m \<and> q_numread m \<le> int MAX_PACKET_SIZE"

definition packet_events :: "u32 \<Rightarrow> u16 \<Rightarrow> dns_request_t \<Rightarrow> dns_event list" where
  "packet_events addr port m =
     (if q_numread m < 0 then [] else [Sent addr port (take (nat (q_numread m)) (q_original_buf m))])"

lemma emit_sendable: "sendable m \<Longrightarrow> emit_packet addr port m s = Some (s\<lparr>dp_out := dp_out s @ packet_events addr port m\<rparr>)"
  by (simp add: emit_packet_def dns_write_packet_def packet_events_def sendable_def wf_request_def rd_n_def nat_le_iff)

definition servers_ok :: "config \<Rightarrow> bool" where
  "servers_ok c \<longleftrightarrow> length (cf_name_server c) = MAX_NAME_SERVER \<and>
     (\<forall>srv\<in>set (cf_name_server c). srv = [] \<or> inet_aton srv \<noteq> None)"

definition server_addr :: "config \<Rightarrow> nat \<Rightarrow> u32" where
  "server_addr c i = the (inet_aton (cf_name_server c ! i))"

text \<open>At age \<open>t\<close> there is no further server to ask.\<close>

definition gives_up :: "config \<Rightarrow> int \<Rightarrow> bool" where
  "gives_up c t \<longleftrightarrow> t mod 2 = 0 \<and> (5 \<le> t div 2 \<or> cf_name_server c ! nat (t div 2) = [])"

definition error_of :: "dns_request_t \<Rightarrow> dns_request_t" where
  "error_of m = the (dns_construct_error_reply m)"

text \<open>What a second without packets does to a request, and what is sent for it.\<close>

definition aged :: "config \<Rightarrow> dns_request_t \<Rightarrow> dns_request_t option" where
  "aged c m = (let t = q_time_pending m + 1 in if gives_up c t then None else Some (m\<lparr>q_time_pending := t\<rparr>))"

definition aged_events :: "config \<Rightarrow> dns_request_t \<Rightarrow> dns_event list" where
  "aged_events c m = (let t = q_time_pending m + 1 in
     if gives_up c t then packet_events (q_src_addr m) (q_src_port m) (error_of m)
     else if t mod 2 = 0 then packet_events (server_addr c (nat (t div 2))) DNS_PORT m else [])"

definition fresh_request :: "dns_request_t \<Rightarrow> bool" where
  "fresh_request m \<longleftrightarrow> sendable m \<and> 0 \<le> q_time_pending m \<and> q_time_pending m \<le> 9"

lemma packet_events_cong [simp]:
  "packet_events a p (m\<lparr>q_time_pending := t\<rparr>) = packet_events a p m" "packet_events a p (strip m) = packet_events a p m"
  by (simp_all add: packet_events_def)

lemma error_of_bytes:
  assumes "wf_request m"
  shows "q_original_buf (error_of (strip m)) = q_original_buf (error_of m)" "q_numread (error_of (strip m)) = q_numread (error_of m)"
    "q_original_buf (error_of (m\<lparr>q_time_pending := t\<rparr>)) = q_original_buf (error_of m)"
    "q_numread (error_of (m\<lparr>q_time_pending := t\<rparr>)) = q_numread (error_of m)"
  using assms
  by (simp_all add: error_of_def dns_construct_error_reply_def dns_construct_header_def set_header_def wr_n_def wf_request_def)

lemma aged_events_strip [simp]: "wf_request m \<Longrightarrow> aged_events c (strip m) = aged_events c m"
  using error_of_bytes(1,2) [of m] by (simp add: aged_events_def Let_def packet_events_def)

lemma fresh_strip [simp]: "fresh_request (strip m) = fresh_request m"
  by (simp add: fresh_request_def sendable_def)

lemma error_of_returns:
  assumes "wf_request m"
  shows "dns_construct_error_reply m = Some (error_of m)" "wf_request (error_of m)" "q_src_addr (error_of m) = q_src_addr m"
    "q_src_port (error_of m) = q_src_port m" "q_numread (error_of m) = q_numread m" "q_next (error_of m) = q_next m"
  using error_reply_returns [OF assms] by (auto simp: error_of_def)

text \<open>Dropping a request of the list.\<close>

lemma drop_request_chain:
  assumes "chain (dp_heap s) (dp_list s) (xs @ a # ys)" "dp_heap s a = Some n" "sendable n"
  shows "\<exists>h l. drop_request a s = Some (s\<lparr>dp_heap := h, dp_list := l,
      dp_out := dp_out s @ packet_events (q_src_addr n) (q_src_port n) (error_of n)\<rparr>) \<and>
    chain h l (xs @ ys) \<and> reqs h xs = reqs (dp_heap s) xs \<and> (\<forall>b\<in>set ys. h b = dp_heap s b)"
proof -
  have wf: "wf_request n" "q_numread n \<le> int MAX_PACKET_SIZE" using assms(3) by (simp_all add: sendable_def)
  note e = error_of_returns [OF wf(1)]
  have se: "sendable (error_of n)" using e wf(2) by (simp add: sendable_def)
  let ?h = "(dp_heap s)(a \<mapsto> error_of n)"
  have ch: "chain ?h (dp_list s) (xs @ a # ys)" using assms(1,2) e(6) by (rule chain_update)
  have dist: "distinct (xs @ a # ys)" using assms(1) by (rule chain_distinct)
  from remove_chain [OF ch] obtain h l where r: "dns_list_remove ?h (dp_list s) (Some a) = Some (h, l)" "chain h l (xs @ ys)"
    "same_nodes ?h h (xs @ ys)" "\<forall>b. b \<notin> set xs \<longrightarrow> b \<noteq> a \<longrightarrow> h b = ?h b" by blast
  have "same_nodes ?h h xs" using r(3) by (simp add: same_nodes_def)
  then have "reqs h xs = reqs ?h xs" by (rule same_nodes_reqs)
  also have "\<dots> = reqs (dp_heap s) xs" using dist by (intro reqs_frame) auto
  finally have x: "reqs h xs = reqs (dp_heap s) xs" .
  have y: "h b = dp_heap s b" if "b \<in> set ys" for b
  proof -
    have "b \<notin> set xs" "b \<noteq> a" using dist that by auto
    then show ?thesis using r(4) by simp
  qed
  have "drop_request a s = Some (s\<lparr>dp_heap := h, dp_list := l,
      dp_out := dp_out s @ packet_events (q_src_addr n) (q_src_port n) (error_of n)\<rparr>)"
    using assms(2) e r(1) by (simp add: drop_request_def emit_sendable [OF se])
  with r(2) x y show ?thesis by blast
qed

lemma age_request_chain:
  assumes "chain (dp_heap s) (dp_list s) (xs @ a # ys)" "dp_heap s a = Some n" "fresh_request n" "servers_ok (dp_conf s)"
  shows "\<exists>h l. age_request a s = Some (s\<lparr>dp_heap := h, dp_list := l, dp_out := dp_out s @ aged_events (dp_conf s) n\<rparr>) \<and>
    (case aged (dp_conf s) n of
       None \<Rightarrow> chain h l (xs @ ys)
     | Some n' \<Rightarrow> chain h l (xs @ a # ys) \<and> h a = Some n') \<and>
    reqs h xs = reqs (dp_heap s) xs \<and> (\<forall>b\<in>set ys. h b = dp_heap s b)"
proof -
  let ?t = "q_time_pending n + 1"
  let ?n = "n\<lparr>q_time_pending := ?t\<rparr>"
  let ?h = "(dp_heap s)(a \<mapsto> ?n)"
  let ?s = "s\<lparr>dp_heap := ?h\<rparr>"
  have f: "sendable n" "wf_request n" "0 \<le> q_time_pending n" "q_time_pending n \<le> 9"
    using assms(3) by (simp_all add: fresh_request_def sendable_def)
  then have sn: "sendable ?n" by (simp add: sendable_def wf_request_def)
  have ch: "chain ?h (dp_list s) (xs @ a # ys)" using assms(1,2) by (rule chain_update) simp
  have dist: "distinct (xs @ a # ys)" using assms(1) by (rule chain_distinct)
  have rx: "reqs ?h xs = reqs (dp_heap s) xs" using dist by (intro reqs_frame) auto
  have ry: "\<forall>b\<in>set ys. ?h b = dp_heap s b" using dist by auto
  from drop_request_chain [of ?s xs a ys ?n] ch sn obtain h l where
    d: "drop_request a ?s = Some (?s\<lparr>dp_heap := h, dp_list := l,
      dp_out := dp_out s @ packet_events (q_src_addr n) (q_src_port n) (error_of ?n)\<rparr>)"
      "chain h l (xs @ ys)" "reqs h xs = reqs ?h xs" "\<forall>b\<in>set ys. h b = ?h b" by auto
  have pe: "packet_events x y (error_of ?n) = packet_events x y (error_of n)" for x y
    using error_of_bytes(3,4) [OF f(2)] by (simp add: packet_events_def)
  consider (odd) "?t mod 2 \<noteq> 0" | (drop) "?t mod 2 = 0" "gives_up (dp_conf s) ?t" | (more) "?t mod 2 = 0" "\<not> gives_up (dp_conf s) ?t" by metis
  then show ?thesis
  proof cases
    case odd
    then have "age_request a s = Some ?s" using assms(2) f(4) by (simp add: age_request_def try_next_server_def Let_def)
    moreover have "aged (dp_conf s) n = Some ?n" "aged_events (dp_conf s) n = []"
      using odd by (simp_all add: aged_def aged_events_def gives_up_def Let_def)
    ultimately show ?thesis using ch rx ry by (intro exI [of _ ?h] exI [of _ "dp_list s"]) simp
  next
    case drop
    have srv: "rd (cf_name_server (dp_conf s)) (nat (?t div 2)) = Some (cf_name_server (dp_conf s) ! nat (?t div 2))"
      if "\<not> 5 \<le> ?t div 2" using that f(3) assms(4) by (simp add: rd_def servers_ok_def)
    have "age_request a s = drop_request a ?s"
      using drop assms(2) f(4) srv by (auto simp: age_request_def try_next_server_def gives_up_def Let_def)
    moreover have "aged (dp_conf s) n = None" "aged_events (dp_conf s) n = packet_events (q_src_addr n) (q_src_port n) (error_of n)"
      using drop by (simp_all add: aged_def aged_events_def Let_def)
    ultimately show ?thesis using d rx ry pe by (intro exI [of _ h] exI [of _ l]) simp
  next
    case more
    then have i: "\<not> 5 \<le> ?t div 2" "cf_name_server (dp_conf s) ! nat (?t div 2) \<noteq> []" by (auto simp: gives_up_def)
    then have lt: "nat (?t div 2) < length (cf_name_server (dp_conf s))" using f(3) assms(4) by (simp add: servers_ok_def)
    then have "cf_name_server (dp_conf s) ! nat (?t div 2) \<in> set (cf_name_server (dp_conf s))" by simp
    with i(2) assms(4) obtain addr where addr: "inet_aton (cf_name_server (dp_conf s) ! nat (?t div 2)) = Some addr"
      unfolding servers_ok_def by blast
    have "age_request a s = emit_packet addr DNS_PORT ?n ?s"
      using more i lt assms(2) f(4) addr by (simp add: age_request_def try_next_server_def Let_def rd_def)
    moreover have "aged (dp_conf s) n = Some ?n" "aged_events (dp_conf s) n = packet_events addr DNS_PORT n"
      using more addr by (simp_all add: aged_def aged_events_def server_addr_def Let_def)
    ultimately show ?thesis using ch rx ry emit_sendable [OF sn]
      by (intro exI [of _ ?h] exI [of _ "dp_list s"]) simp
  qed
qed

lemma age_requests_chain:
  assumes "chain (dp_heap s) (dp_list s) (xs @ ys)" "chain (dp_heap s) p ys" "list_all fresh_request (reqs (dp_heap s) ys)"
    and "servers_ok (dp_conf s)"
  shows "\<exists>h l zs. age_requests p s = Some (s\<lparr>dp_heap := h, dp_list := l,
      dp_out := dp_out s @ concat (map (aged_events (dp_conf s)) (reqs (dp_heap s) ys))\<rparr>) \<and>
    chain h l zs \<and> reqs h zs = reqs (dp_heap s) xs @ List.map_filter (aged (dp_conf s)) (reqs (dp_heap s) ys)"
  using assms
proof (induction ys arbitrary: s xs p)
  case Nil
  then show ?case
    by (intro exI [of _ "dp_heap s"] exI [of _ "dp_list s"] exI [of _ xs]) (simp add: age_requests.simps List.map_filter_def)
next
  case (Cons a ys)
  let ?c = "dp_conf s"
  obtain n where n: "p = Some a" "dp_heap s a = Some n" "chain (dp_heap s) (q_next n) ys" using Cons.prems(2) by auto
  have f: "fresh_request n" "wf_request n" using Cons.prems(3) n(2) by (auto simp: fresh_request_def sendable_def)
  from age_request_chain [OF Cons.prems(1) n(2) f(1) Cons.prems(4)] obtain h l where
    a: "age_request a s = Some (s\<lparr>dp_heap := h, dp_list := l, dp_out := dp_out s @ aged_events ?c n\<rparr>)"
    and ch: "case aged ?c n of None \<Rightarrow> chain h l (xs @ ys) | Some n' \<Rightarrow> chain h l (xs @ a # ys) \<and> h a = Some n'"
    and rx: "reqs h xs = reqs (dp_heap s) xs" and ry: "\<forall>b\<in>set ys. h b = dp_heap s b" by blast
  let ?s = "s\<lparr>dp_heap := h, dp_list := l, dp_out := dp_out s @ aged_events ?c n\<rparr>"
  have ys: "reqs h ys = reqs (dp_heap s) ys" using ry by (intro reqs_frame) simp
  have cy: "chain h (q_next n) ys" using n(3) ry by (intro chain_frame [OF n(3)]) simp
  have fy: "list_all fresh_request (reqs h ys)" using Cons.prems(3) ys by simp
  define xs' where "xs' = (case aged ?c n of None \<Rightarrow> xs | Some n' \<Rightarrow> xs @ [a])"
  have c': "chain h l (xs' @ ys)" using ch by (simp add: xs'_def split: option.splits)
  have r': "reqs h xs' = reqs (dp_heap s) xs @ List.map_filter (aged ?c) [strip n]"
    using ch rx by (auto simp: xs'_def List.map_filter_def aged_def Let_def split: if_splits)
  from Cons.IH [of ?s xs' "q_next n"] c' cy fy Cons.prems(4) obtain h2 l2 zs where
    ih: "age_requests (q_next n) ?s = Some (?s\<lparr>dp_heap := h2, dp_list := l2,
        dp_out := dp_out ?s @ concat (map (aged_events ?c) (reqs h ys))\<rparr>)"
      "chain h2 l2 zs" "reqs h2 zs = reqs h xs' @ List.map_filter (aged ?c) (reqs h ys)" by auto
  have "age_requests p s = age_requests (q_next n) ?s"
    using n(1,2) a by (subst age_requests.simps) simp
  moreover have "reqs h2 zs = reqs (dp_heap s) xs @ List.map_filter (aged ?c) (reqs (dp_heap s) (a # ys))"
    unfolding ih(3) r' ys using n(2) by (simp add: List.map_filter_def)
  ultimately show ?case
    using ih(1,2) ys n(2) f(2)
    by (intro exI [of _ h2] exI [of _ l2] exI [of _ zs]) simp
qed

text \<open>
  A second without packets: every pending request grows older, and is relayed to the next server, answered
  with an error or kept as it is.
\<close>

lemma age_requests_pending:
  assumes "pending (dp_heap s) (dp_list s) ms" "list_all fresh_request ms" "servers_ok (dp_conf s)"
  shows "\<exists>h l. age_requests (dp_list s) s = Some (s\<lparr>dp_heap := h, dp_list := l,
      dp_out := dp_out s @ concat (map (aged_events (dp_conf s)) ms)\<rparr>) \<and>
    pending h l (List.map_filter (aged (dp_conf s)) ms)"
proof -
  obtain as where as: "chain (dp_heap s) (dp_list s) as" "ms = reqs (dp_heap s) as" using assms(1) by (auto simp: pending_def)
  from age_requests_chain [of s "[]" as "dp_list s"] as assms(2,3) obtain h l zs where
    "age_requests (dp_list s) s = Some (s\<lparr>dp_heap := h, dp_list := l,
      dp_out := dp_out s @ concat (map (aged_events (dp_conf s)) ms)\<rparr>)"
    "chain h l zs" "reqs h zs = List.map_filter (aged (dp_conf s)) ms" by auto
  then show ?thesis unfolding pending_def by metis
qed

lemma aged_fresh:
  assumes "fresh_request m" "aged c m = Some m'"
  shows "fresh_request m'" "q_time_pending m' = q_time_pending m + 1"
proof -
  let ?t = "q_time_pending m + 1"
  have m': "m' = m\<lparr>q_time_pending := ?t\<rparr>" "\<not> gives_up c ?t" using assms(2) by (auto simp: aged_def Let_def split: if_splits)
  have "?t \<noteq> 10" using m'(2) by (auto simp: gives_up_def)
  then show "fresh_request m'" using assms(1) m'(1) by (simp add: fresh_request_def sendable_def wf_request_def)
  show "q_time_pending m' = q_time_pending m + 1" using m'(1) by simp
qed

lemma aged_list_fresh:
  assumes "list_all fresh_request ms" "\<forall>m\<in>set ms. k \<le> q_time_pending m"
  shows "list_all fresh_request (List.map_filter (aged c) ms)" "\<forall>m\<in>set (List.map_filter (aged c) ms). k + 1 \<le> q_time_pending m"
  using assms aged_fresh by (fastforce simp: List.map_filter_def list_all_iff)+

section \<open>The invariant of the daemon\<close>

text \<open>
  The list is a proper chain of allocated nodes, every pending request is at most nine seconds old, and the
  arrays have their sizes.  While a packet is handled the length in the request is also in range; before the
  first packet it is not.
\<close>

definition requests_ok :: "dproxy \<Rightarrow> bool" where
  "requests_ok s \<longleftrightarrow> (\<exists>ms. pending (dp_heap s) (dp_list s) ms \<and> list_all fresh_request ms)"

definition dproxy_ok :: "dproxy \<Rightarrow> bool" where
  "dproxy_ok s \<longleftrightarrow> requests_ok s \<and> wf_request (dp_m s)"

definition handler_ok :: "dproxy \<Rightarrow> bool" where
  "handler_ok s \<longleftrightarrow> (\<exists>ms. pending (dp_heap s) (dp_list s) ms \<and> list_all fresh_request ms) \<and> sendable (dp_m s)"

lemma handler_dproxy: "handler_ok s \<Longrightarrow> dproxy_ok s"
  by (simp add: handler_ok_def dproxy_ok_def requests_ok_def sendable_def)

lemma sendable_time [simp]: "sendable (m\<lparr>q_time_pending := t\<rparr>) = sendable m"
  by (simp add: sendable_def wf_request_def)

lemma scan_answers_frame:
  "scan_answers rs m = Some m' \<Longrightarrow> q_numread m' = q_numread m \<and> q_original_buf m' = q_original_buf m \<and>
    q_src_addr m' = q_src_addr m \<and> q_src_port m' = q_src_port m"
  by (induction rs m rule: scan_answers.induct) (auto simp: bind_Some_iff split: if_splits)

lemma decode_request_frame:
  assumes "dns_decode_request m = Some m'"
  shows "q_numread m' = q_numread m \<and> q_original_buf m' = q_original_buf m \<and> q_src_addr m' = q_src_addr m \<and>
    q_src_port m' = q_src_port m"
proof -
  from assms obtain msg m2 where m2: "scan_answers (take (min (unat (h_ancount (dm_header msg))) NUM_RRS) (dm_answer msg)) m2 = Some m'"
    "m2 = (let m1 = m\<lparr>q_message := msg\<rparr>; q = question0 m1 in
       if rr_type q = TYPE_PTR then m1\<lparr>q_ip := copy_text 20 (q_ip m1) (rr_name q)\<rparr>
       else if rr_type q = TYPE_A \<or> rr_type q = TYPE_AAA then m1\<lparr>q_cname := copy_text NAME_SIZE (q_cname m1) (rr_name q)\<rparr>
       else m1)"
    by (auto simp: dns_decode_request_def bind_Some_iff Let_def)
  show ?thesis using scan_answers_frame [OF m2(1)] unfolding m2(2) by (simp add: Let_def)
qed

lemma read_packet_sendable:
  assumes "dns_read_packet io m = Some (ok, m')" "wf_request m"
  shows "sendable m'"
proof (cases "io_recv io")
  case None
  then have "m' = m\<lparr>q_numread := - 1\<rparr>" using assms(1) by (simp add: dns_read_packet_def)
  then show ?thesis using assms(2) by (simp add: sendable_def wf_request_def)
next
  case (Some r)
  obtain d addr port where r: "r = (d, addr, port)" by (cases r)
  let ?d = "take MAX_PACKET_SIZE d"
  from assms(1) Some obtain b where b: "wr_n (q_original_buf m) 0 ?d = Some b"
    and m': "m' = m\<lparr>q_original_buf := b, q_numread := int (length ?d), q_src_addr := addr, q_src_port := port\<rparr> \<or>
      dns_decode_request (m\<lparr>q_original_buf := b, q_numread := int (length ?d), q_src_addr := addr, q_src_port := port, q_cache := False\<rparr>) = Some m'"
    by (auto simp: dns_read_packet_def r bind_Some_iff Let_def split: if_splits)
  let ?m = "m\<lparr>q_original_buf := b, q_numread := int (length ?d), q_src_addr := addr, q_src_port := port\<rparr>"
  have wf: "wf_request ?m" using assms(2) wr_n_length [OF b] by (simp add: sendable_def wf_request_def)
  from m' show ?thesis
  proof
    assume "m' = ?m"
    with wf show ?thesis by (simp add: sendable_def)
  next
    assume d: "dns_decode_request (m\<lparr>q_original_buf := b, q_numread := int (length ?d), q_src_addr := addr, q_src_port := port, q_cache := False\<rparr>) = Some m'"
    have "wf_request (m\<lparr>q_original_buf := b, q_numread := int (length ?d), q_src_addr := addr, q_src_port := port, q_cache := False\<rparr>)"
      using wf by (simp add: wf_request_def)
    with d have "wf_request m'" by (rule dns_decode_request_wf)
    with decode_request_frame [OF d] show ?thesis by (simp add: sendable_def)
  qed
qed

lemma byname_loop_length: "byname_loop inp name ip = Some (found, ip') \<Longrightarrow> length ip' = length ip"
proof (induction inp name ip rule: byname_loop.induct)
  case (1 inp name ip)
  show ?case
  proof (cases "inp = []")
    case True
    with 1(2) show ?thesis by (simp add: byname_loop.simps)
  next
    case False
    obtain tk rest where tk: "strtok (Some (line_of inp)) (cstr '' '') = (tk, rest)" by (cases "strtok (Some (line_of inp)) (cstr '' '')")
    with 1(2) False obtain t where t: "tk = Some t" by (subst (asm) byname_loop.simps) (cases tk, auto)
    show ?thesis
    proof (cases "strcaseeq t name")
      case True
      with 1(2) False tk t show ?thesis
        by (subst (asm) byname_loop.simps) (auto simp: bind_Some_iff dest: wr_n_length)
    next
      case no: False
      have "byname_loop (rest_of inp) name ip = Some (found, ip')"
        using 1(2) False tk t no by (subst (asm) byname_loop.simps) simp
      with 1(1) [OF False tk [symmetric] refl, of t] t no show ?thesis by simp
    qed
  qed
qed

lemma byip_loop_length: "byip_loop inp ip result = Some (found, result') \<Longrightarrow> length result' = length result"
proof (induction inp ip result rule: byip_loop.induct)
  case (1 inp ip result)
  show ?case
  proof (cases "inp = []")
    case True
    with 1(2) show ?thesis by (simp add: byip_loop.simps)
  next
    case False
    obtain tk rest where tk: "strtok (Some (line_of inp)) (cstr '' '') = (tk, rest)" by (cases "strtok (Some (line_of inp)) (cstr '' '')")
    with 1(2) False obtain t where t: "fst (strtok rest (cstr '' '')) = Some t"
      by (subst (asm) byip_loop.simps) (cases "fst (strtok rest (cstr '' ''))", auto)
    show ?thesis
    proof (cases "strncaseeq t ip (length ip)")
      case True
      with 1(2) False tk t show ?thesis
        by (subst (asm) byip_loop.simps) (auto simp: bind_Some_iff dest: wr_n_length)
    next
      case no: False
      have "byip_loop (rest_of inp) ip result = Some (found, result')"
        using 1(2) False tk t no by (subst (asm) byip_loop.simps) simp
      with 1(1) [OF False tk [symmetric] refl, of t] t no show ?thesis by simp
    qed
  qed
qed

lemma lookup_name_length: "cache_lookup_name f n ip = Some (found, ip') \<Longrightarrow> length ip' = length ip"
  by (cases f) (auto simp: cache_lookup_name_def cache_byname_def bind_Some_iff dest!: wr_length byname_loop_length)

lemma lookup_ip_length: "cache_lookup_ip f ip res = Some (found, res') \<Longrightarrow> length res' = length res"
  by (cases f) (auto simp: cache_lookup_ip_def bind_Some_iff split: if_splits dest!: wr_length byip_loop_length)

lemma query_lookup_frame:
  assumes "query_lookup s m = Some (r, m')"
  shows "\<exists>ip cname. m' = m\<lparr>q_ip := ip, q_cname := cname\<rparr> \<and> length ip = length (q_ip m) \<and> length cname = length (q_cname m)"
proof -
  let ?ty = "rr_type (question0 m)"
  consider "?ty = TYPE_A" | "?ty = TYPE_PTR" | "m' = m"
    using assms by (cases "?ty = TYPE_A"; cases "?ty = TYPE_PTR") (auto simp: query_lookup_def Let_def split: if_splits)
  then show ?thesis
  proof cases
    case 1
    with assms obtain n found ip where "cache_lookup_name (dp_cache s) n (q_ip m) = Some (found, ip)" "m' = m\<lparr>q_ip := ip\<rparr>"
      by (auto simp: query_lookup_def Let_def bind_Some_iff)
    then show ?thesis by (intro exI [of _ ip] exI [of _ "q_cname m"]) (simp add: lookup_name_length)
  next
    case 2
    with assms obtain found cname where "cache_lookup_ip (dp_cache s) (q_ip m) (q_cname m) = Some (found, cname)"
      "m' = m\<lparr>q_cname := cname\<rparr>" by (auto simp: query_lookup_def Let_def bind_Some_iff)
    then show ?thesis by (intro exI [of _ "q_ip m"] exI [of _ cname]) (simp add: lookup_ip_length)
  next
    case 3
    then show ?thesis by (intro exI [of _ "q_ip m"] exI [of _ "q_cname m"]) simp
  qed
qed

lemma construct_reply_sendable:
  assumes "dns_construct_reply m = Some m'" "sendable m"
  shows "sendable m'"
proof -
  let ?m = "set_header (\<lambda>h. h\<lparr>h_ancount := 1, h_flags := set_flags_question (h_flags h)\<rparr>) m"
  have "wf_request ?m" using assms(2) by (simp add: sendable_def wf_request_def set_header_def)
  from construct_header_returns [OF this] obtain b where
    b: "dns_construct_header ?m = Some (?m\<lparr>q_original_buf := b\<rparr>)" "length b = MAX_PACKET_SIZE" by blast
  let ?m1 = "?m\<lparr>q_original_buf := b\<rparr>"
  have s1: "sendable ?m1" using assms(2) b(2) by (simp add: sendable_def wf_request_def set_header_def)
  have ap: "sendable m2" if "append_bytes d ?m1 = Some m2" for d m2
  proof -
    from that obtain c where c: "\<not> q_numread ?m1 < 0" "wr_n b (nat (q_numread ?m1)) d = Some c"
      "m2 = ?m1\<lparr>q_original_buf := c, q_numread := q_numread ?m1 + int (length d)\<rparr>"
      by (auto simp: append_bytes_def bind_Some_iff split: if_splits)
    then have "length c = MAX_PACKET_SIZE" "q_numread ?m1 + int (length d) \<le> int MAX_PACKET_SIZE"
      using b(2) by (auto simp: wr_n_Some_iff)
    with s1 c(3) show ?thesis by (simp add: sendable_def wf_request_def)
  qed
  show ?thesis
    using assms(1) s1 ap unfolding dns_construct_reply_def b(1)
    by (auto simp: bind_Some_iff split: if_splits)
qed

lemma emit_packet_frame:
  assumes "emit_packet addr port m s = Some s'"
  shows "\<exists>e. s' = s\<lparr>dp_out := dp_out s @ e\<rparr>"
  using assms by (auto simp: emit_packet_def bind_Some_iff)

lemma handler_ok_out [simp]: "handler_ok (s\<lparr>dp_out := e\<rparr>) = handler_ok s"
  by (simp add: handler_ok_def)

lemma handler_ok_cache [simp]: "handler_ok (s\<lparr>dp_cache := e\<rparr>) = handler_ok s"
  by (simp add: handler_ok_def)

lemma emit_packet_ok: "emit_packet addr port m s = Some s' \<Longrightarrow> handler_ok s \<Longrightarrow> handler_ok s'"
  using emit_packet_frame by fastforce

lemma relay_query_ok:
  assumes "relay_query io m s = Some s'" "handler_ok s" "malloc_ok (io_malloc io)" "fresh_request m"
  shows "handler_ok s'"
proof -
  obtain ms where ms: "pending (dp_heap s) (dp_list s) ms" "list_all fresh_request ms" "sendable (dp_m s)"
    using assms(2) by (auto simp: handler_ok_def)
  obtain h l where hl: "dns_list_add (io_malloc io) (dp_heap s) (dp_list s) m = (h, l)" by fastforce
  have "handler_ok (s\<lparr>dp_heap := h, dp_list := l\<rparr>)"
    using add_pending [OF ms(1) assms(3) hl] ms(2,3) assms(4) unfolding handler_ok_def by fastforce
  moreover obtain addr where "emit_packet addr DNS_PORT m (s\<lparr>dp_heap := h, dp_list := l\<rparr>) = Some s'"
    using assms(1) by (auto simp: relay_query_def hl bind_Some_iff)
  ultimately show ?thesis using emit_packet_ok by blast
qed

lemma handler_ok_m: "handler_ok s \<Longrightarrow> sendable m \<Longrightarrow> handler_ok (s\<lparr>dp_m := m\<rparr>)"
  by (simp add: handler_ok_def)

lemma new_query_ok:
  assumes "dns_handle_new_query io s = Some s'" "handler_ok s" "malloc_ok (io_malloc io)" "q_time_pending (dp_m s) = 0"
  shows "handler_ok s'"
proof -
  from assms(1) obtain r m where q: "query_lookup s (dp_m s) = Some (r, m)" by (auto simp: dns_handle_new_query_def bind_Some_iff)
  then obtain ip cname where m: "m = (dp_m s)\<lparr>q_ip := ip, q_cname := cname\<rparr>" "length ip = length (q_ip (dp_m s))"
    "length cname = length (q_cname (dp_m s))" using query_lookup_frame by blast
  have sm: "sendable m" using assms(2) m by (simp add: handler_ok_def sendable_def wf_request_def)
  have fm: "fresh_request m" using sm assms(4) m(1) by (simp add: fresh_request_def)
  have s1: "handler_ok (s\<lparr>dp_m := m\<rparr>)" using assms(2) sm by (rule handler_ok_m)
  have reply: "handler_ok s'" if "emit_packet a p m' (s\<lparr>dp_m := m'\<rparr>) = Some s'" "sendable m'" for a p m'
    using that emit_packet_ok handler_ok_m [OF assms(2)] by blast
  have err: "sendable m'" if "dns_construct_error_reply m = Some m'" for m'
    using that error_of_returns [of m] sm by (simp add: sendable_def)
  consider (none) "r = None" | (relay) "r = Some False" "is_connected io (dp_conf s)" | (off) "r = Some False" "\<not> is_connected io (dp_conf s)"
    | (hit) "r = Some True" by (cases r) auto
  then show ?thesis
  proof cases
    case none
    with assms(1) q s1 show ?thesis by (simp add: dns_handle_new_query_def)
  next
    case relay
    with assms(1) q have "relay_query io m (s\<lparr>dp_m := m\<rparr>) = Some s'" by (simp add: dns_handle_new_query_def)
    from relay_query_ok [OF this s1 assms(3) fm] show ?thesis .
  next
    case off
    with assms(1) q show ?thesis by (auto simp: dns_handle_new_query_def bind_Some_iff intro: reply err)
  next
    case hit
    with assms(1) q show ?thesis
      using construct_reply_sendable sm by (auto simp: dns_handle_new_query_def bind_Some_iff intro: reply)
  qed
qed

lemma drop_id_fresh: "list_all P ms \<Longrightarrow> list_all P (drop_id i ms)"
  by (induction ms) auto

lemma handle_request_ok:
  assumes "dns_handle_request io s = Some s'" "handler_ok s" "malloc_ok (io_malloc io)" "q_time_pending (dp_m s) = 0"
  shows "handler_ok s'"
proof -
  obtain ms where ms: "pending (dp_heap s) (dp_list s) ms" "list_all fresh_request ms" "sendable (dp_m s)"
    using assms(2) by (auto simp: handler_ok_def)
  let ?i = "request_id (dp_m s)"
  from find_pending [OF ms(1), of ?i] show ?thesis
  proof (elim disjE exE conjE)
    assume "dns_list_find_by_id (dp_heap s) (dp_list s) ?i = Some None"
    with assms(1) have "dns_handle_new_query io s = Some s'" by (simp add: dns_handle_request_def)
    then show ?thesis using assms(2-4) by (rule new_query_ok)
  next
    fix a n h' p'
    assume f: "dns_list_find_by_id (dp_heap s) (dp_list s) ?i = Some (Some a)" "dp_heap s a = Some n"
      "dns_list_remove (dp_heap s) (dp_list s) (Some a) = Some (h', p')" "pending h' p' (drop_id ?i ms)"
    have rm: "handler_ok (s\<lparr>dp_cache := c, dp_out := e, dp_heap := h', dp_list := p'\<rparr>)" for c e
      using f(4) drop_id_fresh [OF ms(2)] ms(3) by (auto simp: handler_ok_def)
    show ?thesis
    proof (cases "flags_question (h_flags (dm_header (q_message (dp_m s))))")
      case False
      with assms(1,2) f(1) show ?thesis by (simp add: dns_handle_request_def)
    next
      case True
      with assms(1) f(1,2) obtain fw c where r: "response_action io s (dp_m s) = Some (fw, c)"
        by (cases "response_action io s (dp_m s)") (auto simp: dns_handle_request_def Let_def)
      show ?thesis
      proof (cases fw)
        case False
        with assms(1,2) f(1) True r show ?thesis by (auto simp: dns_handle_request_def)
      next
        case fw: True
        let ?s1 = "s\<lparr>dp_cache := c\<rparr>"
        have e: "emit_packet (q_src_addr n) (q_src_port n) (dp_m s) ?s1 =
            Some (?s1\<lparr>dp_out := dp_out s @ packet_events (q_src_addr n) (q_src_port n) (dp_m s)\<rparr>)"
          using emit_sendable [OF ms(3), of _ _ ?s1] by simp
        have "s' = s\<lparr>dp_cache := c, dp_out := dp_out s @ packet_events (q_src_addr n) (q_src_port n) (dp_m s), dp_heap := h', dp_list := p'\<rparr>"
          using assms(1) f(1-3) True r fw e by (simp add: dns_handle_request_def)
        then show ?thesis using rm by simp
      qed
    qed
  qed
qed

lemma reload_config_frame:
  assumes "reload_config io s = Some s'"
  shows "\<exists>c t. s' = s\<lparr>dp_conf := c, dp_ctime := t\<rparr>"
proof -
  consider "s' = s" | c t where "s' = s\<lparr>dp_conf := c, dp_ctime := t\<rparr>"
    using assms by (auto simp: reload_config_def bind_Some_iff split: option.splits if_splits)
  then show ?thesis
  proof cases
    case 1
    then show ?thesis by (intro exI [of _ "dp_conf s"] exI [of _ "dp_ctime s"]) simp
  qed blast
qed

lemma tick_purge_frame:
  assumes "tick_purge io s = Some s'"
  shows "\<exists>c p. s' = s\<lparr>dp_cache := c, dp_purge := p\<rparr>"
proof -
  consider p where "s' = s\<lparr>dp_purge := p\<rparr>" | c p where "s' = s\<lparr>dp_cache := c, dp_purge := p\<rparr>"
    using assms by (auto simp: tick_purge_def purge_cache_def Let_def bind_Some_iff split: if_splits)
  then show ?thesis
  proof cases
    case 1
    then show ?thesis by (intro exI [of _ "dp_cache s"] exI [of _ p]) simp
  qed blast
qed

lemma emit_packet_conf: "emit_packet addr port m s = Some s' \<Longrightarrow> dp_conf s' = dp_conf s"
  by (auto simp: emit_packet_def bind_Some_iff)

lemma drop_request_conf: "drop_request a s = Some s' \<Longrightarrow> dp_conf s' = dp_conf s"
  by (auto simp: drop_request_def bind_Some_iff dest: emit_packet_conf)

lemma try_next_server_conf: "try_next_server a s = Some s' \<Longrightarrow> dp_conf s' = dp_conf s"
  by (auto simp: try_next_server_def Let_def bind_Some_iff split: if_splits dest: drop_request_conf emit_packet_conf)

lemma age_request_conf: "age_request a s = Some s' \<Longrightarrow> dp_conf s' = dp_conf s"
  by (auto simp: age_request_def Let_def bind_Some_iff split: if_splits dest!: try_next_server_conf drop_request_conf)

lemma age_requests_conf: "age_requests p s = Some s' \<Longrightarrow> dp_conf s' = dp_conf s"
proof (erule age_requests.raw_induct [rotated])
  fix f :: "node option \<Rightarrow> dproxy \<Rightarrow> dproxy option" and p s s'
  assume ih: "\<And>p s s'. f p s = Some s' \<Longrightarrow> dp_conf s' = dp_conf s"
    and "(case p of None \<Rightarrow> Some s | Some a \<Rightarrow> do { n \<leftarrow> dp_heap s a; s' \<leftarrow> age_request a s; f (q_next n) s' }) = Some s'"
  then show "dp_conf s' = dp_conf s" by (cases p) (auto simp: bind_Some_iff age_request_conf)
qed

text \<open>A round keeps the invariant, as long as the name servers of the configuration are valid addresses.\<close>

lemma main_round_ok:
  assumes "dns_main_round io s = Some s'" "dproxy_ok s" "malloc_ok (io_malloc io)" "servers_ok (dp_conf s')"
  shows "dproxy_ok s'"
proof (cases "io_ready io")
  case True
  with assms(1) obtain ok m where m: "dns_read_packet io (dp_m s) = Some (ok, m)"
    "dns_handle_request io (s\<lparr>dp_m := m\<lparr>q_time_pending := 0\<rparr>\<rparr>) = Some s'"
    by (auto simp: dns_main_round_def bind_Some_iff)
  have "sendable m" using read_packet_sendable [OF m(1)] assms(2) by (simp add: dproxy_ok_def)
  then have "handler_ok (s\<lparr>dp_m := m\<lparr>q_time_pending := 0\<rparr>\<rparr>)" using assms(2) by (simp add: dproxy_ok_def requests_ok_def handler_ok_def)
  from handle_request_ok [OF m(2) this assms(3)] show ?thesis by (simp add: handler_dproxy)
next
  case False
  with assms(1) obtain s1 s2 where s: "reload_config io s = Some s1" "age_requests (dp_list s1) s1 = Some s2" "tick_purge io s2 = Some s'"
    by (auto simp: dns_main_round_def bind_Some_iff)
  obtain c t where s1: "s1 = s\<lparr>dp_conf := c, dp_ctime := t\<rparr>" using reload_config_frame [OF s(1)] by blast
  obtain cc p where s': "s' = s2\<lparr>dp_cache := cc, dp_purge := p\<rparr>" using tick_purge_frame [OF s(3)] by blast
  obtain ms where ms: "pending (dp_heap s1) (dp_list s1) ms" "list_all fresh_request ms" "wf_request (dp_m s1)"
    using assms(2) s1 by (auto simp: dproxy_ok_def requests_ok_def)
  have conf: "dp_conf s2 = dp_conf s1" using age_requests_conf [OF s(2)] .
  then have "servers_ok (dp_conf s1)" using assms(4) s' by simp
  from age_requests_pending [OF ms(1,2) this] s(2) obtain h l where
    s2: "s2 = s1\<lparr>dp_heap := h, dp_list := l, dp_out := dp_out s1 @ concat (map (aged_events (dp_conf s1)) ms)\<rparr>"
      "pending h l (List.map_filter (aged (dp_conf s1)) ms)" by auto
  have "list_all fresh_request (List.map_filter (aged (dp_conf s1)) ms)"
    using aged_list_fresh(1) [OF ms(2), of 0] ms(2) by (auto simp: list_all_iff fresh_request_def)
  with s2 ms(3) show ?thesis unfolding dproxy_ok_def requests_ok_def s' by auto
qed

section \<open>Seconds without packets\<close>

fun dns_rounds :: "dns_io list \<Rightarrow> dproxy \<Rightarrow> dproxy option" where
  "dns_rounds [] s = Some s"
| "dns_rounds (io # ios) s = do { s' \<leftarrow> dns_main_round io s; dns_rounds ios s' }"

text \<open>A round in which nothing arrives, the configuration file is as it was, and the hosts file is a text.\<close>

definition idle :: "dproxy \<Rightarrow> dns_io \<Rightarrow> bool" where
  "idle s io \<longleftrightarrow> \<not> io_ready io \<and> (io_stat io = None \<or> io_stat io = Some (dp_ctime s)) \<and>
     cache_add_hosts_entries (io_files io (cf_hosts_file (dp_conf s))) \<noteq> None"

lemma purge_returns:
  "cache_add_hosts_entries hosts = Some h \<Longrightarrow> \<exists>c. cache_purge can_rename can_open now hosts older_than file = Some c"
  by (simp add: cache_purge_def)

lemma idle_round:
  assumes "pending (dp_heap s) (dp_list s) ms" "list_all fresh_request ms" "servers_ok (dp_conf s)" "idle s io"
  shows "\<exists>s'. dns_main_round io s = Some s' \<and> pending (dp_heap s') (dp_list s') (List.map_filter (aged (dp_conf s)) ms) \<and>
    dp_out s' = dp_out s @ concat (map (aged_events (dp_conf s)) ms) \<and> dp_conf s' = dp_conf s \<and> dp_ctime s' = dp_ctime s \<and> dp_m s' = dp_m s"
proof -
  have r: "reload_config io s = Some s" using assms(4) by (auto simp: idle_def reload_config_def)
  from age_requests_pending [OF assms(1-3)] obtain h l where
    a: "age_requests (dp_list s) s = Some (s\<lparr>dp_heap := h, dp_list := l, dp_out := dp_out s @ concat (map (aged_events (dp_conf s)) ms)\<rparr>)"
      "pending h l (List.map_filter (aged (dp_conf s)) ms)" by blast
  let ?s2 = "s\<lparr>dp_heap := h, dp_list := l, dp_out := dp_out s @ concat (map (aged_events (dp_conf s)) ms)\<rparr>"
  obtain hs where hs: "cache_add_hosts_entries (io_files io (cf_hosts_file (dp_conf s))) = Some hs"
    using assms(4) by (auto simp: idle_def)
  have "\<exists>c p. tick_purge io ?s2 = Some (?s2\<lparr>dp_cache := c, dp_purge := p\<rparr>)"
  proof (cases "dp_purge s - 1 = 0")
    case True
    obtain c where "cache_purge (io_rename io) (io_create io) (io_now io) (io_files io (cf_hosts_file (dp_conf s)))
        (cf_purge_time (dp_conf s)) (dp_cache s) = Some c"
      using purge_returns [OF hs] by blast
    with True show ?thesis
      by (intro exI [of _ c] exI [of _ "purge_interval (dp_conf s)"]) (simp add: tick_purge_def purge_cache_def)
  next
    case False
    then show ?thesis
      by (intro exI [of _ "dp_cache s"] exI [of _ "dp_purge s - 1"]) (simp add: tick_purge_def)
  qed
  then obtain c p where t: "tick_purge io ?s2 = Some (?s2\<lparr>dp_cache := c, dp_purge := p\<rparr>)" by blast
  have "dns_main_round io s = Some (?s2\<lparr>dp_cache := c, dp_purge := p\<rparr>)"
    using assms(4) r a(1) t by (simp add: dns_main_round_def idle_def)
  with a(2) show ?thesis by (intro exI [of _ "?s2\<lparr>dp_cache := c, dp_purge := p\<rparr>"]) simp
qed

definition error_events :: "dns_request_t \<Rightarrow> dns_event list" where
  "error_events m = packet_events (q_src_addr m) (q_src_port m) (error_of m)"

lemma error_events_time: "wf_request m \<Longrightarrow> error_events (m\<lparr>q_time_pending := t\<rparr>) = error_events m"
  using error_of_bytes(3,4) [of m t] by (simp add: error_events_def packet_events_def)

lemma aged_cases:
  assumes "fresh_request m"
  shows "aged_events c m = error_events m \<or> (\<exists>m'. aged c m = Some m' \<and> error_events m' = error_events m)"
  using assms error_events_time [of m]
  by (auto simp: aged_def aged_events_def error_events_def Let_def fresh_request_def sendable_def)

lemma idle_rounds:
  assumes "pending (dp_heap s) (dp_list s) ms" "list_all fresh_request ms" "servers_ok (dp_conf s)" "list_all (idle s) ios"
    and "\<forall>m\<in>set ms. 10 - int (length ios) \<le> q_time_pending m"
  shows "\<exists>s'. dns_rounds ios s = Some s' \<and> dp_list s' = None \<and> set (dp_out s) \<subseteq> set (dp_out s') \<and>
    (\<forall>m\<in>set ms. set (error_events m) \<subseteq> set (dp_out s'))"
  using assms
proof (induction ios arbitrary: s ms)
  case Nil
  then have "ms = []" by (cases ms) (auto simp: fresh_request_def)
  with Nil show ?case by (auto simp: pending_def reqs_def)
next
  case (Cons io ios)
  let ?ms = "List.map_filter (aged (dp_conf s)) ms"
  from idle_round [OF Cons.prems(1-3)] Cons.prems(4) obtain s1 where
    s1: "dns_main_round io s = Some s1" "pending (dp_heap s1) (dp_list s1) ?ms"
      "dp_out s1 = dp_out s @ concat (map (aged_events (dp_conf s)) ms)" "dp_conf s1 = dp_conf s" "dp_ctime s1 = dp_ctime s" by auto
  have i: "list_all (idle s1) ios" using Cons.prems(4) s1(4,5) by (auto simp: list_all_iff idle_def)
  note f = aged_list_fresh [OF Cons.prems(2,5), of "dp_conf s"]
  have "servers_ok (dp_conf s1)" using Cons.prems(3) s1(4) by simp
  from Cons.IH [OF s1(2) f(1) this i] f(2) obtain s' where
    s': "dns_rounds ios s1 = Some s'" "dp_list s' = None" "set (dp_out s1) \<subseteq> set (dp_out s')"
      "\<forall>m\<in>set ?ms. set (error_events m) \<subseteq> set (dp_out s')" by auto
  have "set (error_events m) \<subseteq> set (dp_out s')" if m: "m \<in> set ms" for m
  proof -
    have "fresh_request m" using Cons.prems(2) m by (auto simp: list_all_iff)
    from aged_cases [OF this, of "dp_conf s"] show ?thesis
    proof
      assume "aged_events (dp_conf s) m = error_events m"
      with m have "set (error_events m) \<subseteq> set (dp_out s1)" by (auto simp: s1(3))
      with s'(3) show ?thesis by blast
    next
      assume "\<exists>m'. aged (dp_conf s) m = Some m' \<and> error_events m' = error_events m"
      then obtain m' where m': "aged (dp_conf s) m = Some m'" "error_events m' = error_events m" by blast
      with m have "m' \<in> set ?ms" by (force simp: List.map_filter_def)
      with s'(4) have "set (error_events m') \<subseteq> set (dp_out s')" by (rule bspec)
      with m'(2) show ?thesis by simp
    qed
  qed
  with s1(1,3) s' show ?case by (intro exI [of _ s']) auto
qed

section \<open>Queries, answers and the cache\<close>

lemma read_query:
  assumes "wf_request m" "name_ok ls" "ty \<noteq> TYPE_PTR" "h_qdcount h = 1" "h_ancount h = 0"
    and "io_recv io = Some (query_bytes h ls ty, addr, port)"
  shows "\<exists>m' rest. dns_read_packet io m = Some (True, m') \<and> decoded_query h ls ty m' \<and>
    q_original_buf m' = query_bytes h ls ty @ rest \<and> q_numread m' = int (length (query_bytes h ls ty)) \<and>
    q_src_addr m' = addr \<and> q_src_port m' = port"
proof -
  let ?q = "query_bytes h ls ty"
  have len: "12 \<le> length ?q" "length ?q \<le> MAX_PACKET_SIZE" using assms(2) by (simp_all add: length_query_bytes name_ok_def)
  then have t: "take MAX_PACKET_SIZE ?q = ?q" by simp
  have buf: "length (q_original_buf m) = MAX_PACKET_SIZE" using assms(1) by (simp add: wf_request_def)
  let ?b = "?q @ drop (length ?q) (q_original_buf m)"
  let ?m = "m\<lparr>q_original_buf := ?b, q_numread := int (length ?q), q_src_addr := addr, q_src_port := port, q_cache := False\<rparr>"
  have wf: "wf_request ?m" using assms(1) len buf by (simp add: wf_request_def)
  have w: "wr_n (q_original_buf m) 0 ?q = Some ?b" using len buf by (simp add: wr_n_def)
  from decode_request_query [OF assms(2-5) wf, of "drop (length ?q) (q_original_buf m)"] obtain m' where
    "dns_decode_request ?m = Some m'" "decoded_query h ls ty m'" "q_original_buf m' = ?b" "q_numread m' = int (length ?q)"
    "q_src_addr m' = addr" "q_src_port m' = port" by auto
  moreover from this(1) have "dns_read_packet io m = Some (True, m')"
    using assms(6) len(1) t w by (simp add: dns_read_packet_def)
  ultimately show ?thesis by blast
qed

text \<open>What decoding an address reply stores in the request.\<close>

definition decoded_reply :: "dns_header_s \<Rightarrow> bytes list \<Rightarrow> u32 \<Rightarrow> dns_request_t \<Rightarrow> bool" where
  "decoded_reply h ls a m \<longleftrightarrow> wf_request m \<and> dm_header (q_message m) = h \<and> rr_type (question0 m) = TYPE_A \<and> q_cache m \<and>
     c_string_at (q_cname m) 0 = Some (dotted ls) \<and> c_string_at (q_ip m) 0 = Some (inet_ntoa a)"

lemma c_string_copy_text20:
  assumes "0 \<notin> set x" "length x < 20" "length dst = 20"
  shows "c_string_at (copy_text 20 dst x) 0 = Some x"
proof -
  have t: "takeWhile (\<lambda>c. c \<noteq> 0) x = x" using assms(1) by (auto simp: takeWhile_eq_all_conv)
  have "copy_text 20 dst x = x @ 0 # replicate (20 - length x - 1) 0"
    unfolding copy_text_def t strncpy_def using assms(2,3) by (simp flip: replicate_Suc)
  with assms(1) show ?thesis by (simp add: c_string_nul)
qed

lemma inet_ntoa_chars: "\<forall>c\<in>set (inet_ntoa a). cache_char c" "length (inet_ntoa a) \<le> 15" "inet_ntoa a \<noteq> []"
proof -
  have "cache_char 46" by (simp add: cache_char_def)
  moreover have "isdigit c \<Longrightarrow> cache_char c" for c by (simp add: cache_char_def isalnum_def)
  ultimately show "\<forall>c\<in>set (inet_ntoa a). cache_char c" using dec_digits by (auto simp: inet_ntoa_def Let_def)
  have d: "length (dec (unat (w AND 0xff :: u32))) \<le> 3" for w
    using unat_low_byte [of w] by (intro length_dec_le) simp_all
  show "length (inet_ntoa a) \<le> 15"
    using d [of "drop_bit 24 (ntohl a)"] d [of "drop_bit 16 (ntohl a)"] d [of "drop_bit 8 (ntohl a)"] d [of "ntohl a"]
    by (simp add: inet_ntoa_def Let_def)
  show "inet_ntoa a \<noteq> []" by (simp add: inet_ntoa_def Let_def)
qed

lemma inet_ntoa_no_nul: "0 \<notin> set (inet_ntoa a)"
  using inet_ntoa_chars(1) [of a] cache_char_name_char by (auto simp: name_char_def)

lemma rd32_take: "length d = NAME_SIZE \<Longrightarrow> take 4 d = le32 a \<Longrightarrow> rd32 d 0 = Some a"
proof -
  assume "length d = NAME_SIZE" "take 4 d = le32 a"
  then have "d = le32 a @ drop 4 d" by (metis append_take_drop_id)
  then show ?thesis using rd32_le32 [of "[]" a "drop 4 d"] by simp
qed

lemma read_reply:
  assumes "wf_request m" "name_ok ls" "h_qdcount h = 1" "h_ancount h = 1"
    and "io_recv io = Some (address_reply h ls a, addr, port)"
  shows "\<exists>m' rest. dns_read_packet io m = Some (True, m') \<and> decoded_reply h ls a m' \<and>
    q_original_buf m' = address_reply h ls a @ rest \<and> q_numread m' = int (length (address_reply h ls a))"
proof -
  let ?q = "address_reply h ls a"
  have la: "length ?q = length (query_bytes h ls TYPE_A) + 16" by (simp add: address_reply_def answer_head_def)
  have len: "12 \<le> length ?q" "length ?q \<le> MAX_PACKET_SIZE" using assms(2) by (simp_all add: la length_query_bytes name_ok_def)
  then have t: "take MAX_PACKET_SIZE ?q = ?q" by simp
  have buf: "length (q_original_buf m) = MAX_PACKET_SIZE" using assms(1) by (simp add: wf_request_def)
  let ?r = "drop (length ?q) (q_original_buf m)"
  let ?m = "m\<lparr>q_original_buf := ?q @ ?r, q_numread := int (length ?q), q_src_addr := addr, q_src_port := port, q_cache := False\<rparr>"
  have wf: "wf_request ?m" using assms(1) len buf by (simp add: wf_request_def)
  have w: "wr_n (q_original_buf m) 0 ?q = Some (?q @ ?r)" using len buf by (simp add: wr_n_def)
  have wm: "length (dm_question (q_message m)) = NUM_RRS" "list_all wf_rr (dm_question (q_message m))"
    "length (dm_answer (q_message m)) = NUM_RRS" "list_all wf_rr (dm_answer (q_message m))"
    "length (q_cname m) = NAME_SIZE" "length (q_ip m) = 20"
    using assms(1) by (simp_all add: wf_request_def)
  from decode_address_reply [OF assms(2-4) wm(1-4), of a ?r] obtain msg where
    msg: "dns_decode_message (q_message m) (?q @ ?r) = Some msg" "dm_header msg = h" "rr_type (dm_answer msg ! 0) = TYPE_A"
      "take 4 (rr_data (dm_answer msg ! 0)) = le32 a" "rr_type (dm_question msg ! 0) = TYPE_A"
      "takeWhile (\<lambda>c. c \<noteq> 0) (rr_name (dm_question msg ! 0)) = dotted ls" by blast
  note wmsg = dns_decode_message_wf [OF msg(1) wm(2,4)]
  have r0: "wf_rr (dm_answer msg ! 0)" using wmsg(2,4) wm(3) by (simp add: list_all_length)
  obtain rs where rs: "take (min (unat (h_ancount (dm_header msg))) NUM_RRS) (dm_answer msg) = dm_answer msg ! 0 # rs"
    using wmsg(4) wm(3) assms(4) msg(2) by (cases "dm_answer msg") simp_all
  have rd: "rd32 (rr_data (dm_answer msg ! 0)) 0 = Some a" using r0 msg(4) by (intro rd32_take) (simp_all add: wf_rr_def)
  let ?m' = "?m\<lparr>q_message := msg, q_cname := copy_text NAME_SIZE (q_cname m) (rr_name (dm_question msg ! 0)),
      q_ip := copy_text 20 (q_ip m) (inet_ntoa a), q_cache := True\<rparr>"
  have d: "dns_decode_request ?m = Some ?m'"
    using msg(1,3,5) rs rd by (simp add: dns_decode_request_def Let_def)
  have "c_string_at (copy_text NAME_SIZE (q_cname m) (rr_name (dm_question msg ! 0))) 0 = Some (dotted ls)"
    using c_string_copy_text [OF assms(2) wm(5), of "[]"] msg(6) takeWhile_named [OF assms(2), of "[]"]
    by (simp add: copy_text_def)
  moreover have "c_string_at (copy_text 20 (q_ip m) (inet_ntoa a)) 0 = Some (inet_ntoa a)"
    using inet_ntoa_chars(2) [of a] wm(6) by (intro c_string_copy_text20 inet_ntoa_no_nul) simp_all
  ultimately have "decoded_reply h ls a ?m'"
    using dns_decode_request_wf [OF d wf] msg(2,5) by (simp add: decoded_reply_def)
  moreover have "dns_read_packet io m = Some (True, ?m')"
    using assms(5) len(1) t w d by (simp add: dns_read_packet_def)
  ultimately show ?thesis by (intro exI [of _ ?m'] exI [of _ ?r]) simp
qed


text \<open>A query for a name that is not cached goes to the first server as it is and becomes a pending request.\<close>

lemma uncached_query:
  assumes "wf_request (dp_m s)" "name_ok ls" "h_qdcount h = 1" "h_ancount h = 0"
    and "io_ready io" "io_recv io = Some (query_bytes h ls TYPE_A, addr, port)" "is_connected io (dp_conf s)"
    and "dp_cache s = Some (cache_text es)" "list_all entry_ok es" "find_name (dotted ls) es = None"
    and "pending (dp_heap s) (dp_list s) ms" "\<forall>m\<in>set ms. request_id m \<noteq> h_id h"
    and "malloc_ok (io_malloc io)" "io_malloc io (dp_heap s) \<noteq> None"
    and "servers_ok (dp_conf s)" "cf_name_server (dp_conf s) ! 0 \<noteq> []"
  shows "\<exists>s' m. dns_main_round io s = Some s' \<and> pending (dp_heap s') (dp_list s') (m # ms) \<and> request_id m = h_id h \<and>
    q_src_addr m = addr \<and> q_src_port m = port \<and> dp_cache s' = dp_cache s \<and> dp_conf s' = dp_conf s \<and> wf_request (dp_m s') \<and>
    dp_out s' = dp_out s @ [Sent (server_addr (dp_conf s) 0) DNS_PORT (query_bytes h ls TYPE_A)]"
proof -
  let ?q = "query_bytes h ls TYPE_A"
  from read_query [OF assms(1,2) _ assms(3,4,6)] obtain m rest where
    m: "dns_read_packet io (dp_m s) = Some (True, m)" "decoded_query h ls TYPE_A m" "q_original_buf m = ?q @ rest"
      "q_numread m = int (length ?q)" "q_src_addr m = addr" "q_src_port m = port" by auto
  have wf: "wf_request m" "dm_header (q_message m) = h" "rr_type (question0 m) = TYPE_A" "c_string_at (q_cname m) 0 = Some (dotted ls)"
    using m(2) by (simp_all add: decoded_query_def)
  let ?m = "m\<lparr>q_time_pending := 0, q_ip := (q_ip m)[0 := 0]\<rparr>"
  let ?s = "s\<lparr>dp_m := m\<lparr>q_time_pending := 0\<rparr>\<rparr>"
  have wf': "wf_request ?m" using wf(1) by (simp add: wf_request_def)
  have "length (q_ip m) = 20" using wf(1) by (simp add: wf_request_def)
  from lookup_name_entries [OF assms(9) this, of "dotted ls"]
  have lk: "query_lookup ?s (dp_m ?s) = Some (Some False, ?m)"
    using wf(3,4) assms(8,10) by (simp add: query_lookup_def)
  have f: "dns_list_find_by_id (dp_heap s) (dp_list s) (h_id h) = Some None"
    using find_pending [OF assms(11), of "h_id h"] assms(12) by (auto dest: find_split)
  obtain hp l where hl: "dns_list_add (io_malloc io) (dp_heap s) (dp_list s) ?m = (hp, l)" by (cases "dns_list_add (io_malloc io) (dp_heap s) (dp_list s) ?m")
  from add_pending [OF assms(11,13) hl] assms(14) have p: "pending hp l (strip ?m # ms)" by auto
  have sv: "rd (cf_name_server (dp_conf s)) 0 = Some (cf_name_server (dp_conf s) ! 0)"
    "inet_aton (cf_name_server (dp_conf s) ! 0) = Some (server_addr (dp_conf s) 0)"
    using assms(15,16) by (auto simp: rd_def servers_ok_def server_addr_def)
  have len: "length ?q \<le> MAX_PACKET_SIZE" using wf(1) m(3) by (simp add: wf_request_def)
  have sd: "sendable ?m" using wf' m(4) len by (simp add: sendable_def)
  have pe: "packet_events (server_addr (dp_conf s) 0) DNS_PORT ?m = [Sent (server_addr (dp_conf s) 0) DNS_PORT ?q]"
    using m(3,4) by (simp add: packet_events_def)
  let ?s' = "s\<lparr>dp_m := ?m, dp_heap := hp, dp_list := l, dp_out := dp_out s @ [Sent (server_addr (dp_conf s) 0) DNS_PORT ?q]\<rparr>"
  have "relay_query io ?m (?s\<lparr>dp_m := ?m\<rparr>) = Some ?s'"
    using hl sv pe by (simp add: relay_query_def emit_sendable [OF sd])
  then have "dns_main_round io s = Some ?s'"
    using assms(5,7) m(1) f lk wf(2) by (simp add: dns_main_round_def dns_handle_request_def dns_handle_new_query_def)
  with p wf' m(5,6) wf(2) show ?thesis by (intro exI [of _ ?s'] exI [of _ "strip ?m"]) simp
qed

text \<open>The answer goes to the client as it is, its address into the cache, and the request is no longer pending.\<close>

lemma answered_query:
  assumes "wf_request (dp_m s)" "name_ok ls" "h_qdcount h = 1" "h_ancount h = 1"
    and "flags_question (h_flags h)" "flags_rcode (h_flags h) = DNS_NO_ERROR"
    and "io_ready io" "io_recv io = Some (address_reply h ls a, saddr, sport)" "io_append io"
    and "dp_cache s = Some (cache_text es)" "entry_ok (dotted ls, inet_ntoa a, io_now io)"
    and "pending (dp_heap s) (dp_list s) (m # ms)" "request_id m = h_id h"
  shows "\<exists>s'. dns_main_round io s = Some s' \<and> pending (dp_heap s') (dp_list s') ms \<and> dp_conf s' = dp_conf s \<and> wf_request (dp_m s') \<and>
    dp_cache s' = Some (cache_text (es @ [(dotted ls, inet_ntoa a, io_now io)])) \<and>
    dp_out s' = dp_out s @ [Sent (q_src_addr m) (q_src_port m) (address_reply h ls a)]"
proof -
  let ?q = "address_reply h ls a"
  from read_reply [OF assms(1-4,8)] obtain n rest where
    n: "dns_read_packet io (dp_m s) = Some (True, n)" "decoded_reply h ls a n" "q_original_buf n = ?q @ rest"
      "q_numread n = int (length ?q)" by auto
  have wf: "wf_request n" "dm_header (q_message n) = h" "rr_type (question0 n) = TYPE_A" "q_cache n"
    "c_string_at (q_cname n) 0 = Some (dotted ls)" "c_string_at (q_ip n) 0 = Some (inet_ntoa a)"
    using n(2) by (simp_all add: decoded_reply_def)
  let ?n = "n\<lparr>q_time_pending := 0\<rparr>"
  have wf': "wf_request ?n" using wf(1) by (simp add: wf_request_def)
  let ?c = "Some (cache_text (es @ [(dotted ls, inet_ntoa a, io_now io)]))"
  let ?s = "s\<lparr>dp_m := ?n\<rparr>"
  have r: "response_action io ?s ?n = Some (True, ?c)"
    using append_entries [OF assms(11) wf(5,6)] wf(2-4) assms(6,9,10) by (simp add: response_action_def)
  from find_pending [OF assms(12), of "h_id h"] assms(13) obtain p k hp l where
    f: "dns_list_find_by_id (dp_heap s) (dp_list s) (h_id h) = Some (Some p)" "dp_heap s p = Some k" "m = strip k"
      "dns_list_remove (dp_heap s) (dp_list s) (Some p) = Some (hp, l)" "pending hp l ms" by auto
  have len: "length ?q \<le> MAX_PACKET_SIZE" using wf(1) n(3) by (simp add: wf_request_def)
  have sd: "sendable ?n" using wf' n(4) len by (simp add: sendable_def)
  have pe: "packet_events (q_src_addr k) (q_src_port k) ?n = [Sent (q_src_addr k) (q_src_port k) ?q]"
    using n(3,4) by (simp add: packet_events_def)
  let ?s' = "s\<lparr>dp_m := ?n, dp_cache := ?c, dp_heap := hp, dp_list := l, dp_out := dp_out s @ [Sent (q_src_addr k) (q_src_port k) ?q]\<rparr>"
  have "dns_main_round io s = Some ?s'"
    using assms(5,7) n(1) f(1,2,4) r wf(2) pe by (simp add: dns_main_round_def dns_handle_request_def emit_sendable [OF sd])
  with f(3,5) wf' show ?thesis by (intro exI [of _ ?s']) simp
qed

text \<open>A query for a cached name is answered from the cache.\<close>

lemma cached_query:
  assumes "wf_request (dp_m s)" "name_ok ls" "h_qdcount h = 1" "h_ancount h = 0"
    and "io_ready io" "io_recv io = Some (query_bytes h ls TYPE_A, addr, port)"
    and "dp_cache s = Some (cache_text es)" "list_all entry_ok es" "find_name (dotted ls) es = Some (n, inet_ntoa a, t)"
    and "pending (dp_heap s) (dp_list s) ms" "\<forall>m\<in>set ms. request_id m \<noteq> h_id h"
  shows "\<exists>s'. dns_main_round io s = Some s' \<and> pending (dp_heap s') (dp_list s') ms \<and> dp_cache s' = dp_cache s \<and>
    dp_out s' = dp_out s @ [Sent addr port (address_reply (reply_header h) ls a)]"
proof -
  let ?q = "query_bytes h ls TYPE_A"
  from read_query [OF assms(1,2) _ assms(3,4,6)] obtain m rest where
    m: "dns_read_packet io (dp_m s) = Some (True, m)" "decoded_query h ls TYPE_A m" "q_original_buf m = ?q @ rest"
      "q_numread m = int (length ?q)" "q_src_addr m = addr" "q_src_port m = port" by auto
  have wf: "wf_request m" "dm_header (q_message m) = h" "rr_type (question0 m) = TYPE_A" "c_string_at (q_cname m) 0 = Some (dotted ls)"
    using m(2) by (simp_all add: decoded_query_def)
  let ?ip = "inet_ntoa a @ 0 # drop (length (inet_ntoa a) + 1) (q_ip m)"
  let ?m = "m\<lparr>q_time_pending := 0, q_ip := ?ip\<rparr>"
  let ?s = "s\<lparr>dp_m := m\<lparr>q_time_pending := 0\<rparr>\<rparr>"
  have l20: "length (q_ip m) = 20" using wf(1) by (simp add: wf_request_def)
  then have "length ?ip = 20" using inet_ntoa_chars(2) [of a] by simp
  then have wf': "wf_request ?m" using wf(1) by (simp add: wf_request_def)
  from lookup_name_entries [OF assms(8) l20, of "dotted ls"]
  have lk: "query_lookup ?s (dp_m ?s) = Some (Some True, ?m)"
    using wf(3,4) assms(7,9) by (simp add: query_lookup_def)
  have f: "dns_list_find_by_id (dp_heap s) (dp_list s) (h_id h) = Some None"
    using find_pending [OF assms(10), of "h_id h"] assms(11) by (auto dest: find_split)
  have "decoded_query h ls TYPE_A ?m" using wf wf' by (simp add: decoded_query_def)
  moreover have "c_string_at (q_ip ?m) 0 = Some (inet_ntoa a)" using inet_ntoa_no_nul by (simp add: c_string_nul)
  ultimately obtain k where k: "dns_construct_reply ?m = Some k" "wf_request k" "0 \<le> q_numread k" "q_src_addr k = addr" "q_src_port k = port"
      "rd_n (q_original_buf k) 0 (nat (q_numread k)) = Some (address_reply (reply_header h) ls a)"
    using construct_address_reply [OF assms(2), of h ?m rest a] m(3-6) by auto
  let ?s' = "s\<lparr>dp_m := k, dp_out := dp_out s @ [Sent addr port (address_reply (reply_header h) ls a)]\<rparr>"
  have "dns_main_round io s = Some ?s'"
    using assms(5) m(1) f lk wf(2) k
    by (simp add: dns_main_round_def dns_handle_request_def dns_handle_new_query_def emit_packet_def dns_write_packet_def)
  with assms(10) show ?thesis by (intro exI [of _ ?s']) simp
qed

section \<open>Runs of the daemon\<close>

text \<open>
  The states between two rounds of the main loop, from the start on.  Every configuration that is loaded
  names servers by their addresses, and \<^verbatim>\<open>malloc\<close> returns free addresses.
\<close>

inductive proxy_run :: "dproxy \<Rightarrow> bool" where
  start: "dns_init io c t cache m = Some s \<Longrightarrow> wf_request m \<Longrightarrow> proxy_run s"
| round: "proxy_run s \<Longrightarrow> malloc_ok (io_malloc io) \<Longrightarrow> dns_main_round io s = Some s' \<Longrightarrow> servers_ok (dp_conf s') \<Longrightarrow> proxy_run s'"
| hup: "proxy_run s \<Longrightarrow> sig_hup io s = Some s' \<Longrightarrow> proxy_run s'"

inductive_cases proxy_runE: "proxy_run s"

lemma pending_nil [simp]: "pending h None []"
  unfolding pending_def by (rule exI [of _ "[]"]) simp

lemma pending_cons: "pending h p (m # ms) \<Longrightarrow> p \<noteq> None"
proof -
  assume "pending h p (m # ms)"
  then obtain as where "chain h p as" "m # ms = reqs h as" by (auto simp: pending_def)
  then show ?thesis by (cases as) auto
qed

lemma proxy_run_ok: "proxy_run s \<Longrightarrow> dproxy_ok s"
proof (induction rule: proxy_run.induct)
  case (start io c t cache m s)
  then have "dp_list s = None" "dp_m s = m" by (auto simp: dns_init_def purge_cache_def bind_Some_iff)
  then show ?case using start(2) unfolding dproxy_ok_def requests_ok_def by (metis list.pred_inject(1) pending_nil)
next
  case (round s io s')
  from main_round_ok [OF round(3) round.IH round(2,4)] show ?case .
next
  case (hup s io s')
  then show ?case by (auto simp: sig_hup_def bind_Some_iff dproxy_ok_def requests_ok_def)
qed

text \<open>A state to start from, a server, and what a round receives.\<close>

definition sample_rr :: dns_rr where
  "sample_rr = \<lparr>rr_name = replicate NAME_SIZE 0, rr_type = 0, rr_class = 0, rr_ttl = 0, rr_rdatalen = 0, rr_data = replicate NAME_SIZE 0\<rparr>"

definition sample_header :: dns_header_s where
  "sample_header = \<lparr>h_id = 7, h_flags = 0, h_qdcount = 1, h_ancount = 0, h_nscount = 0, h_arcount = 0\<rparr>"

definition sample_dns_request :: dns_request_t where
  "sample_dns_request = \<lparr>q_cname = replicate NAME_SIZE 0, q_ip = replicate 20 0, q_cache = False, q_time_pending = 0,
     q_message = \<lparr>dm_header = sample_header, dm_question = replicate NUM_RRS sample_rr, dm_answer = replicate NUM_RRS sample_rr\<rparr>,
     q_src_addr = 0x0200000a, q_src_port = 1025, q_original_buf = replicate MAX_PACKET_SIZE 0, q_numread = 0, q_next = None\<rparr>"

definition sample_config :: config where
  "sample_config = config_zero\<lparr>cf_name_server := inet_ntoa 0x0100000a # replicate 4 []\<rparr>"

definition sample_malloc :: "heap \<Rightarrow> node option" where
  "sample_malloc h = (if h 1 = None then Some 1 else None)"

definition sample_dns_io :: "(bytes \<times> u32 \<times> u16) option \<Rightarrow> dns_io" where
  "sample_dns_io r = \<lparr>io_malloc = sample_malloc, io_ready = r \<noteq> None, io_recv = r, io_stat = None, io_files = (\<lambda>_. None), io_now = 100,
     io_append = True, io_rename = True, io_create = True\<rparr>"

definition sample_state :: dproxy where
  "sample_state = \<lparr>dp_heap = (\<lambda>_. None), dp_list = None, dp_conf = sample_config, dp_cache = Some [], dp_ctime = 0,
     dp_m = sample_dns_request, dp_purge = 0, dp_out = []\<rparr>"

lemma sample_wf [simp]: "wf_request sample_dns_request"
  by (simp add: wf_request_def sample_dns_request_def sample_rr_def wf_rr_def list_all_iff)

lemma sample_malloc_ok [simp]: "malloc_ok sample_malloc" "sample_malloc (\<lambda>_. None) = Some 1"
  by (simp_all add: malloc_ok_def sample_malloc_def)

lemma sample_servers [simp]: "servers_ok sample_config" "cf_name_server sample_config ! 0 = inet_ntoa 0x0100000a"
  "server_addr sample_config 0 = 0x0100000a"
  by (auto simp: servers_ok_def sample_config_def config_zero_def inet_aton_ntoa server_addr_def)

lemma sample_connected [simp]: "is_connected io sample_config"
  by (simp add: is_connected_def sample_config_def config_zero_def)

lemma sample_init: "dns_init (sample_dns_io r) sample_config 0 (Some []) sample_dns_request = Some sample_state"
proof -
  have "purge_interval sample_config = 0" by (simp add: purge_interval_def sample_config_def config_zero_def)
  moreover have "cache_purge True True 100 None x (Some []) = Some (Some [])" for x
    by (simp add: cache_purge_def purge_lines.simps cache_add_hosts_entries_def)
  ultimately show ?thesis by (simp add: dns_init_def purge_cache_def sample_dns_io_def sample_state_def)
qed

lemma sample_idle [simp]: "idle sample_state (sample_dns_io None)"
  by (simp add: idle_def sample_dns_io_def cache_add_hosts_entries_def)

section \<open>Properties\<close>

text \<open>C11: The linked list of requests is a list with the newest request first.  Adding puts a request in front;
  a search finds the first request with an identifier, or that there is none; removing what was found takes just that
  request out and frees its node.\<close>

theorem request_list_refines:
  assumes "pending h p ms" "malloc_ok malloc" "malloc h = Some a"
  shows "(case dns_list_add malloc h p m of (h', p') \<Rightarrow> pending h' p' (strip m # ms)) \<and>
    (case find (\<lambda>m. request_id m = i) ms of
       None \<Rightarrow> dns_list_find_by_id h p i = Some None
     | Some n \<Rightarrow> \<exists>b k h' p'. dns_list_find_by_id h p i = Some (Some b) \<and> h b = Some k \<and> strip k = n \<and>
         dns_list_remove h p (Some b) = Some (h', p') \<and> h' b = None \<and> pending h' p' (drop_id i ms))"
proof
  obtain h' p' where hp: "dns_list_add malloc h p m = (h', p')" by fastforce
  from add_pending [OF assms(1,2) hp] assms(3) hp show "case dns_list_add malloc h p m of (h', p') \<Rightarrow> pending h' p' (strip m # ms)" by auto
  have free: "h' b = None" if "dns_list_remove h p (Some b) = Some (h', p')" for b h' p'
    using that by (auto simp: dns_list_remove_def bind_Some_iff split: option.splits)
  from find_pending [OF assms(1), of i]
  show "case find (\<lambda>m. request_id m = i) ms of
       None \<Rightarrow> dns_list_find_by_id h p i = Some None
     | Some n \<Rightarrow> \<exists>b k h' p'. dns_list_find_by_id h p i = Some (Some b) \<and> h b = Some k \<and> strip k = n \<and>
         dns_list_remove h p (Some b) = Some (h', p') \<and> h' b = None \<and> pending h' p' (drop_id i ms)"
  proof (elim disjE exE conjE)
    assume n: "dns_list_find_by_id h p i = Some None" "\<forall>m\<in>set ms. request_id m \<noteq> i"
    then have "find (\<lambda>m. request_id m = i) ms = None" by (simp add: find_None_iff)
    with n(1) show ?thesis by simp
  next
    fix b k h' p'
    assume f: "dns_list_find_by_id h p i = Some (Some b)" "h b = Some k" "find (\<lambda>m. request_id m = i) ms = Some (strip k)"
      "dns_list_remove h p (Some b) = Some (h', p')" "pending h' p' (drop_id i ms)"
    with free [OF f(4)] show ?thesis by auto
  qed
qed

theorem request_list_refines_witness:
  "dns_list_find_by_id [1 \<mapsto> sample_dns_request] (Some 1) 7 = Some (Some 1) \<and>
   (\<exists>h p. dns_list_add (\<lambda>h. if h (2 :: node) = None then Some 2 else None) [1 \<mapsto> sample_dns_request] (Some 1) sample_dns_request = (h, p) \<and>
      pending h p [sample_dns_request, sample_dns_request])"
proof -
  have s: "strip sample_dns_request = sample_dns_request" "request_id sample_dns_request = 7" "q_next sample_dns_request = None"
    by (simp_all add: strip_def sample_dns_request_def sample_header_def)
  have "chain [1 \<mapsto> sample_dns_request] (Some 1) [1]" "[sample_dns_request] = reqs [1 \<mapsto> sample_dns_request] [1]" using s by simp_all
  then have p: "pending [1 \<mapsto> sample_dns_request] (Some 1) [sample_dns_request]" unfolding pending_def by blast
  have m: "malloc_ok (\<lambda>h. if h (2 :: node) = None then Some 2 else None)" by (simp add: malloc_ok_def)
  have a: "(\<lambda>h. if h (2 :: node) = None then Some 2 else None) [1 \<mapsto> sample_dns_request] = Some 2" by simp
  from request_list_refines [OF p m a, of sample_dns_request 7] s show ?thesis by (auto simp: fun_upd_def split: prod.splits if_splits)
qed

text \<open>C8: In every state that the daemon reaches the list of pending requests is a proper chain of allocated nodes
  without a cycle or a freed node, so that a search in it ends; no pending request is older than nine seconds, and
  every length and array is in range.\<close>

theorem proxy_invariant:
  assumes "proxy_run s"
  shows "(\<exists>ms. pending (dp_heap s) (dp_list s) ms \<and> list_all fresh_request ms) \<and> wf_request (dp_m s) \<and>
    dns_list_find_by_id (dp_heap s) (dp_list s) i \<noteq> None"
proof -
  from proxy_run_ok [OF assms] obtain ms where ms: "pending (dp_heap s) (dp_list s) ms" "list_all fresh_request ms" "wf_request (dp_m s)"
    by (auto simp: dproxy_ok_def requests_ok_def)
  with find_pending [OF ms(1), of i] show ?thesis by auto
qed

lemma sample_cname: "name_ok [[97]]" "dotted [[97]] = [97]"
  by (simp_all add: name_ok_def label_ok_def)

lemma sample_relayed:
  "\<exists>s m. dns_main_round (sample_dns_io (Some (query_bytes sample_header [[97]] TYPE_A, 0x0200000a, 1025))) sample_state = Some s \<and>
     dp_conf s = sample_config \<and> pending (dp_heap s) (dp_list s) [m]"
proof -
  have "pending (dp_heap sample_state) (dp_list sample_state) []" by (simp add: sample_state_def)
  then have "\<exists>s m. dns_main_round (sample_dns_io (Some (query_bytes sample_header [[97]] TYPE_A, 0x0200000a, 1025))) sample_state = Some s \<and>
     pending (dp_heap s) (dp_list s) (m # []) \<and> request_id m = h_id sample_header \<and>
    q_src_addr m = 0x0200000a \<and> q_src_port m = 1025 \<and> dp_cache s = dp_cache sample_state \<and> dp_conf s = dp_conf sample_state \<and> wf_request (dp_m s) \<and>
    dp_out s = dp_out sample_state @ [Sent (server_addr (dp_conf sample_state) 0) DNS_PORT (query_bytes sample_header [[97]] TYPE_A)]"
    using inet_ntoa_chars(3) [of "0x0100000a"] sample_cname(1)
    by (intro uncached_query [where es = "[]"])
      (simp_all add: sample_state_def sample_header_def sample_dns_io_def [of "Some r" for r] find_name_def)
  then show ?thesis by (auto simp: sample_state_def)
qed

theorem proxy_invariant_witness:
  "\<exists>s. proxy_run s \<and> dp_list s \<noteq> None \<and> dns_list_find_by_id (dp_heap s) (dp_list s) 8 \<noteq> None"
proof -
  from sample_relayed obtain s m where
    s: "dns_main_round (sample_dns_io (Some (query_bytes sample_header [[97]] TYPE_A, 0x0200000a, 1025))) sample_state = Some s"
      "dp_conf s = sample_config" "pending (dp_heap s) (dp_list s) [m]" by blast
  have "proxy_run sample_state" using sample_init by (rule proxy_run.start) simp
  then have r: "proxy_run s" by (rule proxy_run.round [OF _ _ s(1)]) (simp_all add: s(2) sample_dns_io_def)
  have "dp_list s \<noteq> None" using s(3) by (rule pending_cons)
  with r proxy_invariant [OF r, of 8] show ?thesis by blast
qed

text \<open>The header of an error reply: the response bit is set and the code is 2, all else is as it was.\<close>

definition error_header :: "dns_header_s \<Rightarrow> dns_header_s" where
  "error_header h = h\<lparr>h_flags := (h_flags h AND 0x7FF0) OR 0x8002\<rparr>"

lemma error_flags: "set_flags_rcode 2 (set_flags_question f) = (f AND 0x7FF0) OR 0x8002"
proof (rule bit_word_eqI)
  fix n
  assume "n < LENGTH(16)"
  then have "n < 16" by simp
  then have "n \<in> {0, 1, 2, 3, 4, 5, 6, 7, 8, 9, 10, 11, 12, 13, 14, 15}" by (simp only: insert_iff empty_iff) presburger
  then show "bit (set_flags_rcode 2 (set_flags_question f)) n = bit ((f AND 0x7FF0) OR 0x8002) n"
    unfolding set_flags_rcode_def set_flags_question_def bit_or_iff bit_and_iff by auto
qed

lemma error_of_buf: "wf_request m \<Longrightarrow>
    q_original_buf (error_of m) = header_bytes (error_header (dm_header (q_message m))) @ drop 12 (q_original_buf m)"
  by (simp add: error_of_def dns_construct_error_reply_def dns_construct_header_def set_header_def wr_n_def wf_request_def error_flags
    error_header_def)

text \<open>C4: No request stays pending for ever.  From a consistent state with valid server addresses, ten seconds without
  packets empty the list, and a reply has been sent to the sender of every request that was pending and whose packet was
  read without error, which is to say that \<^const>\<open>q_numread\<close> is not negative: the bytes of the request's packet, cut to the
  length read, with the first twelve written anew from the decoded header.  In their flags the response bit is set and
  the code is the 2 of a server failure; the identifier, the other flags and the counts are those of the request.\<close>

theorem pending_expire:
  assumes "dproxy_ok s" "servers_ok (dp_conf s)" "list_all (idle s) ios" "10 \<le> length ios"
  shows "\<exists>s'. dns_rounds ios s = Some s' \<and> dp_list s' = None \<and>
    (\<forall>ms. pending (dp_heap s) (dp_list s) ms \<longrightarrow> (\<forall>m\<in>set ms. 0 \<le> q_numread m \<longrightarrow>
       Sent (q_src_addr m) (q_src_port m)
         (take (nat (q_numread m)) (header_bytes (error_header (dm_header (q_message m))) @ drop 12 (q_original_buf m))) \<in> set (dp_out s')))"
proof -
  from assms(1) obtain ms where ms: "pending (dp_heap s) (dp_list s) ms" "list_all fresh_request ms"
    by (auto simp: dproxy_ok_def requests_ok_def)
  have "\<forall>m\<in>set ms. 10 - int (length ios) \<le> q_time_pending m"
    using ms(2) assms(4) by (auto simp: list_all_iff fresh_request_def)
  from idle_rounds [OF ms assms(2,3) this] obtain s' where
    s': "dns_rounds ios s = Some s'" "dp_list s' = None" "\<forall>m\<in>set ms. set (error_events m) \<subseteq> set (dp_out s')" by blast
  have "Sent (q_src_addr m) (q_src_port m)
      (take (nat (q_numread m)) (header_bytes (error_header (dm_header (q_message m))) @ drop 12 (q_original_buf m))) \<in> set (dp_out s')"
    if "m \<in> set ms" "0 \<le> q_numread m" for m
  proof -
    have wf: "wf_request m" using ms(2) that(1) by (auto simp: list_all_iff fresh_request_def sendable_def)
    have "Sent (q_src_addr m) (q_src_port m) (take (nat (q_numread m)) (q_original_buf (error_of m))) \<in> set (error_events m)"
      using that(2) error_of_returns(5) [OF wf] by (simp add: error_events_def packet_events_def)
    then show ?thesis unfolding error_of_buf [OF wf] using s'(3) that(1) by blast
  qed
  moreover have "ms' = ms" if "pending (dp_heap s) (dp_list s) ms'" for ms'
    using that ms(1) chain_unique by (auto simp: pending_def)
  ultimately show ?thesis using s'(1,2) by (intro exI [of _ s']) simp
qed

text \<open>A pending request for the name \<open>a\<close>.\<close>

definition sample_query :: dns_request_t where
  "sample_query = sample_dns_request\<lparr>
     q_original_buf := query_bytes sample_header [[97]] TYPE_A @ replicate (MAX_PACKET_SIZE - 19) 0, q_numread := 19\<rparr>"

definition sample_waiting :: dproxy where
  "sample_waiting = sample_state\<lparr>dp_heap := [1 \<mapsto> sample_query], dp_list := Some 1\<rparr>"

lemma sample_query_simps:
  "q_numread sample_query = 19" "q_src_addr sample_query = 0x0200000a" "q_src_port sample_query = 1025"
  "fresh_request sample_query" "dm_header (q_message sample_query) = sample_header"
  "take 19 (header_bytes (error_header sample_header) @ drop 12 (q_original_buf sample_query)) =
     query_bytes (error_header sample_header) [[97]] TYPE_A"
proof -
  have "length (query_bytes h [[97]] TYPE_A) = 19" for h by (simp add: length_query_bytes [of "[[97]]"] name_ok_def label_ok_def)
  then show "fresh_request sample_query" using sample_wf by (simp add: fresh_request_def sendable_def wf_request_def sample_query_def)
    (simp add: sample_dns_request_def)
  show "take 19 (header_bytes (error_header sample_header) @ drop 12 (q_original_buf sample_query)) =
     query_bytes (error_header sample_header) [[97]] TYPE_A" using length_construct_name [of "[[97]]"] by (simp add: sample_query_def query_bytes_def name_ok_def label_ok_def)
qed (simp_all add: sample_query_def sample_dns_request_def)

lemma sample_pending: "pending (dp_heap sample_waiting) (dp_list sample_waiting) [sample_query]"
proof -
  have "strip sample_query = sample_query" "q_next sample_query = None" by (simp_all add: strip_def sample_query_def sample_dns_request_def)
  then show ?thesis unfolding pending_def by (intro exI [of _ "[1]"]) (simp add: sample_waiting_def)
qed

theorem pending_expire_witness:
  "\<exists>s'. dns_rounds (replicate 10 (sample_dns_io None)) sample_waiting = Some s' \<and> dp_list s' = None \<and>
     Sent 0x0200000a 1025 (query_bytes (sample_header\<lparr>h_flags := 0x8002\<rparr>) [[97]] TYPE_A) \<in> set (dp_out s')"
proof -
  have "requests_ok sample_waiting"
    using sample_pending sample_query_simps(4) unfolding requests_ok_def by (intro exI [of _ "[sample_query]"]) simp
  then have ok: "dproxy_ok sample_waiting" by (simp add: dproxy_ok_def sample_waiting_def sample_state_def)
  have "idle sample_waiting (sample_dns_io None)" using sample_idle by (simp add: idle_def sample_waiting_def)
  then have i: "list_all (idle sample_waiting) (replicate 10 (sample_dns_io None))" by (auto simp: list_all_iff)
  have sv: "servers_ok (dp_conf sample_waiting)" by (simp add: sample_waiting_def sample_state_def)
  have e: "error_header sample_header = sample_header\<lparr>h_flags := 0x8002\<rparr>" by (simp add: error_header_def sample_header_def)
  have "\<exists>s'. dns_rounds ios sample_waiting = Some s' \<and> dp_list s' = None \<and>
      Sent 0x0200000a 1025 (query_bytes (error_header sample_header) [[97]] TYPE_A) \<in> set (dp_out s')"
    if "list_all (idle sample_waiting) ios" "10 \<le> length ios" for ios
  proof -
    from pending_expire [OF ok sv that] obtain s' where s': "dns_rounds ios sample_waiting = Some s'" "dp_list s' = None" and
      k: "\<forall>m\<in>set [sample_query]. 0 \<le> q_numread m \<longrightarrow> Sent (q_src_addr m) (q_src_port m)
        (take (nat (q_numread m)) (header_bytes (error_header (dm_header (q_message m))) @ drop 12 (q_original_buf m))) \<in> set (dp_out s')"
      using sample_pending by blast
    then show ?thesis using sample_query_simps by (intro exI [of _ s']) simp
  qed
  from this [OF i] show ?thesis unfolding e by (simp only: length_replicate)
qed

text \<open>C2: The proxy resolves names.  A query for a name that is not in the cache goes unchanged to the first server.
  The server's answer goes unchanged to the client that asked, the request is no longer pending, and the address is
  in the cache: the next query for the name, by any client and in any case of letters, is answered with that address
  without asking the server.\<close>

theorem proxy_resolves:
  assumes "wf_request (dp_m s)" "pending (dp_heap s) (dp_list s) ms" "dp_cache s = Some (cache_text es)" "list_all entry_ok es"
    and "servers_ok (dp_conf s)" "cf_name_server (dp_conf s) ! 0 \<noteq> []" "is_connected io1 (dp_conf s)"
    and "malloc_ok (io_malloc io1)" "io_malloc io1 (dp_heap s) \<noteq> None"
    and "name_ok ls" "name_ok ls'" "find_name (dotted ls) es = None" "find_name (dotted ls') es = None" "strcaseeq (dotted ls) (dotted ls')"
    and "h_qdcount h = 1" "h_ancount h = 0" "\<forall>m\<in>set ms. request_id m \<noteq> h_id h"
    and "io_ready io1" "io_recv io1 = Some (query_bytes h ls TYPE_A, addr, port)"
    and "h_id r = h_id h" "h_qdcount r = 1" "h_ancount r = 1" "flags_question (h_flags r)" "flags_rcode (h_flags r) = DNS_NO_ERROR"
    and "io_ready io2" "io_recv io2 = Some (address_reply r ls a, saddr, sport)" "io_append io2"
    and "entry_ok (dotted ls, inet_ntoa a, io_now io2)"
    and "h_qdcount h' = 1" "h_ancount h' = 0" "\<forall>m\<in>set ms. request_id m \<noteq> h_id h'"
    and "io_ready io3" "io_recv io3 = Some (query_bytes h' ls' TYPE_A, addr', port')"
  shows "\<exists>s'. dns_rounds [io1, io2, io3] s = Some s' \<and> pending (dp_heap s') (dp_list s') ms \<and>
    dp_out s' = dp_out s @ [Sent (server_addr (dp_conf s) 0) DNS_PORT (query_bytes h ls TYPE_A),
      Sent addr port (address_reply r ls a), Sent addr' port' (address_reply (reply_header h') ls' a)]"
proof -
  from uncached_query [OF assms(1,10,15,16,18,19,7,3,4,12,2,17,8,9,5,6)] obtain s1 m where
    s1: "dns_main_round io1 s = Some s1" "pending (dp_heap s1) (dp_list s1) (m # ms)" "request_id m = h_id r"
      "q_src_addr m = addr" "q_src_port m = port" "dp_cache s1 = Some (cache_text es)" "wf_request (dp_m s1)"
      "dp_out s1 = dp_out s @ [Sent (server_addr (dp_conf s) 0) DNS_PORT (query_bytes h ls TYPE_A)]"
    using assms(3,20) by auto
  from answered_query [OF s1(7) assms(10,21-27) s1(6) assms(28) s1(2,3)] obtain s2 where
    s2: "dns_main_round io2 s1 = Some s2" "pending (dp_heap s2) (dp_list s2) ms" "wf_request (dp_m s2)"
      "dp_cache s2 = Some (cache_text (es @ [(dotted ls, inet_ntoa a, io_now io2)]))"
      "dp_out s2 = dp_out s1 @ [Sent addr port (address_reply r ls a)]" using s1(4,5) by auto
  have es: "list_all entry_ok (es @ [(dotted ls, inet_ntoa a, io_now io2)])" using assms(4,28) by simp
  have f: "find_name (dotted ls') (es @ [(dotted ls, inet_ntoa a, io_now io2)]) = Some (dotted ls, inet_ntoa a, io_now io2)"
    using assms(13,14) by (induction es) (auto simp: find_name_def same_name_def split: if_splits)
  from cached_query [OF s2(3) assms(11,29,30,32,33) s2(4) es f s2(2) assms(31)] s1(1,8) s2(1,5) show ?thesis by auto
qed

theorem proxy_resolves_witness:
  "\<exists>s'. dns_rounds [sample_dns_io (Some (query_bytes sample_header [[97]] TYPE_A, 0x0200000a, 1025)),
      sample_dns_io (Some (address_reply (reply_header sample_header) [[97]] 0x05060708, 0x0100000a, 53)),
      sample_dns_io (Some (query_bytes sample_header [[65]] TYPE_A, 0x0300000a, 1026))] sample_state = Some s' \<and>
    pending (dp_heap s') (dp_list s') [] \<and> dp_out s' = dp_out sample_state @
      [Sent (server_addr (dp_conf sample_state) 0) DNS_PORT (query_bytes sample_header [[97]] TYPE_A),
       Sent 0x0200000a 1025 (address_reply (reply_header sample_header) [[97]] 0x05060708),
       Sent 0x0300000a 1026 (address_reply (reply_header sample_header) [[65]] 0x05060708)]"
proof -
  have f: "flags_question (0 OR 0x8000)" "flags_rcode (0 OR 0x8000) = 0" by (simp_all add: flags_question_def flags_rcode_def)
  have n: "name_ok [[65]]" by (simp add: name_ok_def label_ok_def)
  have c: "strcaseeq [97] [65]" by (simp add: strcaseeq_def tolower_def isupper_def)
  have ok: "entry_ok (dotted [[97]], inet_ntoa 0x05060708, 100)"
    using inet_ntoa_chars [of "0x05060708"] by (simp add: entry_ok_def name_char_def)
  show ?thesis
    using inet_ntoa_chars(3) [of "0x0100000a"] sample_cname(1) n c f ok
    by (intro proxy_resolves [where es = "[]" and saddr = "0x0100000a" and sport = 53])
      (simp_all add: sample_state_def sample_header_def reply_header_def set_flags_question_def sample_dns_io_def [of "Some r" for r] find_name_def)
qed

end
