(* ===== verification/Spec2Isabelle.thy ===== *)
theory Spec2Isabelle
  imports Dhcp_Exchange Ti_Cksum Dns_Proxy
begin

text \<open>
  \<^bold>\<open>Verification of the network daemons of the DSL-G624T router firmware\<close>

  The firmware is a Linux system for the TI AR7 (little-endian MIPS, 32-bit \<^verbatim>\<open>long\<close>, signed \<^verbatim>\<open>char\<close>).  The
  development covers three of its programs:
  \<^item> the DHCP server and client in \<^verbatim>\<open>src/udhcp\<close>;
  \<^item> the DNS proxy in \<^verbatim>\<open>src/dproxy-nexgen\<close>;
  \<^item> the image checksum in \<^verbatim>\<open>src/TI-chksum\<close>.

  \<^bold>\<open>Conventions.\<close>  A C array is a byte list; an access outside it, another undefined behaviour, or a loop
  that does not end is \<^term>\<open>None\<close> of the option monad.  Words have the width that the code gives them.  The
  contents of files, the packets that arrive, the clock, and whether a system call succeeds are inputs; packets
  that are sent and files that are written are outputs.  Operations keep the names of the C functions; an
  auxiliary definition is a loop or a block of one of them.

  \<^bold>\<open>Shared theories.\<close>  \<open>Wire_Prelude\<close> has the words, memory accesses, byte order and first-match lemmas.
  \<open>C_Lib\<close> has the functions of the C library that the programs call: character classes, \<^verbatim>\<open>strtok\<close>, \<^verbatim>\<open>inet_aton\<close> and
  \<^verbatim>\<open>inet_ntoa\<close>, number conversion, \<^verbatim>\<open>strncpy\<close>, \<^verbatim>\<open>fgets\<close>.

  \<^bold>\<open>DHCP.\<close>
  \<^item> \<open>Dhcp_Message\<close>: \<^verbatim>\<open>struct dhcpMessage\<close> and its memory image.
  \<^item> \<open>Dhcp_Options\<close>: \<^verbatim>\<open>options.c\<close>.  On a well-formed options area the scanner is lookup in a list of items and
    the builder appends to it (a locale interpreted on messages).
  \<^item> \<open>Dhcp_Packet\<close>: \<^verbatim>\<open>packet.c\<close> and \<^verbatim>\<open>get_raw_packet\<close> of \<^verbatim>\<open>clientpacket.c\<close>.  What the raw sender builds the raw
    receiver accepts; the checksum verifies.
  \<^item> \<open>Dhcp_Leases\<close>: \<^verbatim>\<open>leases.c\<close>, \<^verbatim>\<open>arpping.c\<close>.  The table invariant (no client and no address in two entries),
    reservations as a locale, termination and result of the search for an address.
  \<^item> \<open>Dhcp_Files\<close>: \<^verbatim>\<open>files.c\<close>.  The lease file read back gives the entries that were written; the
    configuration reader returns exactly on files whose sections fit.
  \<^item> \<open>Dhcp_Server\<close>: \<^verbatim>\<open>serverpacket.c\<close>, \<^verbatim>\<open>dhcpd.c\<close>, \<^verbatim>\<open>socket.c\<close>.  What the server answers, that every round
    keeps the tables, that handling ends within memory, bounds of the lease time.
  \<^item> \<open>Dhcp_Client\<close>: \<^verbatim>\<open>dhcpc.c\<close>, \<^verbatim>\<open>clientpacket.c\<close>, \<^verbatim>\<open>script.c\<close>.  The state invariant, that only an
    acknowledgement binds, that an unrenewed lease is given up.
  \<^item> \<open>Dhcp_Exchange\<close> and this theory: a request of the client handled by the server, and its answer by the client.

  \<^bold>\<open>DNS proxy.\<close>
  \<^item> \<open>Dns_Message\<close>: \<^verbatim>\<open>dns.h\<close>, \<^verbatim>\<open>dns_decode.c\<close>, \<^verbatim>\<open>dns_construct.c\<close>.  Round trips of names, queries and replies.
  \<^item> \<open>Dns_Conf\<close>: \<^verbatim>\<open>conf.c\<close>.  The servers of a configuration file fill the slots in order.
  \<^item> \<open>Dns_Cache\<close>: \<^verbatim>\<open>cache.c\<close>.  The cache file is a list of entries; the locale of a name cache is interpreted on it.
  \<^item> \<open>Dns_Proxy\<close>: \<^verbatim>\<open>dns_list.c\<close>, \<^verbatim>\<open>dns_io.c\<close>, \<^verbatim>\<open>dproxy.c\<close>.  The linked list of requests in a heap refines a list; the
    invariant of the daemon over all runs; requests expire; names are resolved and cached.

  \<^bold>\<open>Checksum.\<close>  \<open>Ti_Cksum\<close>: \<^verbatim>\<open>cksum.c\<close>, \<^verbatim>\<open>ckmain.c\<close>.  The table-driven sum is the POSIX checksum computed bit by
  bit; a tagged file verifies and a changed byte is detected.

  \<^bold>\<open>Loops.\<close>  Loops over data are total functions with a measure.  Loops that may run for ever (walks through linked
  nodes, the search for an address) are partial functions in the option monad or rounds of a step function; that
  they return is proved from the invariants.  No fuel is used in these parts.

  \<^bold>\<open>Not modelled.\<close>  Debug and log output; sockets, forking and signals below the level of a round; the programs
  \<^verbatim>\<open>dumpleases\<close>, \<^verbatim>\<open>pidfile\<close> and \<^verbatim>\<open>frontend\<close> of udhcp, which only do input and output; the kernel, the rest of the C
  library, busybox and the other packages of the firmware.
\<close>

section \<open>Client and server together\<close>

text \<open>C1: The exchange of REQUEST and ACK.  A client that has selected a server which holds an address
  for it sends a request; when that request reaches the server's socket, the server's handler
  sends an ACK to the client's hardware address and records the lease; when that frame reaches the
  client, the client is bound to the address, with the lease time that the server recorded.\<close>

theorem dhcp_exchange:
  assumes "client_ok k" "k_state k = REQUESTING" "k_packet_num k < 3" "hostname_size (k_cfg k) \<le> 32"
    and "tx_socket (co_tx io)" "tx_bind (co_tx io)"
    and "table_ok s" "conf_opts_ok (c_options (s_cfg s))" "addresses_ok (c_options (s_cfg s))" "tx_works env"
    and "0 < s_now s" "c_inflease_time (s_cfg s) \<noteq> 0"
    and "k_server_addr k = c_server (s_cfg s)" "\<not> zerohwaddr (cc_arp (k_cfg k))"
    and "lease_address s (cc_arp (k_cfg k) @ replicate 10 0) = Some (k_requested_ip k)"
  shows "\<exists>k1 req s' f t i h.
    client_timeout io k = Some (CNext k1) \<and>
    k_out k1 = k_out k @ [CTx (RawTx MAC_BCAST_ADDR (cc_ifindex (k_cfg k))
      (raw_frame req INADDR_ANY CLIENT_PORT INADDR_BROADCAST SERVER_PORT))] \<and>
    get_packet (Some (msg_bytes req)) = Some (Got 548 req) \<and>
    handle_packet env s req = Some s' \<and>
    Tx (RawTx (cc_arp (k_cfg k)) (c_ifindex (s_cfg s)) f) \<in> set (s_out s') \<and>
    find_lease_by_chaddr s' (cc_arp (k_cfg k) @ replicate 10 0) = Some i \<and>
    s_leases s' ! i = lease_entry s (cc_arp (k_cfg k) @ replicate 10 0) (k_requested_ip k) t h \<and>
    (\<forall>io'. co_read io' = Some f \<longrightarrow> (\<exists>k2. client_receive io' k1 = Some k2 \<and> k_state k2 = BOUND \<and>
       k_requested_ip k2 = k_requested_ip k \<and> k_lease k2 = Some t))"
proof -
  obtain k1 req where 1: "client_timeout io k = Some (CNext k1)"
    "selects (k_cfg k) (k_xid k) (k_server_addr k) (k_requested_ip k) req"
    "k_out k1 = k_out k @ [CTx (RawTx MAC_BCAST_ADDR (cc_ifindex (k_cfg k))
      (raw_frame req INADDR_ANY CLIENT_PORT INADDR_BROADCAST SERVER_PORT))]"
    "k_state k1 = REQUESTING" "k_xid k1 = k_xid k" "client_ok k1"
    using request_sent [OF assms(1-3,5,6)] by blast
  have arp: "length (cc_arp (k_cfg k)) = 6" using assms(1) by (simp add: client_ok_def cfg_ok_def)
  from request_acked [OF 1(2) [unfolded assms(13)] assms(4) arp assms(7-10,15,14,11,12)] obtain s' ack t i h ts where
    2: "handle_packet env s req = Some s'"
      "Tx (RawTx (cc_arp (k_cfg k)) (c_ifindex (s_cfg s)) (raw_frame ack (c_server (s_cfg s)) SERVER_PORT (k_requested_ip k) CLIENT_PORT))
         \<in> set (s_out s')"
      "lease_reply s req DHCPACK (k_requested_ip k) t ack" "msg_items ack ts" "no_overload ts"
      "\<forall>c d. Opt c d \<in> set ts \<longrightarrow> c \<in> {DHCP_SUBNET, DHCP_ROUTER} \<longrightarrow> 4 \<le> length d"
      "find_lease_by_chaddr s' (cc_arp (k_cfg k) @ replicate 10 0) = Some i"
      "s_leases s' ! i = lease_entry s (cc_arp (k_cfg k) @ replicate 10 0) (k_requested_ip k) t h" by blast
  have req: "get_packet (Some (msg_bytes req)) = Some (Got 548 req)" "m_xid req = k_xid k1"
    using 1(2,5) by (simp_all add: selects_def)
  note 3 = ack_accepted [OF 2(3) req(2) 1(6,4) 2(4-6)]
  let ?f = "raw_frame ack (c_server (s_cfg s)) SERVER_PORT (k_requested_ip k) CLIENT_PORT"
  have "\<forall>io'. co_read io' = Some ?f \<longrightarrow> (\<exists>k2. client_receive io' k1 = Some k2 \<and> k_state k2 = BOUND \<and>
       k_requested_ip k2 = k_requested_ip k \<and> k_lease k2 = Some t)"
    using 3 by blast
  with 1(1,3) req(1) 2(1,2,7,8) show ?thesis
    by (intro exI [of _ k1] exI [of _ req] exI [of _ s'] exI [of _ ?f] exI [of _ t] exI [of _ i] exI [of _ h]) blast
qed

theorem dhcp_exchange_witness:
  "\<exists>k1 req s' f k2. client_timeout sample_io ((sample_client REQUESTING)\<lparr>k_server_addr := htonl 0xC0A80101, k_requested_ip := htonl 0xC0A80102\<rparr>) =
      Some (CNext k1) \<and> handle_packet quiet_env leased_srv req = Some s' \<and>
    client_receive (sample_io\<lparr>co_read := Some f\<rparr>) k1 = Some k2 \<and> k_state k2 = BOUND \<and> k_requested_ip k2 = htonl 0xC0A80102"
proof -
  let ?k = "(sample_client REQUESTING)\<lparr>k_server_addr := htonl 0xC0A80101, k_requested_ip := htonl 0xC0A80102\<rparr>"
  have k: "client_ok ?k" "k_state ?k = REQUESTING" "k_packet_num ?k < 3" "hostname_size (k_cfg ?k) \<le> 32"
    using sample_client_ok [of REQUESTING]
    by (simp_all add: client_ok_def sample_client_def client_init_def hostname_size_def sample_client_cfg_def default_client_config_def)
  have "tx_socket (co_tx sample_io)" "tx_bind (co_tx sample_io)" "tx_works quiet_env"
    by (simp_all add: sample_io_def quiet_env_def tx_works_def)
  moreover have "addresses_ok (c_options (s_cfg leased_srv))"
    by (simp add: addresses_ok_def leased_srv_def set_leases_def sample_srv_def sample_cfg_def)
  moreover have arp: "cc_arp (k_cfg ?k) @ replicate 10 0 = sample_mac" "\<not> zerohwaddr (cc_arp (k_cfg ?k))"
    by (simp_all add: sample_client_def sample_client_cfg_def sample_mac_def zerohwaddr_def)
  moreover have "k_server_addr ?k = c_server (s_cfg leased_srv)" "k_requested_ip ?k = htonl 0xC0A80102" by simp_all
  ultimately obtain k1 req s' f t where "client_timeout sample_io ?k = Some (CNext k1)" "handle_packet quiet_env leased_srv req = Some s'"
    "\<forall>io'. co_read io' = Some f \<longrightarrow> (\<exists>k2. client_receive io' k1 = Some k2 \<and> k_state k2 = BOUND \<and>
       k_requested_ip k2 = k_requested_ip ?k \<and> k_lease k2 = Some t)"
    using dhcp_exchange [OF k, of sample_io leased_srv quiet_env] leased_srv_ok by auto
  moreover from this(3) [rule_format, of "sample_io\<lparr>co_read := Some f\<rparr>"] obtain k2 where
    "client_receive (sample_io\<lparr>co_read := Some f\<rparr>) k1 = Some k2" "k_state k2 = BOUND" "k_requested_ip k2 = htonl 0xC0A80102"
    by auto
  ultimately show ?thesis by blast
qed

end
